(* ===== verification/Prelude.thy ===== *)
theory Prelude
  imports Complex_Main "HOL-Library.Word"
begin

text \<open>
  The prelude of the development: the names the components share for the
  machine integers and memory handles of the C++ sources, and generic facts on
  lists, options and two's-complement truncation.

  \<^item> \<open>handle\<close> is \<open>ALLOC_HANDLE_T\<close> / \<open>MEM_HANDLE_T\<close> (\<open>src/src/core/mem/mallocator.h\<close>), an offset
    into the shared memory segment; \<open>INVALID_HANDLE\<close> is 0.
  \<^item> \<open>u32 n\<close> is what a \<open>uint32_t\<close> keeps of the value \<open>n\<close>, \<open>to_int32 n\<close> is what an
    \<open>int\<close> keeps of an \<open>int64_t\<close>, \<open>to_int64\<close> what an \<open>int64_t\<close> keeps.
\<close>

section \<open>Collections\<close>

named_theorems dtc_simps \<open>unfolding rules of small helper definitions\<close>
named_theorems order_facts \<open>consequences of the key comparator's laws\<close>

section \<open>Machine integers and handles\<close>

type_synonym handle = nat
type_synonym byte = "8 word"
type_synonym memory = "nat \<Rightarrow> byte"

definition INVALID_HANDLE :: handle where
  "INVALID_HANDLE = 0"

definition u8 :: "nat \<Rightarrow> nat" where
  "u8 n = n mod 2 ^ 8"

definition u16 :: "nat \<Rightarrow> nat" where
  "u16 n = n mod 2 ^ 16"

definition u32 :: "nat \<Rightarrow> nat" where
  "u32 n = n mod 2 ^ 32"

definition u64 :: "nat \<Rightarrow> nat" where
  "u64 n = n mod 2 ^ 64"

definition to_int32 :: "int \<Rightarrow> int" where
  "to_int32 x = (x + 2 ^ 31) mod 2 ^ 32 - 2 ^ 31"

definition to_int64 :: "int \<Rightarrow> int" where
  "to_int64 x = (x + 2 ^ 63) mod 2 ^ 64 - 2 ^ 63"

lemma u32_bound [simp]: "u32 n < 4294967296"
  by (simp add: u32_def)

lemma u32_id [simp]: "n < 4294967296 \<Longrightarrow> u32 n = n"
  by (simp add: u32_def)

lemma u32_idem [simp]: "u32 (u32 n) = u32 n"
  by (simp add: u32_def)

lemma to_int32_id [simp]: "- (2 ^ 31) \<le> x \<Longrightarrow> x < 2 ^ 31 \<Longrightarrow> to_int32 x = x"
  by (simp add: to_int32_def)

lemma to_int64_id [simp]: "- (2 ^ 63) \<le> x \<Longrightarrow> x < 2 ^ 63 \<Longrightarrow> to_int64 x = x"
  by (simp add: to_int64_def)

lemma to_int32_range: "- (2 ^ 31) \<le> to_int32 x \<and> to_int32 x < 2 ^ 31"
  by (simp add: to_int32_def)

section \<open>Memory\<close>

text \<open>Little-endian loads from the byte at an address on, and the bytes of a range.\<close>

primrec load_le :: "memory \<Rightarrow> nat \<Rightarrow> nat \<Rightarrow> nat" where
  "load_le mem a 0 = 0"
| "load_le mem a (Suc n) = unat (mem a) + 256 * load_le mem (a + 1) n"

definition load_bytes :: "memory \<Rightarrow> nat \<Rightarrow> nat \<Rightarrow> byte list" where
  "load_bytes mem a n = map (\<lambda>i. mem (a + i)) [0..<n]"

lemma length_load_bytes [simp]: "length (load_bytes mem a n) = n"
  by (simp add: load_bytes_def)

lemma byte_bound: "unat (b :: byte) < 256"
  using unsigned_less [of b] by simp

lemma load_le_bound: "load_le mem a n < 256 ^ n"
proof (induction n arbitrary: a)
  case (Suc n)
  have "unat (mem a) < 256" by (rule byte_bound)
  moreover have "load_le mem (a + 1) n + 1 \<le> 256 ^ n" using Suc [of "a + 1"] by simp
  then have "256 * (load_le mem (a + 1) n + 1) \<le> 256 * 256 ^ n" by (rule mult_le_mono2)
  ultimately show ?case by simp
qed simp

lemma load_le_4:
  "load_le mem a 4 = unat (mem a) + 256 * (unat (mem (a + 1)) + 256 * (unat (mem (a + 2)) + 256 * unat (mem (a + 3))))"
proof -
  have "4 = Suc (Suc (Suc (Suc 0)))" by simp
  then have "load_le mem a 4 = load_le mem a (Suc (Suc (Suc (Suc 0))))" by (rule arg_cong)
  then show ?thesis by (simp add: numeral_2_eq_2 numeral_3_eq_3)
qed

section \<open>Lists\<close>

lemma last_conv_nth_pred: "xs \<noteq> [] \<Longrightarrow> xs ! (length xs - 1) = last xs"
  by (simp add: last_conv_nth)

lemma take_Suc_drop_nth:
  "i < length xs \<Longrightarrow> take i xs @ xs ! i # drop (Suc i) xs = xs"
  by (rule id_take_nth_drop [symmetric])

lemma sorted_wrt_nth_mono:
  fixes f :: "'a \<Rightarrow> 'o::linorder"
  assumes "sorted_wrt (<) (map f xs)" "i < j" "j < length xs"
  shows "f (xs ! i) < f (xs ! j)"
  using sorted_wrt_nth_less [OF assms(1), of i j] assms(2,3) by simp

end
