(* ===== verification/Mallocator.thy ===== *)
theory Mallocator
  imports Prelude
begin

text \<open>
  The allocator interface \<open>MallocBase\<close> of \<open>src/src/core/mem/mallocator.h\<close>. Client
  components (the T-tree) are written against the virtual methods of that class,
  so their models take a record of the methods they call. The contract
  \<open>malloc_contract\<close> states what the clients rely on.
\<close>

section \<open>The virtual methods\<close>

record 'm MallocBase =
  Malloc_op :: "'m \<Rightarrow> nat \<Rightarrow> 'm \<times> handle"
  Calloc_op :: "'m \<Rightarrow> nat \<Rightarrow> 'm \<times> handle"
  ReAlloc_op :: "'m \<Rightarrow> handle \<Rightarrow> nat \<Rightarrow> 'm \<times> handle"
  Free_op :: "'m \<Rightarrow> handle \<Rightarrow> 'm \<times> int"
  chunk_size_op :: "'m \<Rightarrow> handle \<Rightarrow> nat"
  ask_for_destroy_size_op :: "'m \<Rightarrow> handle \<Rightarrow> nat"

section \<open>The contract\<close>

text \<open>
  \<open>holds m L\<close>: in the allocator state \<open>m\<close> the blocks \<open>L\<close> are allocated, each a handle and
  its size. An allocation adds a block that is large enough, under a handle that no block
  has, or fails and leaves the blocks as they are; freeing an allocated block succeeds and
  removes it.
\<close>

locale malloc_contract =
  fixes stMalloc :: "'m MallocBase" and holds :: "'m \<Rightarrow> (handle \<times> nat) set \<Rightarrow> bool"
  assumes one_size: "holds m L \<Longrightarrow> (h, n) \<in> L \<Longrightarrow> (h, n') \<in> L \<Longrightarrow> n = n'"
    and malloc_law: "holds m L \<Longrightarrow> Malloc_op stMalloc m req = (m', h) \<Longrightarrow>
      h = INVALID_HANDLE \<and> holds m' L
      \<or> h \<noteq> INVALID_HANDLE \<and> h \<notin> fst ` L \<and> (\<exists>n\<ge>req. holds m' (insert (h, n) L))"
    and free_law: "holds m L \<Longrightarrow> (h, n) \<in> L \<Longrightarrow>
      \<exists>m'. Free_op stMalloc m h = (m', 0) \<and> holds m' (L - {(h, n)})"
    and size_law: "holds m L \<Longrightarrow> (h, n) \<in> L \<Longrightarrow> chunk_size_op stMalloc m h = n"
begin

lemma free_handle:
  assumes "holds m L" "h \<in> fst ` L"
  shows "snd (Free_op stMalloc m h) = 0" "holds (fst (Free_op stMalloc m h)) {b \<in> L. fst b \<noteq> h}"
proof -
  obtain n where n: "(h, n) \<in> L" using assms(2) by auto
  have "b = (h, n)" if "b \<in> L" "fst b = h" for b
    using that n one_size [OF assms(1), of h n "snd b"] by (cases b) simp
  then have "L - {(h, n)} \<subseteq> {b \<in> L. fst b \<noteq> h}" by blast
  then have L: "L - {(h, n)} = {b \<in> L. fst b \<noteq> h}" by auto
  obtain m' where "Free_op stMalloc m h = (m', 0)" "holds m' {b \<in> L. fst b \<noteq> h}"
    using free_law [OF assms(1) n] unfolding L by blast
  then show "snd (Free_op stMalloc m h) = 0" "holds (fst (Free_op stMalloc m h)) {b \<in> L. fst b \<noteq> h}" by simp_all
qed

lemma free_all:
  assumes "holds m L" "distinct hs" "set hs \<subseteq> fst ` L"
  shows "holds (fold (\<lambda>h m. fst (Free_op stMalloc m h)) hs m) {b \<in> L. fst b \<notin> set hs}"
  using assms
proof (induction hs arbitrary: m L)
  case (Cons h hs)
  have "holds (fst (Free_op stMalloc m h)) {b \<in> L. fst b \<noteq> h}" using free_handle(2) Cons.prems by simp
  moreover have "set hs \<subseteq> fst ` {b \<in> L. fst b \<noteq> h}" 
  proof
    fix k assume k: "k \<in> set hs"
    then have "k \<in> fst ` L" "k \<noteq> h" using Cons.prems(2,3) by auto
    then show "k \<in> fst ` {b \<in> L. fst b \<noteq> h}" by blast
  qed
  moreover have "distinct hs" using Cons.prems(2) by simp
  ultimately have "holds (fold (\<lambda>h m. fst (Free_op stMalloc m h)) hs (fst (Free_op stMalloc m h)))
      {b \<in> {b \<in> L. fst b \<noteq> h}. fst b \<notin> set hs}"
    by (intro Cons.IH)
  moreover have "{b \<in> {b \<in> L. fst b \<noteq> h}. fst b \<notin> set hs} = {b \<in> L. fst b \<notin> set (h # hs)}" by auto
  ultimately show ?case by (simp only: fold_Cons comp_apply)
qed simp

end

text \<open>
  The contract of an allocator on one segment of memory, whose size \<open>total\<close> no operation
  changes: the blocks lie inside the segment and do not overlap, and \<open>Calloc\<close> allocates as
  \<open>Malloc\<close> does.
\<close>

locale segment_contract = malloc_contract +
  fixes total :: "'a \<Rightarrow> nat"
  assumes calloc_law: "holds m L \<Longrightarrow> Calloc_op stMalloc m req = (m', h) \<Longrightarrow>
      h = INVALID_HANDLE \<and> holds m' L
      \<or> h \<noteq> INVALID_HANDLE \<and> h \<notin> fst ` L \<and> (\<exists>n\<ge>req. holds m' (insert (h, n) L))"
    and inside: "holds m L \<Longrightarrow> (h, n) \<in> L \<Longrightarrow> h \<noteq> INVALID_HANDLE \<and> 0 < n \<and> h + n \<le> total m"
    and apart: "holds m L \<Longrightarrow> (h, n) \<in> L \<Longrightarrow> (h', n') \<in> L \<Longrightarrow> h \<noteq> h' \<Longrightarrow> h + n \<le> h' \<or> h' + n' \<le> h"
    and total_malloc: "holds m L \<Longrightarrow> total (fst (Malloc_op stMalloc m req)) = total m"
    and total_calloc: "holds m L \<Longrightarrow> total (fst (Calloc_op stMalloc m req)) = total m"
    and total_free: "holds m L \<Longrightarrow> (h, n) \<in> L \<Longrightarrow> total (fst (Free_op stMalloc m h)) = total m"
begin

lemma finite_blocks: "holds m L \<Longrightarrow> finite L"
proof -
  assume "holds m L"
  then have "L \<subseteq> {..total m} \<times> {..total m}" using inside by fastforce
  then show ?thesis by (rule finite_subset) simp
qed

text \<open>There is room for only so many blocks of a given size.\<close>

lemma room:
  assumes m: "holds m L" and hs: "distinct hs" "\<And>h. h \<in> set hs \<Longrightarrow> \<exists>n\<ge>z. (h, n) \<in> L"
  shows "z * length hs \<le> total m"
proof -
  have "card (\<Union>h\<in>set hs. {h..<h + z}) = (\<Sum>h\<in>set hs. card {h..<h + z})"
  proof (rule card_UN_disjoint)
    show "\<forall>h\<in>set hs. \<forall>k\<in>set hs. h \<noteq> k \<longrightarrow> {h..<h + z} \<inter> {k..<k + z} = {}"
    proof (intro ballI impI)
      fix h k assume "h \<in> set hs" "k \<in> set hs" "h \<noteq> k"
      then obtain n n' where "z \<le> n" "(h, n) \<in> L" "z \<le> n'" "(k, n') \<in> L" using hs(2) by blast
      then show "{h..<h + z} \<inter> {k..<k + z} = {}" using apart [OF m, of h n k n'] \<open>h \<noteq> k\<close> by auto
    qed
  qed simp_all
  moreover have "(\<Union>h\<in>set hs. {h..<h + z}) \<subseteq> {..<total m}"
  proof (intro UN_least)
    fix h assume "h \<in> set hs"
    then obtain n where "z \<le> n" "(h, n) \<in> L" using hs(2) by blast
    then show "{h..<h + z} \<subseteq> {..<total m}" using inside [OF m, of h n] by auto
  qed
  then have "card (\<Union>h\<in>set hs. {h..<h + z}) \<le> total m" using card_mono [of "{..<total m}"] by fastforce
  moreover have "(\<Sum>h\<in>set hs. card {h..<h + z}) = z * length hs"
    using distinct_card [OF hs(1)] by (simp add: mult.commute)
  ultimately show ?thesis by presburger
qed

text \<open>A handle inside a block is no other block.\<close>

lemma inner_handle:
  assumes m: "holds m L" and "(h, n) \<in> L" "0 < i" "i < n"
  shows "h + i \<notin> fst ` L"
proof
  assume "h + i \<in> fst ` L"
  then obtain n' where "(h + i, n') \<in> L" by auto
  then show False using apart [OF m assms(2), of "h + i" n'] inside [OF m, of "h + i" n'] assms(3,4) by auto
qed

end

end
