(* ===== verification/TTree.thy ===== *)
theory TTree
  imports Mallocator
begin

text \<open>
  The T-tree of \<open>src/src/core/tree/t_tree.cc\<close>: a balanced binary tree whose nodes hold up to
  \<open>PAGE_SIZE\<close> record handles. This theory holds the node type and every operation of
  \<open>_TtreeNode\<close> and \<open>Ttree\<close>; the theories \<open>TTree_Order\<close>, \<open>TTree_Insert\<close>, \<open>TTree_Delete\<close>
  and \<open>TTree_Traverse\<close> hold their properties.

  A node is reached from exactly one parent link, so a tree of the model is the
  unfolding of the links: \<open>NIL\<close> is \<open>INVALID_HANDLE\<close>, and a \<open>TtreeNode\<close> carries its own
  handle, its two children, \<open>m_chBalance\<close> and the first \<open>m_ushNItems\<close> entries of
  \<open>m_ahItems\<close>. The reference parameter \<open>hNode\<close> of the C++ methods is the tree that an
  operation returns. \<open>pfComp\<close> is the user's comparator applied to its cookie and the
  memory of the records; its \<open>int64_t\<close> result is stored in an \<open>int\<close>, which is
  \<open>to_int32\<close>. An operation that would follow a null link returns \<open>None\<close>.
\<close>

section \<open>Nodes\<close>

datatype ttree =
    NIL
  | TtreeNode (h_self: handle) (m_hLeft: ttree) (m_hRight: ttree)
      (m_chBalance: int) (m_ahItems: "handle list")

definition PAGE_SIZE :: nat where
  "PAGE_SIZE = 20"

definition MIN_ITEMS :: nat where
  "MIN_ITEMS = PAGE_SIZE - 2"

definition sizeof_TtreeNode :: nat where
  "sizeof_TtreeNode = 8 + 8 + 1 + 2 + 8 * PAGE_SIZE"

type_synonym 'k comparator = "'k \<Rightarrow> handle \<Rightarrow> int"

definition iDiff :: "'k comparator \<Rightarrow> 'k \<Rightarrow> handle \<Rightarrow> int" where
  "iDiff pfComp pchKey hItem = to_int32 (pfComp pchKey hItem)"

definition TtreeNode_do_init :: "handle \<Rightarrow> ttree" where
  "TtreeNode_do_init h = TtreeNode h NIL NIL 0 []"

definition TtreeNode_Alloc :: "'m MallocBase \<Rightarrow> 'm \<Rightarrow> handle \<Rightarrow> 'm \<times> ttree" where
  "TtreeNode_Alloc stMalloc m hRecord =
     (let (m', h) = Malloc_op stMalloc m sizeof_TtreeNode in
      if h = INVALID_HANDLE then (m', NIL)
      else (m', case TtreeNode_do_init h of
                  NIL \<Rightarrow> NIL
                | TtreeNode h l r b _ \<Rightarrow> TtreeNode h l r b [hRecord]))"

section \<open>Insertion\<close>

text \<open>The rebalancing after the left or the right branch has grown.\<close>

fun insert_grown_left :: "ttree \<Rightarrow> (int \<times> ttree) option" where
  "insert_grown_left NIL = None"
| "insert_grown_left (TtreeNode h l r b items) =
     (if b > 0 then Some (0, TtreeNode h l r 0 items)
      else if b = 0 then Some (1, TtreeNode h l r (-1) items)
      else (case l of
          NIL \<Rightarrow> None
        | TtreeNode hl ll lr lb litems \<Rightarrow>
            if lb < 0 then
              Some (0, TtreeNode hl ll (TtreeNode h lr r 0 items) 0 litems)
            else (case lr of
                NIL \<Rightarrow> None
              | TtreeNode hr rl rr rb ritems \<Rightarrow>
                  Some (0, TtreeNode hr
                             (TtreeNode hl ll rl (if rb > 0 then -1 else 0) litems)
                             (TtreeNode h rr r (if rb < 0 then 1 else 0) items)
                             0 ritems))))"

fun insert_grown_right :: "ttree \<Rightarrow> (int \<times> ttree) option" where
  "insert_grown_right NIL = None"
| "insert_grown_right (TtreeNode h l r b items) =
     (if b < 0 then Some (0, TtreeNode h l r 0 items)
      else if b = 0 then Some (1, TtreeNode h l r 1 items)
      else (case r of
          NIL \<Rightarrow> None
        | TtreeNode hr rl rr rb ritems \<Rightarrow>
            if rb > 0 then
              Some (0, TtreeNode hr (TtreeNode h l rl 0 items) rr 0 ritems)
            else (case rl of
                NIL \<Rightarrow> None
              | TtreeNode hl ll lr lb litems \<Rightarrow>
                  Some (0, TtreeNode hl
                             (TtreeNode h l ll (if lb > 0 then -1 else 0) items)
                             (TtreeNode hr lr rr (if lb < 0 then 1 else 0) ritems)
                             0 litems))))"

text \<open>
  The binary search for the position inside a node: \<open>None\<close> is the early return of -2,
  \<open>Some iRight\<close> the index before which the record goes.
\<close>

function insert_bsearch :: "(handle \<Rightarrow> int) \<Rightarrow> handle list \<Rightarrow> nat \<Rightarrow> nat \<Rightarrow> nat option" where
  "insert_bsearch diff items iLeft iRight =
     (if iLeft < iRight then
        (let i = (iLeft + iRight) div 2; iDiff = diff (items ! i) in
         if iDiff = 0 then None
         else if iDiff > 0 then insert_bsearch diff items (i + 1) iRight
         else insert_bsearch diff items iLeft i)
      else Some iRight)"
  by pat_completeness auto
termination
  by (relation "measure (\<lambda>(diff, items, iLeft, iRight). iRight - iLeft)") auto

declare insert_bsearch.simps [simp del]

definition insert_item :: "handle list \<Rightarrow> nat \<Rightarrow> handle \<Rightarrow> handle list" where
  "insert_item items iRight hRecord = take iRight items @ hRecord # drop iRight items"

text \<open>
  A full node makes room by giving up its first or its last record, which is then
  inserted again: the record given up, and the node's new records.
\<close>

definition insert_full :: "int \<Rightarrow> handle list \<Rightarrow> nat \<Rightarrow> handle \<Rightarrow> handle \<times> handle list" where
  "insert_full b items iRight hRecord =
     (if b \<ge> 0 then
        (items ! 0, take (iRight - 1) (drop 1 items) @ hRecord # drop iRight items)
      else
        (items ! (length items - 1),
         take iRight items @ hRecord # take (length items - 1 - iRight) (drop iRight items)))"

fun set_items :: "ttree \<Rightarrow> handle list \<Rightarrow> ttree" where
  "set_items NIL items = NIL"
| "set_items (TtreeNode h l r b _) items = TtreeNode h l r b items"

type_synonym 'm insert_result = "int \<times> ttree \<times> bool \<times> 'm"

definition attach_grown_left ::
  "handle \<Rightarrow> ttree \<Rightarrow> int \<Rightarrow> handle list \<Rightarrow> 'm insert_result \<Rightarrow> 'm insert_result option" where
  "attach_grown_left h r b items res =
     (case res of (iGrow, hChild, isAlloc, m) \<Rightarrow>
        if iGrow < 0 then Some (iGrow, TtreeNode h hChild r b items, isAlloc, m)
        else if iGrow = 0 then Some (0, TtreeNode h hChild r b items, isAlloc, m)
        else map_option (\<lambda>(iRet, t). (iRet, t, isAlloc, m))
               (insert_grown_left (TtreeNode h hChild r b items)))"

definition attach_grown_right ::
  "handle \<Rightarrow> ttree \<Rightarrow> int \<Rightarrow> handle list \<Rightarrow> 'm insert_result \<Rightarrow> 'm insert_result option" where
  "attach_grown_right h l b items res =
     (case res of (iGrow, hChild, isAlloc, m) \<Rightarrow>
        if iGrow < 0 then Some (iGrow, TtreeNode h l hChild b items, isAlloc, m)
        else if iGrow = 0 then Some (0, TtreeNode h l hChild b items, isAlloc, m)
        else map_option (\<lambda>(iRet, t). (iRet, t, isAlloc, m))
               (insert_grown_right (TtreeNode h l hChild b items)))"

definition insert_restore :: "handle list \<Rightarrow> 'm insert_result \<Rightarrow> 'm insert_result option" where
  "insert_restore items res =
     (case res of (iRet, t, isAlloc, m) \<Rightarrow>
        Some (iRet, if iRet < 0 then set_items t items else t, isAlloc, m))"

partial_function (option) TtreeNode_do_insert ::
  "'m MallocBase \<Rightarrow> 'k comparator \<Rightarrow> (handle \<Rightarrow> 'k) \<Rightarrow> ttree \<Rightarrow> 'k \<Rightarrow> handle \<Rightarrow> bool \<Rightarrow> 'm
   \<Rightarrow> 'm insert_result option" where
  "TtreeNode_do_insert stMalloc pfComp convert_cvalue hNode pchKey hRecord isAlloc m =
    (case hNode of
      NIL \<Rightarrow> None
    | TtreeNode h l r b items \<Rightarrow>
       if iDiff pfComp pchKey (items ! 0) = 0 then Some (-2, hNode, isAlloc, m)
       else if iDiff pfComp pchKey (items ! 0) \<le> 0 then
         (if l = NIL \<and> length items < PAGE_SIZE then
            Some (0, TtreeNode h l r b (hRecord # items), isAlloc, m)
          else if l = NIL then
            (case TtreeNode_Alloc stMalloc m hRecord of (m', hLeft) \<Rightarrow>
               if hLeft = NIL then Some (-1, hNode, isAlloc, m')
               else attach_grown_left h r b items (1, hLeft, True, m'))
          else
            Option.bind
              (TtreeNode_do_insert stMalloc pfComp convert_cvalue l pchKey hRecord isAlloc m)
              (attach_grown_left h r b items))
       else if iDiff pfComp pchKey (items ! (length items - 1)) = 0 then
         Some (-2, hNode, isAlloc, m)
       else if iDiff pfComp pchKey (items ! (length items - 1)) \<ge> 0 then
         (if r = NIL \<and> length items < PAGE_SIZE then
            Some (0, TtreeNode h l r b (items @ [hRecord]), isAlloc, m)
          else if r = NIL then
            (case TtreeNode_Alloc stMalloc m hRecord of (m', hRight) \<Rightarrow>
               if hRight = NIL then Some (-1, hNode, isAlloc, m')
               else attach_grown_right h l b items (1, hRight, True, m'))
          else
            Option.bind
              (TtreeNode_do_insert stMalloc pfComp convert_cvalue r pchKey hRecord isAlloc m)
              (attach_grown_right h l b items))
       else
         (case insert_bsearch (iDiff pfComp pchKey) items 1 (length items - 1) of
            None \<Rightarrow> Some (-2, hNode, isAlloc, m)
          | Some iRight \<Rightarrow>
              if length items < PAGE_SIZE then
                Some (0, TtreeNode h l r b (insert_item items iRight hRecord), isAlloc, m)
              else
                (case insert_full b items iRight hRecord of (hReInsert, items') \<Rightarrow>
                   Option.bind
                     (TtreeNode_do_insert stMalloc pfComp convert_cvalue
                        (TtreeNode h l r b items')
                        (convert_cvalue hReInsert) hReInsert isAlloc m)
                     (insert_restore items))))"

section \<open>Deletion\<close>

text \<open>The rebalancing after the left or the right branch has shrunk.\<close>

fun balance_left_branch :: "ttree \<Rightarrow> (int \<times> ttree) option" where
  "balance_left_branch NIL = None"
| "balance_left_branch (TtreeNode h l r b items) =
     (if b < 0 then Some (1, TtreeNode h l r 0 items)
      else if b = 0 then Some (0, TtreeNode h l r 1 items)
      else (case r of
          NIL \<Rightarrow> None
        | TtreeNode hr rl rr rb ritems \<Rightarrow>
            if rb \<ge> 0 then
              (if rb = 0 then
                 Some (0, TtreeNode hr (TtreeNode h l rl 1 items) rr (-1) ritems)
               else
                 Some (1, TtreeNode hr (TtreeNode h l rl 0 items) rr 0 ritems))
            else (case rl of
                NIL \<Rightarrow> None
              | TtreeNode hl ll lr lb litems \<Rightarrow>
                  Some (1, TtreeNode hl
                             (TtreeNode h l ll (if lb > 0 then -1 else 0) items)
                             (TtreeNode hr lr rr (if lb < 0 then 1 else 0) ritems)
                             0 litems))))"

fun balance_right_branch :: "ttree \<Rightarrow> (int \<times> ttree) option" where
  "balance_right_branch NIL = None"
| "balance_right_branch (TtreeNode h l r b items) =
     (if b > 0 then Some (1, TtreeNode h l r 0 items)
      else if b = 0 then Some (0, TtreeNode h l r (-1) items)
      else (case l of
          NIL \<Rightarrow> None
        | TtreeNode hl ll lr lb litems \<Rightarrow>
            if lb \<le> 0 then
              (if lb = 0 then
                 Some (0, TtreeNode hl ll (TtreeNode h lr r (-1) items) 1 litems)
               else
                 Some (1, TtreeNode hl ll (TtreeNode h lr r 0 items) 0 litems))
            else (case lr of
                NIL \<Rightarrow> None
              | TtreeNode hr rl rr rb ritems \<Rightarrow>
                  Some (1, TtreeNode hr
                             (TtreeNode hl ll rl (if rb > 0 then -1 else 0) litems)
                             (TtreeNode h rr r (if rb < 0 then 1 else 0) items)
                             0 ritems))))"

fun rightmost :: "ttree \<Rightarrow> ttree" where
  "rightmost NIL = NIL"
| "rightmost (TtreeNode h l r b items) =
     (if r = NIL then TtreeNode h l r b items else rightmost r)"

fun leftmost :: "ttree \<Rightarrow> ttree" where
  "leftmost NIL = NIL"
| "leftmost (TtreeNode h l r b items) =
     (if l = NIL then TtreeNode h l r b items else leftmost l)"

text \<open>The scan of a node for the record with the key, from index \<open>i\<close> on.\<close>

fun delete_scan :: "(handle \<Rightarrow> bool) \<Rightarrow> handle list \<Rightarrow> nat \<Rightarrow> nat option" where
  "delete_scan P [] i = None"
| "delete_scan P (x # xs) i = (if P x then Some i else delete_scan P xs (i + 1))"

definition remove_item :: "handle list \<Rightarrow> nat \<Rightarrow> handle list" where
  "remove_item items i = take i items @ drop (i + 1) items"

type_synonym 'm delete_result = "int \<times> ttree \<times> bool \<times> 'm"

text \<open>
  After the deletion in the left branch: \<open>Inl\<close> returns to the caller, \<open>Inr\<close> goes on to the
  node's own records, which happens when the branch does not hold the key.
\<close>

definition delete_after_left ::
  "handle \<Rightarrow> ttree \<Rightarrow> int \<Rightarrow> handle list \<Rightarrow> 'm delete_result
   \<Rightarrow> ('m delete_result + ttree \<times> bool \<times> 'm) option" where
  "delete_after_left h r b items res =
     (case res of (iRet, hChild, isFree, m) \<Rightarrow>
        if iRet < -1 then Some (Inl (iRet, TtreeNode h hChild r b items, isFree, m))
        else if iRet > 0 then
          map_option (\<lambda>(iRet', t). Inl (iRet', t, isFree, m))
            (balance_left_branch (TtreeNode h hChild r b items))
        else if iRet = 0 then Some (Inl (0, TtreeNode h hChild r b items, isFree, m))
        else Some (Inr (hChild, isFree, m)))"

definition delete_from_left ::
  "handle \<Rightarrow> ttree \<Rightarrow> int \<Rightarrow> handle list \<Rightarrow> 'm delete_result \<Rightarrow> 'm delete_result option" where
  "delete_from_left h r b items res =
     (case res of (iRet, hChild, isFree, m) \<Rightarrow>
        if iRet > 0 then
          map_option (\<lambda>(iRet', t). (iRet', t, isFree, m))
            (balance_left_branch (TtreeNode h hChild r b items))
        else Some (iRet, TtreeNode h hChild r b items, isFree, m))"

definition delete_from_right ::
  "handle \<Rightarrow> ttree \<Rightarrow> int \<Rightarrow> handle list \<Rightarrow> 'm delete_result \<Rightarrow> 'm delete_result option" where
  "delete_from_right h l b items res =
     (case res of (iRet, hChild, isFree, m) \<Rightarrow>
        if iRet > 0 then
          map_option (\<lambda>(iRet', t). (iRet', t, isFree, m))
            (balance_right_branch (TtreeNode h l hChild b items))
        else Some (iRet, TtreeNode h l hChild b items, isFree, m))"

partial_function (option) TtreeNode_Delete ::
  "'m MallocBase \<Rightarrow> 'k comparator \<Rightarrow> (handle \<Rightarrow> 'k) \<Rightarrow> ttree \<Rightarrow> 'k \<Rightarrow> bool \<Rightarrow> 'm
   \<Rightarrow> 'm delete_result option" where
  "TtreeNode_Delete stMalloc pfComp convert_cvalue hNode pchKey isFree m =
    (case hNode of
      NIL \<Rightarrow> None
    | TtreeNode h l r b items \<Rightarrow>
       Option.bind
         (if iDiff pfComp pchKey (items ! 0) < 0 \<and> l \<noteq> NIL then
            Option.bind (TtreeNode_Delete stMalloc pfComp convert_cvalue l pchKey isFree m)
              (delete_after_left h r b items)
          else Some (Inr (l, isFree, m)))
         (\<lambda>left. case left of
            Inl res \<Rightarrow> Some res
          | Inr (l, isFree, m) \<Rightarrow>
             (case (if iDiff pfComp pchKey (items ! (length items - 1)) \<le> 0
                    then delete_scan (\<lambda>x. pfComp pchKey x = 0) items 0 else None) of
                Some i \<Rightarrow>
                  if length items = 1 \<and> r = NIL then
                    Some (1, l, isFree, fst (Free_op stMalloc m h))
                  else if length items = 1 \<and> l = NIL then
                    Some (1, r, isFree, fst (Free_op stMalloc m h))
                  else if length items \<le> MIN_ITEMS \<and> l \<noteq> NIL \<and> b \<le> 0 then
                    Option.bind
                      (TtreeNode_Delete stMalloc pfComp convert_cvalue l
                         (convert_cvalue (last (m_ahItems (rightmost l))))
                         (isFree \<or> length items = 1) m)
                      (delete_from_left h r b
                         (last (m_ahItems (rightmost l)) # remove_item items i))
                  else if length items \<le> MIN_ITEMS \<and> r \<noteq> NIL then
                    Option.bind
                      (TtreeNode_Delete stMalloc pfComp convert_cvalue r
                         (convert_cvalue (hd (m_ahItems (leftmost r))))
                         (isFree \<or> length items = 1) m)
                      (delete_from_right h l b
                         (remove_item items i @ [hd (m_ahItems (leftmost r))]))
                  else
                    Some (0, TtreeNode h l r b (remove_item items i),
                          isFree \<or> length items = 1, m)
              | None \<Rightarrow>
                  if r \<noteq> NIL then
                    Option.bind (TtreeNode_Delete stMalloc pfComp convert_cvalue r pchKey isFree m)
                      (delete_from_right h l b items)
                  else Some (-1, TtreeNode h l r b items, isFree, m))))"

section \<open>Lookup\<close>

text \<open>
  \<open>phRecord\<close> points into the item array of a node: a slot is the node, the index and
  the handle stored there. Results are the C++ return value and the out parameter.
\<close>

type_synonym slot = "handle \<times> nat \<times> handle"

function find_bsearch :: "(handle \<Rightarrow> int) \<Rightarrow> handle list \<Rightarrow> nat \<Rightarrow> nat \<Rightarrow> nat option" where
  "find_bsearch diff items iLeft iRight =
     (if iLeft < iRight then
        (let i = (iLeft + iRight) div 2; iDiff = diff (items ! i) in
         if iDiff = 0 then Some i
         else if iDiff > 0 then find_bsearch diff items (i + 1) iRight
         else find_bsearch diff items iLeft i)
      else None)"
  by pat_completeness auto
termination
  by (relation "measure (\<lambda>(diff, items, iLeft, iRight). iRight - iLeft)") auto

declare find_bsearch.simps [simp del]

fun TtreeNode_do_find_slot :: "'k comparator \<Rightarrow> 'k \<Rightarrow> ttree \<Rightarrow> int \<times> slot option" where
  "TtreeNode_do_find_slot pfComp pchKey NIL = (0, None)"
| "TtreeNode_do_find_slot pfComp pchKey (TtreeNode h l r b items) =
     (if items = [] then (0, None)
      else if iDiff pfComp pchKey (items ! 0) = 0 then (1, Some (h, 0, items ! 0))
      else if iDiff pfComp pchKey (items ! 0) > 0 then
        (if iDiff pfComp pchKey (items ! (length items - 1)) = 0 then
           (1, Some (h, length items - 1, items ! (length items - 1)))
         else if iDiff pfComp pchKey (items ! (length items - 1)) > 0 then
           TtreeNode_do_find_slot pfComp pchKey r
         else (case find_bsearch (iDiff pfComp pchKey) items 1 (length items - 1) of
                 Some i \<Rightarrow> (1, Some (h, i, items ! i))
               | None \<Rightarrow> (0, None)))
      else TtreeNode_do_find_slot pfComp pchKey l)"

definition TtreeNode_do_find :: "'k comparator \<Rightarrow> 'k \<Rightarrow> ttree \<Rightarrow> int \<times> handle" where
  "TtreeNode_do_find pfComp pchKey t =
     (case TtreeNode_do_find_slot pfComp pchKey t of
        (iRet, Some (_, _, hItem)) \<Rightarrow> (iRet, if iRet = 1 then hItem else INVALID_HANDLE)
      | (iRet, None) \<Rightarrow> (iRet, INVALID_HANDLE))"

fun TtreeNode_find_handle :: "handle \<Rightarrow> ttree \<Rightarrow> int" where
  "TtreeNode_find_handle hRecord NIL = 0"
| "TtreeNode_find_handle hRecord (TtreeNode h l r b items) =
     (if items = [] then 0
      else if hRecord \<in> set items then 1
      else if r \<noteq> NIL \<and> TtreeNode_find_handle hRecord r = 1 then 1
      else if l \<noteq> NIL \<and> TtreeNode_find_handle hRecord l = 1 then 1
      else 0)"

fun TtreeNode_find_node :: "'k comparator \<Rightarrow> 'k \<Rightarrow> ttree \<Rightarrow> int \<times> handle" where
  "TtreeNode_find_node pfComp pchKey NIL = (0, INVALID_HANDLE)"
| "TtreeNode_find_node pfComp pchKey (TtreeNode h l r b items) =
     (if items = [] then (0, INVALID_HANDLE)
      else if iDiff pfComp pchKey (items ! 0) = 0 then (1, h)
      else if iDiff pfComp pchKey (items ! 0) > 0 then
        (if iDiff pfComp pchKey (items ! (length items - 1)) \<le> 0 then (1, h)
         else if r = NIL then (0, INVALID_HANDLE)
         else TtreeNode_find_node pfComp pchKey r)
      else if l = NIL then (1, h)
      else TtreeNode_find_node pfComp pchKey l)"

section \<open>Traversals\<close>

text \<open>
  A visitor takes a record and the caller's cookie; a result other than 0 ends the
  traversal. \<open>and_then\<close> is the test \<open>if ((iRet = ...) != 0) return iRet\<close>.
\<close>

type_synonym 'c visitor = "handle \<Rightarrow> 'c \<Rightarrow> int \<times> 'c"

definition and_then :: "int \<times> 'c \<Rightarrow> ('c \<Rightarrow> int \<times> 'c) \<Rightarrow> int \<times> 'c" where
  "and_then res k = (if fst res \<noteq> 0 then res else k (snd res))"

fun visit_items :: "'c visitor \<Rightarrow> (handle \<Rightarrow> bool) \<Rightarrow> handle list \<Rightarrow> 'c \<Rightarrow> int \<times> 'c" where
  "visit_items pfVisit P [] c = (0, c)"
| "visit_items pfVisit P (x # xs) c =
     (if P x then and_then (pfVisit x c) (visit_items pfVisit P xs)
      else visit_items pfVisit P xs c)"

fun traverse_forward :: "'c visitor \<Rightarrow> ttree \<Rightarrow> 'c \<Rightarrow> int \<times> 'c" where
  "traverse_forward pfVisit NIL c = (0, c)"
| "traverse_forward pfVisit (TtreeNode h l r b items) c =
     and_then (if l \<noteq> NIL then traverse_forward pfVisit l c else (0, c)) (\<lambda>c.
     and_then (visit_items pfVisit (\<lambda>_. True) items c) (\<lambda>c.
     if r \<noteq> NIL then traverse_forward pfVisit r c else (0, c)))"

fun traverse_backward :: "'c visitor \<Rightarrow> ttree \<Rightarrow> 'c \<Rightarrow> int \<times> 'c" where
  "traverse_backward pfVisit NIL c = (0, c)"
| "traverse_backward pfVisit (TtreeNode h l r b items) c =
     and_then (if r \<noteq> NIL then traverse_backward pfVisit r c else (0, c)) (\<lambda>c.
     and_then (visit_items pfVisit (\<lambda>_. True) (rev items) c) (\<lambda>c.
     if l \<noteq> NIL then traverse_backward pfVisit l c else (0, c)))"

fun post_order_traverse :: "'c visitor \<Rightarrow> ttree \<Rightarrow> 'c \<Rightarrow> int \<times> 'c" where
  "post_order_traverse pfVisit NIL c = (0, c)"
| "post_order_traverse pfVisit (TtreeNode h l r b items) c =
     and_then (if r \<noteq> NIL then post_order_traverse pfVisit r c else (0, c)) (\<lambda>c.
     and_then (if l \<noteq> NIL then post_order_traverse pfVisit l c else (0, c)) (\<lambda>c.
     visit_items pfVisit (\<lambda>_. True) (rev items) c))"

text \<open>
  The scan of the traversal with \<open>iInclusion\<close> breaks at the first record beyond the range;
  the flag says whether it reached the end of the node (\<open>i >= m_ushNItems\<close>).
\<close>

fun visit_inclusion ::
  "'c visitor \<Rightarrow> (handle \<Rightarrow> int) \<Rightarrow> int \<Rightarrow> handle list \<Rightarrow> 'c \<Rightarrow> (int \<times> 'c) \<times> bool" where
  "visit_inclusion pfVisit diff iInclusion [] c = ((0, c), True)"
| "visit_inclusion pfVisit diff iInclusion (x # xs) c =
     (if diff x \<le> 0 \<and> diff x \<ge> 0 - iInclusion then
        (let res = pfVisit x c in
         if fst res \<noteq> 0 then (res, False)
         else visit_inclusion pfVisit diff iInclusion xs (snd res))
      else if diff x < 0 - iInclusion then ((0, c), False)
      else visit_inclusion pfVisit diff iInclusion xs c)"

fun traverse_forward_inclusion ::
  "'c visitor \<Rightarrow> 'k comparator \<Rightarrow> 'k \<Rightarrow> int \<Rightarrow> ttree \<Rightarrow> 'c \<Rightarrow> int \<times> 'c" where
  "traverse_forward_inclusion pfVisit pfComp pchKey iInclusion NIL c = (0, c)"
| "traverse_forward_inclusion pfVisit pfComp pchKey iInclusion (TtreeNode h l r b items) c =
     and_then
       (if l \<noteq> NIL \<and> iDiff pfComp pchKey (items ! 0) < 0
        then traverse_forward_inclusion pfVisit pfComp pchKey iInclusion l c else (0, c)) (\<lambda>c.
     (let (res, atEnd) =
        (if iDiff pfComp pchKey (items ! (length items - 1)) \<le> 0
         then visit_inclusion pfVisit (iDiff pfComp pchKey) iInclusion items c
         else ((0, c), True)) in
      and_then res (\<lambda>c.
        if atEnd \<and> r \<noteq> NIL
        then traverse_forward_inclusion pfVisit pfComp pchKey iInclusion r c else (0, c))))"

fun traverse_forward_range ::
  "'c visitor \<Rightarrow> 'k comparator \<Rightarrow> 'k \<Rightarrow> 'k \<Rightarrow> ttree \<Rightarrow> 'c \<Rightarrow> int \<times> 'c" where
  "traverse_forward_range pfVisit pfComp pchKey pchKey1 NIL c = (0, c)"
| "traverse_forward_range pfVisit pfComp pchKey pchKey1 (TtreeNode h l r b items) c =
     and_then
       (if l \<noteq> NIL \<and> iDiff pfComp pchKey (items ! 0) < 0
        then traverse_forward_range pfVisit pfComp pchKey pchKey1 l c else (0, c)) (\<lambda>c.
     and_then
       (if iDiff pfComp pchKey1 (items ! 0) < 0
           \<or> iDiff pfComp pchKey (items ! (length items - 1)) > 0 then (0, c)
        else visit_items pfVisit
               (\<lambda>x. iDiff pfComp pchKey x \<le> 0 \<and> iDiff pfComp pchKey1 x \<ge> 0) items c) (\<lambda>c.
     if iDiff pfComp pchKey1 (items ! (length items - 1)) \<ge> 0 \<and> r \<noteq> NIL
     then traverse_forward_range pfVisit pfComp pchKey pchKey1 r c else (0, c)))"

fun traverse_forward_ge ::
  "'c visitor \<Rightarrow> 'k comparator \<Rightarrow> 'k \<Rightarrow> ttree \<Rightarrow> 'c \<Rightarrow> int \<times> 'c" where
  "traverse_forward_ge pfVisit pfComp pchKey NIL c = (0, c)"
| "traverse_forward_ge pfVisit pfComp pchKey (TtreeNode h l r b items) c =
     and_then
       (if l \<noteq> NIL \<and> iDiff pfComp pchKey (items ! 0) < 0
        then traverse_forward_ge pfVisit pfComp pchKey l c else (0, c)) (\<lambda>c.
     and_then
       (if iDiff pfComp pchKey (items ! (length items - 1)) \<le> 0
        then visit_items pfVisit (\<lambda>x. iDiff pfComp pchKey x \<le> 0) items c else (0, c)) (\<lambda>c.
     if r \<noteq> NIL then traverse_forward_ge pfVisit pfComp pchKey r c else (0, c)))"

fun traverse_backward_range ::
  "'c visitor \<Rightarrow> 'k comparator \<Rightarrow> 'k \<Rightarrow> 'k \<Rightarrow> ttree \<Rightarrow> 'c \<Rightarrow> int \<times> 'c" where
  "traverse_backward_range pfVisit pfComp pchKey pchKey1 NIL c = (0, c)"
| "traverse_backward_range pfVisit pfComp pchKey pchKey1 (TtreeNode h l r b items) c =
     and_then
       (if r \<noteq> NIL \<and> iDiff pfComp pchKey1 (items ! (length items - 1)) > 0
        then traverse_backward_range pfVisit pfComp pchKey pchKey1 r c else (0, c)) (\<lambda>c.
     and_then
       (if iDiff pfComp pchKey1 (items ! 0) < 0
           \<or> iDiff pfComp pchKey (items ! (length items - 1)) > 0 then (0, c)
        else visit_items pfVisit
               (\<lambda>x. iDiff pfComp pchKey x \<le> 0 \<and> iDiff pfComp pchKey1 x \<ge> 0) (rev items) c) (\<lambda>c.
     if iDiff pfComp pchKey (items ! 0) \<le> 0 \<and> l \<noteq> NIL
     then traverse_backward_range pfVisit pfComp pchKey pchKey1 l c else (0, c)))"

fun traverse_backward_le ::
  "'c visitor \<Rightarrow> 'k comparator \<Rightarrow> 'k \<Rightarrow> ttree \<Rightarrow> 'c \<Rightarrow> int \<times> 'c" where
  "traverse_backward_le pfVisit pfComp pchKey NIL c = (0, c)"
| "traverse_backward_le pfVisit pfComp pchKey (TtreeNode h l r b items) c =
     and_then
       (if r \<noteq> NIL \<and> iDiff pfComp pchKey (items ! (length items - 1)) > 0
        then traverse_backward_le pfVisit pfComp pchKey r c else (0, c)) (\<lambda>c.
     and_then
       (if iDiff pfComp pchKey (items ! 0) \<ge> 0
        then visit_items pfVisit (\<lambda>x. iDiff pfComp pchKey x \<ge> 0) (rev items) c
        else (0, c)) (\<lambda>c.
     if l \<noteq> NIL then traverse_backward_le pfVisit pfComp pchKey l c else (0, c)))"

fun post_order_traverse_range ::
  "'c visitor \<Rightarrow> 'k comparator \<Rightarrow> 'k \<Rightarrow> 'k \<Rightarrow> ttree \<Rightarrow> 'c \<Rightarrow> int \<times> 'c" where
  "post_order_traverse_range pfVisit pfComp pchKey pchKey1 NIL c = (0, c)"
| "post_order_traverse_range pfVisit pfComp pchKey pchKey1 (TtreeNode h l r b items) c =
     and_then
       (if l \<noteq> NIL \<and> iDiff pfComp pchKey (items ! 0) < 0
        then post_order_traverse_range pfVisit pfComp pchKey pchKey1 l c else (0, c)) (\<lambda>c.
     and_then
       (if iDiff pfComp pchKey1 (items ! (length items - 1)) \<ge> 0 \<and> r \<noteq> NIL
        then post_order_traverse_range pfVisit pfComp pchKey pchKey1 r c else (0, c)) (\<lambda>c.
     if iDiff pfComp pchKey1 (items ! 0) < 0
        \<or> iDiff pfComp pchKey (items ! (length items - 1)) > 0 then (0, c)
     else visit_items pfVisit
            (\<lambda>x. iDiff pfComp pchKey x \<le> 0 \<and> iDiff pfComp pchKey1 x \<ge> 0) items c))"

fun post_order_traverse_ge ::
  "'c visitor \<Rightarrow> 'k comparator \<Rightarrow> 'k \<Rightarrow> ttree \<Rightarrow> 'c \<Rightarrow> int \<times> 'c" where
  "post_order_traverse_ge pfVisit pfComp pchKey NIL c = (0, c)"
| "post_order_traverse_ge pfVisit pfComp pchKey (TtreeNode h l r b items) c =
     and_then
       (if l \<noteq> NIL \<and> iDiff pfComp pchKey (items ! 0) < 0
        then post_order_traverse_ge pfVisit pfComp pchKey l c else (0, c)) (\<lambda>c.
     and_then
       (if r \<noteq> NIL then post_order_traverse_ge pfVisit pfComp pchKey r c else (0, c)) (\<lambda>c.
     if iDiff pfComp pchKey (items ! (length items - 1)) \<le> 0
     then visit_items pfVisit (\<lambda>x. iDiff pfComp pchKey x \<le> 0) items c else (0, c)))"

fun post_order_traverse_le ::
  "'c visitor \<Rightarrow> 'k comparator \<Rightarrow> 'k \<Rightarrow> ttree \<Rightarrow> 'c \<Rightarrow> int \<times> 'c" where
  "post_order_traverse_le pfVisit pfComp pchKey NIL c = (0, c)"
| "post_order_traverse_le pfVisit pfComp pchKey (TtreeNode h l r b items) c =
     and_then
       (if r \<noteq> NIL \<and> iDiff pfComp pchKey (items ! (length items - 1)) > 0
        then post_order_traverse_le pfVisit pfComp pchKey r c else (0, c)) (\<lambda>c.
     and_then
       (if l \<noteq> NIL then post_order_traverse_le pfVisit pfComp pchKey l c else (0, c)) (\<lambda>c.
     if iDiff pfComp pchKey (items ! 0) \<ge> 0
     then visit_items pfVisit (\<lambda>x. iDiff pfComp pchKey x \<ge> 0) (rev items) c else (0, c)))"

section \<open>Destruction\<close>

fun free_items :: "'m MallocBase \<Rightarrow> handle list \<Rightarrow> 'm \<Rightarrow> 'm" where
  "free_items stMalloc [] m = m"
| "free_items stMalloc (x # xs) m = free_items stMalloc xs (fst (Free_op stMalloc m x))"

fun TtreeNode_destory :: "'m MallocBase \<Rightarrow> ttree \<Rightarrow> 'm \<Rightarrow> 'm" where
  "TtreeNode_destory stMalloc NIL m = m"
| "TtreeNode_destory stMalloc (TtreeNode h l r b items) m =
     TtreeNode_destory stMalloc r
       (TtreeNode_destory stMalloc l
         (fst (Free_op stMalloc (free_items stMalloc items m) h)))"

fun TtreeNode_ask_for_destroy_size :: "'m MallocBase \<Rightarrow> 'm \<Rightarrow> ttree \<Rightarrow> nat" where
  "TtreeNode_ask_for_destroy_size stMalloc m NIL = 0"
| "TtreeNode_ask_for_destroy_size stMalloc m (TtreeNode h l r b items) =
     (let size = fold (\<lambda>x size. u32 (size + chunk_size_op stMalloc m x)) items 0;
          size = u32 (size + chunk_size_op stMalloc m h);
          size = u32 (size + TtreeNode_ask_for_destroy_size stMalloc m l)
      in u32 (size + TtreeNode_ask_for_destroy_size stMalloc m r))"

section \<open>The tree object\<close>

definition EC_NO_MEM :: int where
  "EC_NO_MEM = 2041"

definition EC_KEY_EXIST :: int where
  "EC_KEY_EXIST = 2042"

definition Ttree_first_node :: "ttree \<Rightarrow> handle" where
  "Ttree_first_node hRoot =
     (case hRoot of NIL \<Rightarrow> INVALID_HANDLE | TtreeNode h l r b items \<Rightarrow> items ! 0)"

definition Ttree_do_insert ::
  "'m MallocBase \<Rightarrow> 'k comparator \<Rightarrow> (handle \<Rightarrow> 'k) \<Rightarrow> ttree \<Rightarrow> 'k \<Rightarrow> handle \<Rightarrow> bool \<Rightarrow> 'm
   \<Rightarrow> 'm insert_result option" where
  "Ttree_do_insert stMalloc pfComp convert_cvalue hRoot pchKey hRecord isAlloc m =
     (if hRoot = NIL then
        (case TtreeNode_Alloc stMalloc m hRecord of (m', hNode) \<Rightarrow>
           if hNode = NIL then Some (EC_NO_MEM, hRoot, isAlloc, m')
           else Some (0, hNode, True, m'))
      else
        Option.bind
          (TtreeNode_do_insert stMalloc pfComp convert_cvalue hRoot pchKey hRecord isAlloc m)
          (\<lambda>(iRet, hNode, isAlloc, m).
             if iRet = -2 then Some (EC_KEY_EXIST, hNode, isAlloc, m)
             else if iRet = -1 then Some (EC_NO_MEM, hNode, isAlloc, m)
             else if iRet < 0 then Some (-1, hNode, isAlloc, m)
             else Some (0, hNode, isAlloc, m)))"

definition Ttree_Delete ::
  "'m MallocBase \<Rightarrow> 'k comparator \<Rightarrow> (handle \<Rightarrow> 'k) \<Rightarrow> ttree \<Rightarrow> 'k \<Rightarrow> bool \<Rightarrow> 'm
   \<Rightarrow> 'm delete_result option" where
  "Ttree_Delete stMalloc pfComp convert_cvalue hRoot pchKey isFree m =
     (if hRoot = NIL then Some (0, hRoot, isFree, m)
      else
        Option.bind (TtreeNode_Delete stMalloc pfComp convert_cvalue hRoot pchKey isFree m)
          (\<lambda>(iRet, hNode, isFree, m).
             if iRet < -1 then Some (-1, hNode, isFree, m)
             else if iRet = -1 then Some (-1, hNode, isFree, m)
             else Some (0, hNode, isFree, m)))"

definition Ttree_find_handle :: "handle \<Rightarrow> ttree \<Rightarrow> int" where
  "Ttree_find_handle hRecord hRoot = (if hRoot = NIL then 0 else TtreeNode_find_handle hRecord hRoot)"

definition Ttree_do_find :: "'k comparator \<Rightarrow> 'k \<Rightarrow> ttree \<Rightarrow> int \<times> handle" where
  "Ttree_do_find pfComp pchKey hRoot =
     (if hRoot = NIL then (0, INVALID_HANDLE) else TtreeNode_do_find pfComp pchKey hRoot)"

definition Ttree_do_find_slot :: "'k comparator \<Rightarrow> 'k \<Rightarrow> ttree \<Rightarrow> int \<times> slot option" where
  "Ttree_do_find_slot pfComp pchKey hRoot =
     (if hRoot = NIL then (0, None) else TtreeNode_do_find_slot pfComp pchKey hRoot)"

definition Ttree_destory :: "'m MallocBase \<Rightarrow> ttree \<Rightarrow> 'm \<Rightarrow> ttree \<times> 'm" where
  "Ttree_destory stMalloc hRoot m = (NIL, TtreeNode_destory stMalloc hRoot m)"

definition Ttree_ask_for_destroy_size :: "'m MallocBase \<Rightarrow> 'm \<Rightarrow> ttree \<Rightarrow> nat" where
  "Ttree_ask_for_destroy_size stMalloc m hRoot = TtreeNode_ask_for_destroy_size stMalloc m hRoot"

definition Ttree_traverse_forward :: "'c visitor \<Rightarrow> ttree \<Rightarrow> 'c \<Rightarrow> int \<times> 'c" where
  "Ttree_traverse_forward pfVisit hRoot c =
     (if hRoot \<noteq> NIL then traverse_forward pfVisit hRoot c else (0, c))"

definition Ttree_traverse_backward :: "'c visitor \<Rightarrow> ttree \<Rightarrow> 'c \<Rightarrow> int \<times> 'c" where
  "Ttree_traverse_backward pfVisit hRoot c =
     (if hRoot \<noteq> NIL then traverse_backward pfVisit hRoot c else (0, c))"

definition Ttree_post_order_traverse :: "'c visitor \<Rightarrow> ttree \<Rightarrow> 'c \<Rightarrow> int \<times> 'c" where
  "Ttree_post_order_traverse pfVisit hRoot c =
     (if hRoot \<noteq> NIL then post_order_traverse pfVisit hRoot c else (0, c))"

definition Ttree_traverse_forward_inclusion ::
  "'c visitor \<Rightarrow> 'k comparator \<Rightarrow> 'k \<Rightarrow> int \<Rightarrow> ttree \<Rightarrow> 'c \<Rightarrow> int \<times> 'c" where
  "Ttree_traverse_forward_inclusion pfVisit pfComp pchKey iInclusion hRoot c =
     (if hRoot \<noteq> NIL
      then traverse_forward_inclusion pfVisit pfComp pchKey (to_int32 iInclusion) hRoot c
      else (0, c))"

definition Ttree_traverse_forward_ge ::
  "'c visitor \<Rightarrow> 'k comparator \<Rightarrow> 'k \<Rightarrow> ttree \<Rightarrow> 'c \<Rightarrow> int \<times> 'c" where
  "Ttree_traverse_forward_ge pfVisit pfComp pchKey hRoot c =
     (if hRoot \<noteq> NIL then traverse_forward_ge pfVisit pfComp pchKey hRoot c else (0, c))"

definition Ttree_traverse_forward_range ::
  "'c visitor \<Rightarrow> 'k comparator \<Rightarrow> 'k \<Rightarrow> 'k \<Rightarrow> ttree \<Rightarrow> 'c \<Rightarrow> int \<times> 'c" where
  "Ttree_traverse_forward_range pfVisit pfComp pchKey pchKey1 hRoot c =
     (if hRoot \<noteq> NIL then traverse_forward_range pfVisit pfComp pchKey pchKey1 hRoot c else (0, c))"

definition Ttree_traverse_backward_le ::
  "'c visitor \<Rightarrow> 'k comparator \<Rightarrow> 'k \<Rightarrow> ttree \<Rightarrow> 'c \<Rightarrow> int \<times> 'c" where
  "Ttree_traverse_backward_le pfVisit pfComp pchKey hRoot c =
     (if hRoot \<noteq> NIL then traverse_backward_le pfVisit pfComp pchKey hRoot c else (0, c))"

definition Ttree_traverse_backward_range ::
  "'c visitor \<Rightarrow> 'k comparator \<Rightarrow> 'k \<Rightarrow> 'k \<Rightarrow> ttree \<Rightarrow> 'c \<Rightarrow> int \<times> 'c" where
  "Ttree_traverse_backward_range pfVisit pfComp pchKey pchKey1 hRoot c =
     (if hRoot \<noteq> NIL then traverse_backward_range pfVisit pfComp pchKey pchKey1 hRoot c else (0, c))"

definition Ttree_post_order_traverse_range ::
  "'c visitor \<Rightarrow> 'k comparator \<Rightarrow> 'k \<Rightarrow> 'k \<Rightarrow> ttree \<Rightarrow> 'c \<Rightarrow> int \<times> 'c" where
  "Ttree_post_order_traverse_range pfVisit pfComp pchKey pchKey1 hRoot c =
     (if hRoot \<noteq> NIL then post_order_traverse_range pfVisit pfComp pchKey pchKey1 hRoot c
      else (0, c))"

definition Ttree_post_order_traverse_ge ::
  "'c visitor \<Rightarrow> 'k comparator \<Rightarrow> 'k \<Rightarrow> ttree \<Rightarrow> 'c \<Rightarrow> int \<times> 'c" where
  "Ttree_post_order_traverse_ge pfVisit pfComp pchKey hRoot c =
     (if hRoot \<noteq> NIL then post_order_traverse_ge pfVisit pfComp pchKey hRoot c else (0, c))"

definition Ttree_post_order_traverse_le ::
  "'c visitor \<Rightarrow> 'k comparator \<Rightarrow> 'k \<Rightarrow> ttree \<Rightarrow> 'c \<Rightarrow> int \<times> 'c" where
  "Ttree_post_order_traverse_le pfVisit pfComp pchKey hRoot c =
     (if hRoot \<noteq> NIL then post_order_traverse_le pfVisit pfComp pchKey hRoot c else (0, c))"

end
