(* ===== verification/TTree_Order.thy ===== *)
theory TTree_Order
  imports TTree "HOL-Library.Multiset"
begin

text \<open>
  What a well-formed T-tree is, and the contract \<open>key_order\<close> of the user's comparator:
  on the valid keys and records, the \<open>int\<close> that the tree keeps of a comparison has the
  sign of a comparison in a linear order. \<open>rank\<close> maps keys to that order and
  \<open>convert_cvalue\<close> is the key of a record.
\<close>

section \<open>Shape, contents and invariant\<close>

fun height :: "ttree \<Rightarrow> nat" where
  "height NIL = 0"
| "height (TtreeNode h l r b items) = Suc (max (height l) (height r))"

fun inorder :: "ttree \<Rightarrow> handle list" where
  "inorder NIL = []"
| "inorder (TtreeNode h l r b items) = inorder l @ items @ inorder r"

fun node_handles :: "ttree \<Rightarrow> handle multiset" where
  "node_handles NIL = {#}"
| "node_handles (TtreeNode h l r b items) = add_mset h (node_handles l + node_handles r)"

fun balanced :: "ttree \<Rightarrow> bool" where
  "balanced NIL = True"
| "balanced (TtreeNode h l r b items) =
     (b = int (height r) - int (height l) \<and> -1 \<le> b \<and> b \<le> 1 \<and> balanced l \<and> balanced r)"

fun pages :: "ttree \<Rightarrow> bool" where
  "pages NIL = True"
| "pages (TtreeNode h l r b items) =
     (items \<noteq> [] \<and> length items \<le> PAGE_SIZE \<and> pages l \<and> pages r)"

definition ordered :: "(handle \<Rightarrow> 'o::linorder) \<Rightarrow> handle list \<Rightarrow> bool" where
  "ordered rk xs = sorted_wrt (\<lambda>x y. rk x < rk y) xs"

definition ttree_inv :: "(handle \<Rightarrow> 'o::linorder) \<Rightarrow> ttree \<Rightarrow> bool" where
  "ttree_inv rk t = (balanced t \<and> pages t \<and> ordered rk (inorder t))"

lemma ordered_Nil [simp]: "ordered rk []"
  by (simp add: ordered_def)

lemma ordered_Cons [simp]:
  "ordered rk (x # xs) \<longleftrightarrow> (\<forall>y\<in>set xs. rk x < rk y) \<and> ordered rk xs"
  by (simp add: ordered_def)

lemma ordered_append [simp]:
  "ordered rk (xs @ ys) \<longleftrightarrow>
     ordered rk xs \<and> ordered rk ys \<and> (\<forall>x\<in>set xs. \<forall>y\<in>set ys. rk x < rk y)"
  by (simp add: ordered_def sorted_wrt_append)

lemma ordered_nth_less:
  "ordered rk xs \<Longrightarrow> i < j \<Longrightarrow> j < length xs \<Longrightarrow> rk (xs ! i) < rk (xs ! j)"
  unfolding ordered_def by (drule sorted_wrt_nth_less [of _ xs i j]) auto

lemma ordered_nth_le:
  "ordered rk xs \<Longrightarrow> i \<le> j \<Longrightarrow> j < length xs \<Longrightarrow> rk (xs ! i) \<le> rk (xs ! j)"
  by (cases "i = j") (auto simp: le_less ordered_nth_less)

lemma ordered_hd_le:
  assumes "ordered rk xs" "y \<in> set xs"
  shows "rk (xs ! 0) \<le> rk y"
proof -
  obtain i where "i < length xs" "y = xs ! i"
    using assms(2) by (auto simp: in_set_conv_nth)
  then show ?thesis using ordered_nth_le [OF assms(1), of 0 i] by simp
qed

lemma ordered_le_last:
  assumes "ordered rk xs" "y \<in> set xs"
  shows "rk y \<le> rk (xs ! (length xs - 1))"
proof -
  obtain i where i: "i < length xs" "y = xs ! i"
    using assms(2) by (auto simp: in_set_conv_nth)
  then have "i \<le> length xs - 1" "length xs - 1 < length xs" by auto
  then show ?thesis using ordered_nth_le [OF assms(1), of i "length xs - 1"] i by simp
qed

text \<open>A strictly ordered list is determined by the set of its elements.\<close>

lemma ordered_unique:
  "ordered rk xs \<Longrightarrow> ordered rk ys \<Longrightarrow> set xs = set ys \<Longrightarrow> xs = ys"
proof (induction xs arbitrary: ys)
  case Nil
  then show ?case by simp
next
  case (Cons x xs)
  then obtain y ys' where ys: "ys = y # ys'" by (cases ys) auto
  have mem: "x = y \<or> x \<in> set ys'" "y = x \<or> y \<in> set xs"
    using Cons.prems(3) unfolding ys by auto
  have xy: "x = y"
  proof (rule ccontr)
    assume "x \<noteq> y"
    with mem have "x \<in> set ys'" "y \<in> set xs" by auto
    with Cons.prems(1,2) have "rk y < rk x" "rk x < rk y" unfolding ys by auto
    then show False by simp
  qed
  have "x \<notin> set xs" "x \<notin> set ys'"
    using Cons.prems(1,2) xy unfolding ys by auto
  then have "set xs = set ys'"
    using Cons.prems(3) xy unfolding ys by auto
  then have "xs = ys'" using Cons unfolding ys by auto
  then show ?case using xy ys by simp
qed

lemma ordered_inj_on:
  assumes "ordered rk xs"
  shows "inj_on rk (set xs)"
proof (rule inj_onI)
  fix x y assume "x \<in> set xs" "y \<in> set xs" and eq: "rk x = rk y"
  then obtain i j where ij: "i < length xs" "x = xs ! i" "j < length xs" "y = xs ! j"
    by (auto simp: in_set_conv_nth)
  have "\<not> i < j" "\<not> j < i"
    using ordered_nth_less [OF assms, of i j] ordered_nth_less [OF assms, of j i] ij eq by auto
  then show "x = y" using ij by (simp add: nat_neq_iff [symmetric])
qed

lemma height_NIL_iff: "height t = 0 \<longleftrightarrow> t = NIL"
  by (cases t) auto

lemma inorder_NIL_iff: "pages t \<Longrightarrow> inorder t = [] \<longleftrightarrow> t = NIL"
  by (cases t) auto

section \<open>The comparator's contract\<close>

locale key_order =
  fixes pfComp :: "'k comparator"
    and convert_cvalue :: "handle \<Rightarrow> 'k"
    and rank :: "'k \<Rightarrow> 'o::linorder"
    and valid_key :: "'k \<Rightarrow> bool"
    and valid_rec :: "handle \<Rightarrow> bool"
  assumes comp_less:
      "valid_key k \<Longrightarrow> valid_rec x \<Longrightarrow> iDiff pfComp k x < 0 \<longleftrightarrow> rank k < rank (convert_cvalue x)"
    and comp_eq:
      "valid_key k \<Longrightarrow> valid_rec x \<Longrightarrow> iDiff pfComp k x = 0 \<longleftrightarrow> rank k = rank (convert_cvalue x)"
    and comp_eq_wide:
      "valid_key k \<Longrightarrow> valid_rec x \<Longrightarrow> pfComp k x = 0 \<longleftrightarrow> rank k = rank (convert_cvalue x)"
    and convert_valid: "valid_rec x \<Longrightarrow> valid_key (convert_cvalue x)"
begin

abbreviation rk :: "handle \<Rightarrow> 'o" where
  "rk x \<equiv> rank (convert_cvalue x)"

lemma comp_greater:
  "valid_key k \<Longrightarrow> valid_rec x \<Longrightarrow> iDiff pfComp k x > 0 \<longleftrightarrow> rk x < rank k"
  using comp_less [of k x] comp_eq [of k x] by (auto simp: neq_iff order_less_not_sym)

lemma comp_le:
  "valid_key k \<Longrightarrow> valid_rec x \<Longrightarrow> iDiff pfComp k x \<le> 0 \<longleftrightarrow> rank k \<le> rk x"
  using comp_greater [of k x] by (simp add: not_less [symmetric])

lemma comp_ge:
  "valid_key k \<Longrightarrow> valid_rec x \<Longrightarrow> iDiff pfComp k x \<ge> 0 \<longleftrightarrow> rk x \<le> rank k"
  using comp_less [of k x] by (simp add: not_less [symmetric])

lemmas comp = comp_less comp_eq comp_eq_wide comp_greater comp_le comp_ge

end

end
