(* ===== verification/TTree_Insert.thy ===== *)
theory TTree_Insert
  imports TTree_Order
begin

text \<open>
  Insertion into the T-tree keeps the invariant, adds exactly the new record, returns -2
  for a key that is present and -1 when no node can be allocated; in both failures the
  tree is the one before.
\<close>

section \<open>Rebalancing\<close>

lemma insert_grown_left:
  assumes "balanced l" "balanced r"
    and "b = int (height r) - (int (height l) - 1)" "-1 \<le> b" "b \<le> 1"
    and "l \<noteq> NIL" "b < 0 \<longrightarrow> m_chBalance l \<noteq> 0"
  shows "\<exists>iRet t. insert_grown_left (TtreeNode h l r b items) = Some (iRet, t)
     \<and> iRet \<in> {0, 1} \<and> balanced t \<and> t \<noteq> NIL
     \<and> int (height t) = int (max (height l - 1) (height r)) + 1 + iRet
     \<and> inorder t = inorder l @ items @ inorder r
     \<and> node_handles t = add_mset h (node_handles l + node_handles r)
     \<and> (pages l \<and> pages r \<and> items \<noteq> [] \<and> length items \<le> PAGE_SIZE \<longrightarrow> pages t)
     \<and> (iRet = 1 \<longrightarrow> m_chBalance t \<noteq> 0)"
  using assms
  by (cases l) (auto split: ttree.splits simp: max_def split: if_splits)

lemma insert_grown_right:
  assumes "balanced l" "balanced r"
    and "b = (int (height r) - 1) - int (height l)" "-1 \<le> b" "b \<le> 1"
    and "r \<noteq> NIL" "b > 0 \<longrightarrow> m_chBalance r \<noteq> 0"
  shows "\<exists>iRet t. insert_grown_right (TtreeNode h l r b items) = Some (iRet, t)
     \<and> iRet \<in> {0, 1} \<and> balanced t \<and> t \<noteq> NIL
     \<and> int (height t) = int (max (height l) (height r - 1)) + 1 + iRet
     \<and> inorder t = inorder l @ items @ inorder r
     \<and> node_handles t = add_mset h (node_handles l + node_handles r)
     \<and> (pages l \<and> pages r \<and> items \<noteq> [] \<and> length items \<le> PAGE_SIZE \<longrightarrow> pages t)
     \<and> (iRet = 1 \<longrightarrow> m_chBalance t \<noteq> 0)"
  using assms
  by (cases r) (auto split: ttree.splits simp: max_def split: if_splits)

section \<open>Insertion\<close>

definition alloc_node :: "'m MallocBase \<Rightarrow> 'm \<Rightarrow> 'm \<times> handle" where
  "alloc_node stMalloc m = Malloc_op stMalloc m sizeof_TtreeNode"

text \<open>
  The outcomes of an insertion of record \<open>x\<close> with a key of rank \<open>k\<close> into \<open>t\<close>: the
  key is present, no memory, or inserted with or without a new node.
\<close>

definition insert_spec ::
  "'m MallocBase \<Rightarrow> (handle \<Rightarrow> 'o::linorder) \<Rightarrow> ttree \<Rightarrow> 'o \<Rightarrow> handle \<Rightarrow> bool \<Rightarrow> 'm
   \<Rightarrow> 'm insert_result \<Rightarrow> bool" where
  "insert_spec stMalloc rk t k x isAlloc m res =
     (case res of (iRet, t', isAlloc', m') \<Rightarrow>
        (iRet = -2 \<and> t' = t \<and> isAlloc' = isAlloc \<and> m' = m \<and> k \<in> rk ` set (inorder t))
      \<or> (iRet = -1 \<and> t' = t \<and> isAlloc' = isAlloc \<and> k \<notin> rk ` set (inorder t)
         \<and> alloc_node stMalloc m = (m', INVALID_HANDLE))
      \<or> (iRet \<in> {0, 1} \<and> k \<notin> rk ` set (inorder t) \<and> t' \<noteq> NIL \<and> ttree_inv rk t'
         \<and> int (height t') = int (height t) + iRet
         \<and> (iRet = 1 \<longrightarrow> m_chBalance t' \<noteq> 0 \<or> height t' = 1)
         \<and> set (inorder t') = insert x (set (inorder t))
         \<and> (isAlloc' = isAlloc \<and> m' = m \<and> node_handles t' = node_handles t
            \<or> (\<exists>h. isAlloc' \<and> alloc_node stMalloc m = (m', h) \<and> h \<noteq> INVALID_HANDLE
                 \<and> node_handles t' = add_mset h (node_handles t)))))"

lemma insert_bsearch_spec:
  assumes ord: "ordered rk items"
    and diff: "\<And>x. x \<in> set items \<Longrightarrow> (diff x < 0 \<longleftrightarrow> k < rk x) \<and> (diff x = 0 \<longleftrightarrow> k = rk x)"
    and "iLeft \<le> iRight" "iRight < length items"
    and "\<And>i. i < iLeft \<Longrightarrow> rk (items ! i) < k" "k < rk (items ! iRight)"
  shows "case insert_bsearch diff items iLeft iRight of
       None \<Rightarrow> k \<in> rk ` set items
     | Some j \<Rightarrow> iLeft \<le> j \<and> j \<le> iRight \<and> (\<forall>i<j. rk (items ! i) < k) \<and> k < rk (items ! j)"
  using assms(3-)
proof (induction "iRight - iLeft" arbitrary: iLeft iRight rule: less_induct)
  case less
  show ?case
  proof (cases "iLeft < iRight")
    case False
    with less.prems show ?thesis
      by (subst insert_bsearch.simps) auto
  next
    case True
    define i where "i = (iLeft + iRight) div 2"
    have i: "iLeft \<le> i" "i < iRight" "i < length items"
      using True less.prems by (auto simp: i_def)
    then have mem: "items ! i \<in> set items" by simp
    have step: "insert_bsearch diff items iLeft iRight =
        (if diff (items ! i) = 0 then None
         else if diff (items ! i) > 0 then insert_bsearch diff items (i + 1) iRight
         else insert_bsearch diff items iLeft i)"
      using True by (subst insert_bsearch.simps) (simp add: Let_def i_def)
    consider "k = rk (items ! i)" | "k < rk (items ! i)" | "rk (items ! i) < k"
      by fastforce
    then show ?thesis
    proof cases
      case 1
      with diff [OF mem] mem show ?thesis by (simp add: step)
    next
      case 2
      with diff [OF mem] have "insert_bsearch diff items iLeft iRight = insert_bsearch diff items iLeft i"
        by (auto simp: step)
      moreover have "case insert_bsearch diff items iLeft i of
          None \<Rightarrow> k \<in> rk ` set items
        | Some j \<Rightarrow> iLeft \<le> j \<and> j \<le> i \<and> (\<forall>i<j. rk (items ! i) < k) \<and> k < rk (items ! j)"
        using less.hyps [of i iLeft] less.prems i 2 by auto
      ultimately show ?thesis using i by (auto split: option.splits)
    next
      case 3
      have below: "rk (items ! j) < k" if "j < i + 1" for j
        using ordered_nth_le [OF ord, of j i] that i 3 by auto
      from 3 diff [OF mem] have "insert_bsearch diff items iLeft iRight = insert_bsearch diff items (i + 1) iRight"
        by (auto simp: step)
      moreover have "case insert_bsearch diff items (i + 1) iRight of
          None \<Rightarrow> k \<in> rk ` set items
        | Some j \<Rightarrow> i + 1 \<le> j \<and> j \<le> iRight \<and> (\<forall>i<j. rk (items ! i) < k) \<and> k < rk (items ! j)"
        using less.hyps [of iRight "i + 1"] less.prems i below by auto
      ultimately show ?thesis using i by (auto split: option.splits)
    qed
  qed
qed

text \<open>A record put at the place the search found leaves the node ordered.\<close>

lemma ordered_split_at:
  assumes "ordered rk items" "j < length items" "\<forall>i<j. rk (items ! i) < k" "k < rk (items ! j)"
  shows "\<forall>x\<in>set (take j items). rk x < k" "\<forall>x\<in>set (drop j items). k < rk x"
    "k \<notin> rk ` set items"
proof -
  show below: "\<forall>x\<in>set (take j items). rk x < k"
    using assms(2,3) by (auto simp: in_set_conv_nth)
  show above: "\<forall>x\<in>set (drop j items). k < rk x"
  proof
    fix x assume "x \<in> set (drop j items)"
    then obtain i where "i < length (drop j items)" "x = drop j items ! i"
      by (auto simp: in_set_conv_nth)
    then show "k < rk x"
      using ordered_nth_le [OF assms(1), of j "j + i"] assms(4)
      by (auto simp: less_diff_conv add.commute)
  qed
  have "set items = set (take j items) \<union> set (drop j items)"
    by (metis append_take_drop_id set_append)
  then show "k \<notin> rk ` set items" using below above by auto
qed

lemma ordered_insert_item:
  assumes "ordered rk items"
    and "\<forall>z\<in>set (take j items). rk z < rk x" "\<forall>z\<in>set (drop j items). rk x < rk z"
  shows "ordered rk (insert_item items j x)" "set (insert_item items j x) = insert x (set items)"
    "length (insert_item items j x) = Suc (length items)"
proof -
  have "ordered rk (take j items @ drop j items)" using assms(1) by simp
  then show "ordered rk (insert_item items j x)"
    using assms(2,3) unfolding insert_item_def ordered_append ordered_Cons by auto
  show "set (insert_item items j x) = insert x (set items)"
    unfolding insert_item_def by (metis append_take_drop_id list.simps(15) set_append Un_insert_right)
  show "length (insert_item items j x) = Suc (length items)"
    by (simp add: insert_item_def)
qed

lemma insert_full_min:
  assumes "b \<ge> 0" "1 \<le> j"
  shows "insert_full b (y # ys) j x = (y, insert_item ys (j - 1) x)"
  using assms by (cases j) (auto simp: insert_full_def insert_item_def)

lemma insert_full_max:
  assumes "b < 0" "j \<le> length ys"
  shows "insert_full b (ys @ [y]) j x = (y, insert_item ys j x)"
  using assms by (auto simp: insert_full_def insert_item_def)

text \<open>The record a full node gives up is its smallest or its largest one.\<close>

lemma ordered_insert_full:
  assumes ord: "ordered rk items" and j: "1 \<le> j" "j < length items"
    and lt: "\<forall>i<j. rk (items ! i) < rk x" "rk x < rk (items ! j)"
    and full: "insert_full b items j x = (y, items')"
  shows "ordered rk items'" "length items' = length items"
    "insert y (set items') = insert x (set items)" "y \<in> set items" "x \<in> set items'"
    "b \<ge> 0 \<Longrightarrow> \<forall>z\<in>set items'. rk y < rk z" "b < 0 \<Longrightarrow> \<forall>z\<in>set items'. rk z < rk y"
proof -
  note split = ordered_split_at [OF ord j(2) lt]
  have "ordered rk items' \<and> length items' = length items
    \<and> insert y (set items') = insert x (set items) \<and> y \<in> set items \<and> x \<in> set items'
    \<and> (b \<ge> 0 \<longrightarrow> (\<forall>z\<in>set items'. rk y < rk z)) \<and> (b < 0 \<longrightarrow> (\<forall>z\<in>set items'. rk z < rk y))"
  proof (cases "b \<ge> 0")
    case True
    obtain u ys where items: "items = u # ys" using j by (cases items) auto
    have "take j items = u # take (j - 1) ys" "drop j items = drop (j - 1) ys"
      using j items by (cases j, auto)+
    then have "\<forall>z\<in>set (take (j - 1) ys). rk z < rk x" "\<forall>z\<in>set (drop (j - 1) ys). rk x < rk z"
      "rk u < rk x" using split by auto
    moreover have "y = u" "items' = insert_item ys (j - 1) x"
      using full insert_full_min [OF True j(1)] items by auto
    moreover have "ordered rk ys" "\<forall>z\<in>set ys. rk u < rk z" using ord items by auto
    ultimately show ?thesis
      using ordered_insert_item [of rk ys "j - 1" x] items True by auto
  next
    case False
    obtain u ys where items: "items = ys @ [u]" using j by (cases items rule: rev_cases) auto
    have jl: "j \<le> length ys" using j items by simp
    then have "take j items = take j ys" "drop j items = drop j ys @ [u]"
      using items by auto
    then have "\<forall>z\<in>set (take j ys). rk z < rk x" "\<forall>z\<in>set (drop j ys). rk x < rk z"
      "rk x < rk u" using split by auto
    moreover have "y = u" "items' = insert_item ys j x"
      using full insert_full_max [OF _ jl] False items by auto
    moreover have "ordered rk ys" "\<forall>z\<in>set ys. rk z < rk u" using ord items by auto
    ultimately show ?thesis
      using ordered_insert_item [of rk ys j x] items False by auto
  qed
  then show "ordered rk items'" "length items' = length items"
    "insert y (set items') = insert x (set items)" "y \<in> set items" "x \<in> set items'"
    "b \<ge> 0 \<Longrightarrow> \<forall>z\<in>set items'. rk y < rk z" "b < 0 \<Longrightarrow> \<forall>z\<in>set items'. rk z < rk y"
    by auto
qed

lemma ordered_replace_items:
  assumes "ordered rk (L @ items @ R)" "ordered rk items'" "set items' \<subseteq> insert x (set items)"
    and "\<forall>z\<in>set L. rk z < rk x" "\<forall>z\<in>set R. rk x < rk z"
  shows "ordered rk (L @ items' @ R)"
proof -
  have L: "ordered rk L" "\<forall>u\<in>set L. \<forall>z\<in>set items. rk u < rk z" "\<forall>u\<in>set L. \<forall>z\<in>set R. rk u < rk z"
    and R: "ordered rk R" "\<forall>z\<in>set items. \<forall>u\<in>set R. rk z < rk u"
    using assms(1) by auto
  have "\<forall>u\<in>set L. \<forall>z\<in>set items'. rk u < rk z" using L(2) assms(3,4) by blast
  moreover have "\<forall>z\<in>set items'. \<forall>u\<in>set R. rk z < rk u" using R(2) assms(3,5) by blast
  ultimately show ?thesis using L(1,3) R(1) assms(2) by auto
qed

lemma insert_spec_cases:
  assumes "insert_spec stMalloc rk t k x isAlloc m (iRet, t', isAlloc', m')"
  obtains (exists) "iRet = -2" "t' = t" "isAlloc' = isAlloc" "m' = m" "k \<in> rk ` set (inorder t)"
  | (no_mem) "iRet = -1" "t' = t" "isAlloc' = isAlloc" "k \<notin> rk ` set (inorder t)"
      "alloc_node stMalloc m = (m', INVALID_HANDLE)"
  | (inserted) "iRet = 0 \<or> iRet = 1" "k \<notin> rk ` set (inorder t)" "t' \<noteq> NIL" "ttree_inv rk t'"
      "int (height t') = int (height t) + iRet" "iRet = 1 \<longrightarrow> m_chBalance t' \<noteq> 0 \<or> height t' = 1"
      "set (inorder t') = insert x (set (inorder t))"
      "isAlloc' = isAlloc \<and> m' = m \<and> node_handles t' = node_handles t
       \<or> (\<exists>h. isAlloc' \<and> alloc_node stMalloc m = (m', h) \<and> h \<noteq> INVALID_HANDLE
            \<and> node_handles t' = add_mset h (node_handles t))"
  using assms unfolding insert_spec_def prod.case by blast

lemma attach_left:
  assumes inv: "ttree_inv rk (TtreeNode h l r b items)"
    and x: "rk x = k" "k < rk (items ! 0)"
    and res: "insert_spec stMalloc rk l k x isAlloc m (iRet, l', isAlloc', m')"
  shows "\<exists>res'. attach_grown_left h r b items (iRet, l', isAlloc', m') = Some res'
     \<and> insert_spec stMalloc rk (TtreeNode h l r b items) k x isAlloc m res'"
proof -
  have items: "items \<noteq> []" "ordered rk items" using inv by (auto simp: ttree_inv_def)
  have above: "\<forall>z\<in>set items \<union> set (inorder r). k < rk z"
  proof
    fix z assume "z \<in> set items \<union> set (inorder r)"
    moreover have "items ! 0 \<in> set items" using items by simp
    ultimately have "rk (items ! 0) \<le> rk z"
      using inv ordered_hd_le [OF items(2)] by (auto simp: ttree_inv_def intro: less_imp_le)
    then show "k < rk z" using x(2) by simp
  qed
  from res show ?thesis
  proof (cases rule: insert_spec_cases)
    case exists
    then show ?thesis by (auto simp: attach_grown_left_def insert_spec_def)
  next
    case no_mem
    then show ?thesis using above
      by (auto simp: attach_grown_left_def insert_spec_def)
  next
    case inserted
    have ord: "ordered rk (inorder l' @ items @ inorder r)"
      using inv inserted(4,7) x(1) above by (auto simp: ttree_inv_def)
    have fresh: "k \<notin> rk ` set (inorder (TtreeNode h l r b items))"
      using inserted(2) above by auto
    have content: "set (inorder l' @ items @ inorder r) = insert x (set (inorder (TtreeNode h l r b items)))"
      using inserted(7) by auto
    show ?thesis
    proof (cases "iRet = 0")
      case True
      have "insert_spec stMalloc rk (TtreeNode h l r b items) k x isAlloc m
          (0, TtreeNode h l' r b items, isAlloc', m')"
        using True inserted inv ord fresh content by (auto simp: insert_spec_def ttree_inv_def)
      then show ?thesis using True by (auto simp: attach_grown_left_def)
    next
      case False
      then have one: "iRet = 1" using inserted(1) by simp
      have pre: "balanced l'" "balanced r" "b = int (height r) - (int (height l') - 1)"
        "-1 \<le> b" "b \<le> 1" "l' \<noteq> NIL" "b < 0 \<longrightarrow> m_chBalance l' \<noteq> 0"
        using inv inserted one by (auto simp: ttree_inv_def)
      obtain iRet' t where t: "insert_grown_left (TtreeNode h l' r b items) = Some (iRet', t)"
        "iRet' \<in> {0, 1}" "balanced t" "t \<noteq> NIL"
        "int (height t) = int (max (height l' - 1) (height r)) + 1 + iRet'"
        "inorder t = inorder l' @ items @ inorder r"
        "node_handles t = add_mset h (node_handles l' + node_handles r)"
        "pages l' \<and> pages r \<and> items \<noteq> [] \<and> length items \<le> PAGE_SIZE \<longrightarrow> pages t"
        "iRet' = 1 \<longrightarrow> m_chBalance t \<noteq> 0"
        using insert_grown_left [OF pre, of h items] by blast
      have "height l' - 1 = height l" using inserted(5) one by simp
      then have "insert_spec stMalloc rk (TtreeNode h l r b items) k x isAlloc m (iRet', t, isAlloc', m')"
        using inserted inv ord fresh content t one
        by (auto simp: insert_spec_def ttree_inv_def)
      then show ?thesis using one t(1) by (auto simp: attach_grown_left_def)
    qed
  qed
qed

lemma attach_right:
  assumes inv: "ttree_inv rk (TtreeNode h l r b items)"
    and x: "rk x = k" "rk (items ! (length items - 1)) < k"
    and res: "insert_spec stMalloc rk r k x isAlloc m (iRet, r', isAlloc', m')"
  shows "\<exists>res'. attach_grown_right h l b items (iRet, r', isAlloc', m') = Some res'
     \<and> insert_spec stMalloc rk (TtreeNode h l r b items) k x isAlloc m res'"
proof -
  have items: "items \<noteq> []" "ordered rk items" using inv by (auto simp: ttree_inv_def)
  have above: "\<forall>z\<in>set items \<union> set (inorder l). rk z < k"
  proof
    fix z assume "z \<in> set items \<union> set (inorder l)"
    moreover have "items ! (length items - 1) \<in> set items" using items by simp
    ultimately have "rk z \<le> rk (items ! (length items - 1))"
      using inv ordered_le_last [OF items(2)] by (auto simp: ttree_inv_def intro: less_imp_le)
    then show "rk z < k" using x(2) by simp
  qed
  from res show ?thesis
  proof (cases rule: insert_spec_cases)
    case exists
    then show ?thesis by (auto simp: attach_grown_right_def insert_spec_def)
  next
    case no_mem
    then show ?thesis using above
      by (auto simp: attach_grown_right_def insert_spec_def)
  next
    case inserted
    have ord: "ordered rk (inorder l @ items @ inorder r')"
      using inv inserted(4,7) x(1) above by (auto simp: ttree_inv_def)
    have fresh: "k \<notin> rk ` set (inorder (TtreeNode h l r b items))"
      using inserted(2) above by auto
    have content: "set (inorder l @ items @ inorder r') = insert x (set (inorder (TtreeNode h l r b items)))"
      using inserted(7) by auto
    show ?thesis
    proof (cases "iRet = 0")
      case True
      have "insert_spec stMalloc rk (TtreeNode h l r b items) k x isAlloc m
          (0, TtreeNode h l r' b items, isAlloc', m')"
        using True inserted inv ord fresh content by (auto simp: insert_spec_def ttree_inv_def)
      then show ?thesis using True by (auto simp: attach_grown_right_def)
    next
      case False
      then have one: "iRet = 1" using inserted(1) by simp
      have pre: "balanced l" "balanced r'" "b = (int (height r') - 1) - int (height l)"
        "-1 \<le> b" "b \<le> 1" "r' \<noteq> NIL" "b > 0 \<longrightarrow> m_chBalance r' \<noteq> 0"
        using inv inserted one by (auto simp: ttree_inv_def)
      obtain iRet' t where t: "insert_grown_right (TtreeNode h l r' b items) = Some (iRet', t)"
        "iRet' \<in> {0, 1}" "balanced t" "t \<noteq> NIL"
        "int (height t) = int (max (height l) (height r' - 1)) + 1 + iRet'"
        "inorder t = inorder l @ items @ inorder r'"
        "node_handles t = add_mset h (node_handles l + node_handles r')"
        "pages l \<and> pages r' \<and> items \<noteq> [] \<and> length items \<le> PAGE_SIZE \<longrightarrow> pages t"
        "iRet' = 1 \<longrightarrow> m_chBalance t \<noteq> 0"
        using insert_grown_right [OF pre, of h items] by blast
      have "height r' - 1 = height r" using inserted(5) one by simp
      then have "insert_spec stMalloc rk (TtreeNode h l r b items) k x isAlloc m (iRet', t, isAlloc', m')"
        using inserted inv ord fresh content t one
        by (auto simp: insert_spec_def ttree_inv_def)
      then show ?thesis using one t(1) by (auto simp: attach_grown_right_def)
    qed
  qed
qed

lemma insert_spec_leaf:
  assumes "alloc_node stMalloc m = (m', h)" "h \<noteq> INVALID_HANDLE"
  shows "insert_spec stMalloc rk NIL (rk x) x isAlloc m (1, TtreeNode h NIL NIL 0 [x], True, m')"
  using assms by (auto simp: insert_spec_def ttree_inv_def PAGE_SIZE_def)

lemma TtreeNode_Alloc_eq:
  "TtreeNode_Alloc stMalloc m x =
     (case alloc_node stMalloc m of (m', h) \<Rightarrow>
        (m', if h = INVALID_HANDLE then NIL else TtreeNode h NIL NIL 0 [x]))"
  by (auto simp: TtreeNode_Alloc_def alloc_node_def TtreeNode_do_init_def split: prod.splits)

context key_order
begin

definition insert_returns ::
  "'m MallocBase \<Rightarrow> ttree \<Rightarrow> 'k \<Rightarrow> handle \<Rightarrow> bool \<Rightarrow> 'm \<Rightarrow> bool" where
  "insert_returns stMalloc t k x isAlloc m \<longleftrightarrow>
     (\<exists>res. TtreeNode_do_insert stMalloc pfComp convert_cvalue t k x isAlloc m = Some res
        \<and> insert_spec stMalloc rk t (rank k) x isAlloc m res)"

lemma insert_left_step:
  assumes inv: "ttree_inv rk (TtreeNode h l r b items)"
    and valid: "\<forall>z\<in>set items. valid_rec z" "valid_key k"
    and x: "rk x = rank k" "rank k < rk (items ! 0)"
    and IH: "l \<noteq> NIL \<Longrightarrow> insert_returns stMalloc l k x isAlloc m"
  shows "insert_returns stMalloc (TtreeNode h l r b items) k x isAlloc m"
proof -
  let ?t = "TtreeNode h l r b items"
  have items: "items \<noteq> []" "length items \<le> PAGE_SIZE" "ordered rk items"
    using inv by (auto simp: ttree_inv_def)
  then have "valid_rec (items ! 0)" using valid by auto
  then have d0: "iDiff pfComp k (items ! 0) < 0" using x(2) comp_less valid(2) by blast
  have above: "\<forall>z\<in>set items \<union> set (inorder r). rank k < rk z"
  proof
    fix z assume "z \<in> set items \<union> set (inorder r)"
    moreover have "items ! 0 \<in> set items" using items by simp
    ultimately have "rk (items ! 0) \<le> rk z"
      using inv ordered_hd_le [OF items(3)] by (auto simp: ttree_inv_def intro: less_imp_le)
    then show "rank k < rk z" using x(2) by simp
  qed
  consider (room) "l = NIL" "length items < PAGE_SIZE" | (alloc) "l = NIL" "\<not> length items < PAGE_SIZE"
    | (rec) "l \<noteq> NIL" by blast
  then show ?thesis
  proof cases
    case room
    then have "TtreeNode_do_insert stMalloc pfComp convert_cvalue ?t k x isAlloc m =
        Some (0, TtreeNode h l r b (x # items), isAlloc, m)"
      using d0 by (subst TtreeNode_do_insert.simps) simp
    moreover have "insert_spec stMalloc rk ?t (rank k) x isAlloc m
        (0, TtreeNode h l r b (x # items), isAlloc, m)"
      using room inv above x(1) by (auto simp: insert_spec_def ttree_inv_def)
    ultimately show ?thesis by (simp add: insert_returns_def)
  next
    case alloc
    obtain m' hn where an: "alloc_node stMalloc m = (m', hn)" by fastforce
    show ?thesis
    proof (cases "hn = INVALID_HANDLE")
      case True
      then have "TtreeNode_do_insert stMalloc pfComp convert_cvalue ?t k x isAlloc m =
          Some (-1, ?t, isAlloc, m')"
        using d0 alloc an by (subst TtreeNode_do_insert.simps) (simp add: TtreeNode_Alloc_eq)
      moreover have "insert_spec stMalloc rk ?t (rank k) x isAlloc m (-1, ?t, isAlloc, m')"
        using alloc an True above by (auto simp: insert_spec_def)
      ultimately show ?thesis by (simp add: insert_returns_def)
    next
      case False
      then have "TtreeNode_do_insert stMalloc pfComp convert_cvalue ?t k x isAlloc m =
          attach_grown_left h r b items (1, TtreeNode hn NIL NIL 0 [x], True, m')"
        using d0 alloc an by (subst TtreeNode_do_insert.simps) (simp add: TtreeNode_Alloc_eq)
      then show ?thesis
        using attach_left [OF inv x] insert_spec_leaf [OF an False, of rk x isAlloc] alloc(1) x(1)
        by (simp add: insert_returns_def)
    qed
  next
    case rec
    then obtain res where res: "TtreeNode_do_insert stMalloc pfComp convert_cvalue l k x isAlloc m = Some res"
      "insert_spec stMalloc rk l (rank k) x isAlloc m res"
      using IH by (auto simp: insert_returns_def)
    obtain iRet l' isAlloc' m' where r4: "res = (iRet, l', isAlloc', m')" by (cases res) auto
    have "TtreeNode_do_insert stMalloc pfComp convert_cvalue ?t k x isAlloc m =
        attach_grown_left h r b items res"
      using d0 rec res by (subst TtreeNode_do_insert.simps) simp
    then show ?thesis
      using attach_left [OF inv x] res(2) unfolding r4 by (simp add: insert_returns_def)
  qed
qed

lemma insert_right_step:
  assumes inv: "ttree_inv rk (TtreeNode h l r b items)"
    and valid: "\<forall>z\<in>set items. valid_rec z" "valid_key k"
    and x: "rk x = rank k" "rk (items ! (length items - 1)) < rank k"
    and IH: "r \<noteq> NIL \<Longrightarrow> insert_returns stMalloc r k x isAlloc m"
  shows "insert_returns stMalloc (TtreeNode h l r b items) k x isAlloc m"
proof -
  let ?t = "TtreeNode h l r b items"
  have items: "items \<noteq> []" "length items \<le> PAGE_SIZE" "ordered rk items"
    using inv by (auto simp: ttree_inv_def)
  then have v: "valid_rec (items ! 0)" "valid_rec (items ! (length items - 1))"
    using valid by auto
  have "rk (items ! 0) < rank k"
    using ordered_hd_le [OF items(3), of "items ! (length items - 1)"] items(1) x(2) by simp
  then have d0: "iDiff pfComp k (items ! 0) > 0" "iDiff pfComp k (items ! (length items - 1)) > 0"
    using x(2) comp_greater valid(2) v by auto
  have above: "\<forall>z\<in>set items \<union> set (inorder l). rk z < rank k"
  proof
    fix z assume "z \<in> set items \<union> set (inorder l)"
    moreover have "items ! (length items - 1) \<in> set items" using items by simp
    ultimately have "rk z \<le> rk (items ! (length items - 1))"
      using inv ordered_le_last [OF items(3)] by (auto simp: ttree_inv_def intro: less_imp_le)
    then show "rk z < rank k" using x(2) by simp
  qed
  consider (room) "r = NIL" "length items < PAGE_SIZE" | (alloc) "r = NIL" "\<not> length items < PAGE_SIZE"
    | (rec) "r \<noteq> NIL" by blast
  then show ?thesis
  proof cases
    case room
    then have "TtreeNode_do_insert stMalloc pfComp convert_cvalue ?t k x isAlloc m =
        Some (0, TtreeNode h l r b (items @ [x]), isAlloc, m)"
      using d0 by (subst TtreeNode_do_insert.simps) simp
    moreover have "insert_spec stMalloc rk ?t (rank k) x isAlloc m
        (0, TtreeNode h l r b (items @ [x]), isAlloc, m)"
      using room inv above x(1) by (auto simp: insert_spec_def ttree_inv_def)
    ultimately show ?thesis by (simp add: insert_returns_def)
  next
    case alloc
    obtain m' hn where an: "alloc_node stMalloc m = (m', hn)" by fastforce
    show ?thesis
    proof (cases "hn = INVALID_HANDLE")
      case True
      then have "TtreeNode_do_insert stMalloc pfComp convert_cvalue ?t k x isAlloc m =
          Some (-1, ?t, isAlloc, m')"
        using d0 alloc an by (subst TtreeNode_do_insert.simps) (simp add: TtreeNode_Alloc_eq)
      moreover have "insert_spec stMalloc rk ?t (rank k) x isAlloc m (-1, ?t, isAlloc, m')"
        using alloc an True above by (auto simp: insert_spec_def)
      ultimately show ?thesis by (simp add: insert_returns_def)
    next
      case False
      then have "TtreeNode_do_insert stMalloc pfComp convert_cvalue ?t k x isAlloc m =
          attach_grown_right h l b items (1, TtreeNode hn NIL NIL 0 [x], True, m')"
        using d0 alloc an by (subst TtreeNode_do_insert.simps) (simp add: TtreeNode_Alloc_eq)
      then show ?thesis
        using attach_right [OF inv x] insert_spec_leaf [OF an False, of rk x isAlloc] alloc(1) x(1)
        by (simp add: insert_returns_def)
    qed
  next
    case rec
    then obtain res where res: "TtreeNode_do_insert stMalloc pfComp convert_cvalue r k x isAlloc m = Some res"
      "insert_spec stMalloc rk r (rank k) x isAlloc m res"
      using IH by (auto simp: insert_returns_def)
    obtain iRet r' isAlloc' m' where r4: "res = (iRet, r', isAlloc', m')" by (cases res) auto
    have "TtreeNode_do_insert stMalloc pfComp convert_cvalue ?t k x isAlloc m =
        attach_grown_right h l b items res"
      using d0 rec res by (subst TtreeNode_do_insert.simps) simp
    then show ?thesis
      using attach_right [OF inv x] res(2) unfolding r4 by (simp add: insert_returns_def)
  qed
qed

lemma insert_restore_spec:
  assumes res: "insert_spec stMalloc rk (TtreeNode h l r b items') (rk y) y isAlloc m res"
    and fresh: "rk y \<notin> rk ` set (inorder (TtreeNode h l r b items'))"
      "rk x \<notin> rk ` set (inorder (TtreeNode h l r b items))"
    and content: "insert y (set items') = insert x (set items)"
  shows "\<exists>res'. insert_restore items res = Some res'
     \<and> insert_spec stMalloc rk (TtreeNode h l r b items) (rk x) x isAlloc m res'"
proof -
  obtain iRet t' isAlloc' m' where r4: "res = (iRet, t', isAlloc', m')" by (cases res) auto
  from res [unfolded r4] show ?thesis
  proof (cases rule: insert_spec_cases)
    case exists
    then show ?thesis using fresh(1) by simp
  next
    case no_mem
    then show ?thesis using fresh by (auto simp: r4 insert_restore_def insert_spec_def)
  next
    case inserted
    then have "set (inorder t') = insert x (set (inorder (TtreeNode h l r b items)))"
      using content by auto
    then have "insert_spec stMalloc rk (TtreeNode h l r b items) (rk x) x isAlloc m res"
      using inserted(1,3-6,8) fresh(2) unfolding r4 insert_spec_def prod.case
      by (simp only: node_handles.simps inorder.simps height.simps) auto
    moreover have "insert_restore items res = Some res"
      using inserted(1) by (auto simp: r4 insert_restore_def)
    ultimately show ?thesis by simp
  qed
qed

lemma insert_middle_step:
  assumes inv: "ttree_inv rk (TtreeNode h l r b items)"
    and valid: "\<forall>z\<in>set items. valid_rec z" "valid_key k" "valid_rec x"
    and x: "rk x = rank k" "rk (items ! 0) < rank k" "rank k < rk (items ! (length items - 1))"
    and IHl: "\<And>k x. l \<noteq> NIL \<Longrightarrow> valid_key k \<Longrightarrow> valid_rec x \<Longrightarrow> rk x = rank k
               \<Longrightarrow> insert_returns stMalloc l k x isAlloc m"
    and IHr: "\<And>k x. r \<noteq> NIL \<Longrightarrow> valid_key k \<Longrightarrow> valid_rec x \<Longrightarrow> rk x = rank k
               \<Longrightarrow> insert_returns stMalloc r k x isAlloc m"
  shows "insert_returns stMalloc (TtreeNode h l r b items) k x isAlloc m"
proof -
  let ?t = "TtreeNode h l r b items"
  have items: "items \<noteq> []" "length items \<le> PAGE_SIZE" "ordered rk items"
    using inv by (auto simp: ttree_inv_def)
  then have mem: "items ! 0 \<in> set items" "items ! (length items - 1) \<in> set items" by auto
  then have d: "iDiff pfComp k (items ! 0) > 0" "iDiff pfComp k (items ! (length items - 1)) < 0"
    using comp_greater comp_less valid x by auto
  have len: "1 \<le> length items - 1"
    using x(2,3) items(1) by (cases items) (auto simp: Suc_le_eq)
  let ?s = "insert_bsearch (iDiff pfComp k) items 1 (length items - 1)"
  have search: "case ?s of None \<Rightarrow> rank k \<in> rk ` set items
     | Some j \<Rightarrow> 1 \<le> j \<and> j \<le> length items - 1
         \<and> (\<forall>i<j. rk (items ! i) < rank k) \<and> rank k < rk (items ! j)"
  proof (rule insert_bsearch_spec [OF items(3)])
    show "(iDiff pfComp k z < 0 \<longleftrightarrow> rank k < rk z) \<and> (iDiff pfComp k z = 0 \<longleftrightarrow> rank k = rk z)"
      if "z \<in> set items" for z using that valid comp_less comp_eq by blast
  qed (use len x items(1) in \<open>simp_all\<close>)
  show ?thesis
  proof (cases ?s)
    case None
    then have "TtreeNode_do_insert stMalloc pfComp convert_cvalue ?t k x isAlloc m = Some (-2, ?t, isAlloc, m)"
      using d by (subst TtreeNode_do_insert.simps) simp
    moreover have "rank k \<in> rk ` set (inorder ?t)" using None search by auto
    ultimately show ?thesis by (simp add: insert_returns_def insert_spec_def)
  next
    case (Some j)
    then have j: "1 \<le> j" "j < length items" "\<forall>i<j. rk (items ! i) < rk x" "rk x < rk (items ! j)"
      using search len x(1) by auto
    note split = ordered_split_at [OF items(3) j(2-4)]
    have "\<forall>z\<in>set (inorder l). rk z < rk (items ! 0)"
      "\<forall>z\<in>set (inorder r). rk (items ! (length items - 1)) < rk z"
      using inv mem unfolding ttree_inv_def inorder.simps ordered_append set_append by blast+
    then have out: "\<forall>z\<in>set (inorder l). rk z < rk x" "\<forall>z\<in>set (inorder r). rk x < rk z"
      using x by (metis less_trans)+
    then have fresh: "rk x \<notin> rk ` set (inorder ?t)" using split(3) by auto
    have replaced: "ordered rk (inorder l @ items' @ inorder r)"
      if "ordered rk items'" "set items' \<subseteq> insert x (set items)" for items'
      by (rule ordered_replace_items [OF _ that out])
        (use inv in \<open>simp add: ttree_inv_def del: ordered_append\<close>)
    show ?thesis
    proof (cases "length items < PAGE_SIZE")
      case True
      then have "TtreeNode_do_insert stMalloc pfComp convert_cvalue ?t k x isAlloc m =
          Some (0, TtreeNode h l r b (insert_item items j x), isAlloc, m)"
        using d Some by (subst TtreeNode_do_insert.simps) simp
      moreover have "insert_spec stMalloc rk ?t (rank k) x isAlloc m
          (0, TtreeNode h l r b (insert_item items j x), isAlloc, m)"
      proof -
        note i = ordered_insert_item [OF items(3) split(1,2)]
        have "insert_item items j x \<noteq> []" using i(3) by auto
        then have "ttree_inv rk (TtreeNode h l r b (insert_item items j x))"
          using inv True replaced [OF i(1)] i(2,3)
          by (simp add: ttree_inv_def del: ordered_append)
        then show ?thesis using i(2) fresh x(1) by (simp add: insert_spec_def Un_insert_left Un_insert_right)
      qed
      ultimately show ?thesis by (simp add: insert_returns_def)
    next
      case False
      obtain y items' where full: "insert_full b items j x = (y, items')" by fastforce
      note f = ordered_insert_full [OF items(3) j full]
      let ?t' = "TtreeNode h l r b items'"
      have y: "valid_rec y" "valid_key (convert_cvalue y)"
        using f(4) valid convert_valid by auto
      have valid': "\<forall>z\<in>set items'. valid_rec z" using f(3) valid by auto
      have sub: "set items' \<subseteq> insert x (set items)" using f(3) by blast
      have ne: "items' \<noteq> []" using f(2) items(1) by auto
      have inv': "ttree_inv rk ?t'"
        using inv f(2) ne replaced [OF f(1) sub] by (simp add: ttree_inv_def del: ordered_append)
      have yout: "\<forall>z\<in>set (inorder l). rk z < rk y" "\<forall>z\<in>set (inorder r). rk y < rk z"
        using inv f(4) unfolding ttree_inv_def inorder.simps ordered_append set_append by blast+
      have "insert_returns stMalloc ?t' (convert_cvalue y) y isAlloc m \<and> rk y \<notin> rk ` set (inorder ?t')"
      proof (cases "b \<ge> 0")
        case True
        then have "rk y < rk (items' ! 0)" using f(6) ne by simp
        then have "insert_returns stMalloc ?t' (convert_cvalue y) y isAlloc m"
          by (rule insert_left_step [OF inv' valid' y(2) refl]) (rule IHl [OF _ y(2,1) refl])
        moreover have "rk y \<notin> rk ` set (inorder ?t')"
          using yout f(6) [OF True] by auto
        ultimately show ?thesis by simp
      next
        case neg: False
        then have "rk (items' ! (length items' - 1)) < rk y" using f(7) ne by simp
        then have "insert_returns stMalloc ?t' (convert_cvalue y) y isAlloc m"
          by (rule insert_right_step [OF inv' valid' y(2) refl]) (rule IHr [OF _ y(2,1) refl])
        moreover have "rk y \<notin> rk ` set (inorder ?t')"
          using yout f(7) neg by auto
        ultimately show ?thesis by simp
      qed
      then obtain res where res:
        "TtreeNode_do_insert stMalloc pfComp convert_cvalue ?t' (convert_cvalue y) y isAlloc m = Some res"
        "insert_spec stMalloc rk ?t' (rk y) y isAlloc m res" "rk y \<notin> rk ` set (inorder ?t')"
        by (auto simp: insert_returns_def)
      have "TtreeNode_do_insert stMalloc pfComp convert_cvalue ?t k x isAlloc m = insert_restore items res"
        using d Some False full res(1) by (subst TtreeNode_do_insert.simps) simp
      then show ?thesis
        using insert_restore_spec [OF res(2,3) fresh f(3)] x(1) by (simp add: insert_returns_def)
    qed
  qed
qed

theorem insert_node_returns:
  "ttree_inv rk t \<Longrightarrow> t \<noteq> NIL \<Longrightarrow> \<forall>z\<in>set (inorder t). valid_rec z \<Longrightarrow>
   valid_key k \<Longrightarrow> valid_rec x \<Longrightarrow> rk x = rank k \<Longrightarrow> insert_returns stMalloc t k x isAlloc m"
proof (induction t arbitrary: k x)
  case NIL
  then show ?case by simp
next
  case (TtreeNode h l r b items)
  let ?t = "TtreeNode h l r b items"
  have items: "items \<noteq> []" "ordered rk items" and sub: "ttree_inv rk l" "ttree_inv rk r"
    using TtreeNode.prems(1) by (auto simp: ttree_inv_def)
  have valid: "\<forall>z\<in>set items. valid_rec z" using TtreeNode.prems by auto
  have mem: "items ! 0 \<in> set items" "items ! (length items - 1) \<in> set items" using items by auto
  have IHl: "insert_returns stMalloc l k x isAlloc m"
    if "l \<noteq> NIL" "valid_key k" "valid_rec x" "rk x = rank k" for k x
    using TtreeNode.IH(1) [of k x] TtreeNode.prems sub that by auto
  have IHr: "insert_returns stMalloc r k x isAlloc m"
    if "r \<noteq> NIL" "valid_key k" "valid_rec x" "rk x = rank k" for k x
    using TtreeNode.IH(2) [of k x] TtreeNode.prems sub that by auto
  consider (low) "rank k < rk (items ! 0)" | (first) "rank k = rk (items ! 0)"
    | (high) "rk (items ! (length items - 1)) < rank k"
    | (lst) "rank k = rk (items ! (length items - 1))" "rk (items ! 0) < rank k"
    | (mid) "rk (items ! 0) < rank k" "rank k < rk (items ! (length items - 1))"
    using less_linear [of "rank k" "rk (items ! 0)"]
      less_linear [of "rank k" "rk (items ! (length items - 1))"] by blast
  then show ?case
  proof cases
    case low
    then show ?thesis
      by (intro insert_left_step [OF TtreeNode.prems(1) valid] IHl TtreeNode.prems)
  next
    case first
    then have "iDiff pfComp k (items ! 0) = 0" using comp_eq TtreeNode.prems valid mem by auto
    then have "TtreeNode_do_insert stMalloc pfComp convert_cvalue ?t k x isAlloc m = Some (-2, ?t, isAlloc, m)"
      by (subst TtreeNode_do_insert.simps) simp
    then show ?thesis using first mem by (auto simp: insert_returns_def insert_spec_def)
  next
    case high
    then show ?thesis
      by (intro insert_right_step [OF TtreeNode.prems(1) valid] IHr TtreeNode.prems)
  next
    case lst
    then have "iDiff pfComp k (items ! (length items - 1)) = 0" "iDiff pfComp k (items ! 0) > 0"
      using comp_eq comp_greater TtreeNode.prems valid mem by auto
    then have "TtreeNode_do_insert stMalloc pfComp convert_cvalue ?t k x isAlloc m = Some (-2, ?t, isAlloc, m)"
      by (subst TtreeNode_do_insert.simps) simp
    then show ?thesis using lst mem by (auto simp: insert_returns_def insert_spec_def)
  next
    case mid
    then show ?thesis
      by (intro insert_middle_step [OF TtreeNode.prems(1) valid _ _ _ mid] IHl IHr TtreeNode.prems)
  qed
qed

end

end
