(* ===== verification/TTree_Delete.thy ===== *)
theory TTree_Delete
  imports TTree_Insert
begin

text \<open>
  Deletion from the T-tree keeps the invariant, removes exactly the record with the key,
  frees at most one node, which is one of the tree's, and returns -1 for a key that is not
  present, with the tree as before.
\<close>

section \<open>Rebalancing\<close>

lemma balance_left_branch:
  assumes "balanced l" "balanced r"
    and "b = int (height r) - (int (height l) + 1)" "-1 \<le> b" "b \<le> 1"
  shows "\<exists>iRet t. balance_left_branch (TtreeNode h l r b items) = Some (iRet, t)
     \<and> iRet \<in> {0, 1} \<and> balanced t \<and> t \<noteq> NIL
     \<and> int (height t) = int (max (height l + 1) (height r)) + 1 - iRet
     \<and> inorder t = inorder l @ items @ inorder r
     \<and> node_handles t = add_mset h (node_handles l + node_handles r)
     \<and> (pages l \<and> pages r \<and> items \<noteq> [] \<and> length items \<le> PAGE_SIZE \<longrightarrow> pages t)"
  using assms
  by (cases r) (auto split: ttree.splits simp: max_def split: if_splits)

lemma balance_right_branch:
  assumes "balanced l" "balanced r"
    and "b = (int (height r) + 1) - int (height l)" "-1 \<le> b" "b \<le> 1"
  shows "\<exists>iRet t. balance_right_branch (TtreeNode h l r b items) = Some (iRet, t)
     \<and> iRet \<in> {0, 1} \<and> balanced t \<and> t \<noteq> NIL
     \<and> int (height t) = int (max (height l) (height r + 1)) + 1 - iRet
     \<and> inorder t = inorder l @ items @ inorder r
     \<and> node_handles t = add_mset h (node_handles l + node_handles r)
     \<and> (pages l \<and> pages r \<and> items \<noteq> [] \<and> length items \<le> PAGE_SIZE \<longrightarrow> pages t)"
  using assms
  by (cases l) (auto split: ttree.splits simp: max_def split: if_splits)

section \<open>The specification of a deletion\<close>

definition freed :: "'m MallocBase \<Rightarrow> ttree \<Rightarrow> 'm \<Rightarrow> ttree \<Rightarrow> 'm \<Rightarrow> bool" where
  "freed stMalloc t m t' m' =
     (m' = m \<and> node_handles t' = node_handles t
      \<or> (\<exists>h. node_handles t = add_mset h (node_handles t') \<and> m' = fst (Free_op stMalloc m h)))"

definition delete_spec ::
  "'m MallocBase \<Rightarrow> (handle \<Rightarrow> 'o::linorder) \<Rightarrow> ttree \<Rightarrow> 'o \<Rightarrow> bool \<Rightarrow> 'm
   \<Rightarrow> 'm delete_result \<Rightarrow> bool" where
  "delete_spec stMalloc rk t k isFree m res =
     (case res of (iRet, t', isFree', m') \<Rightarrow>
        (iRet = -1 \<and> t' = t \<and> isFree' = isFree \<and> m' = m \<and> k \<notin> rk ` set (inorder t))
      \<or> (iRet \<in> {0, 1} \<and> k \<in> rk ` set (inorder t) \<and> ttree_inv rk t'
         \<and> int (height t') = int (height t) - iRet
         \<and> set (inorder t') = {z \<in> set (inorder t). rk z \<noteq> k}
         \<and> freed stMalloc t m t' m'))"

lemma delete_spec_cases [consumes 1, case_names absent removed]:
  assumes "delete_spec stMalloc rk t k isFree m (iRet, t', isFree', m')"
  obtains "iRet = -1" "t' = t" "isFree' = isFree" "m' = m" "k \<notin> rk ` set (inorder t)"
  | "iRet \<in> {0, 1}" "k \<in> rk ` set (inorder t)" "ttree_inv rk t'"
    "int (height t') = int (height t) - iRet"
    "set (inorder t') = {z \<in> set (inorder t). rk z \<noteq> k}" "freed stMalloc t m t' m'"
  using assms unfolding delete_spec_def prod.case by blast

lemma delete_scan_None: "delete_scan P xs n = None \<longleftrightarrow> (\<forall>x\<in>set xs. \<not> P x)"
  by (induction xs arbitrary: n) auto

lemma delete_scan_Some:
  "delete_scan P xs n = Some i \<Longrightarrow> n \<le> i \<and> i < n + length xs \<and> P (xs ! (i - n))"
  by (induction xs arbitrary: n) (force split: if_splits simp: nth_Cons')+

lemma remove_item_ordered:
  assumes "ordered rk items" "i < length items"
  shows "ordered rk (remove_item items i)"
    "set (remove_item items i) = {z \<in> set items. rk z \<noteq> rk (items ! i)}"
    "length (remove_item items i) = length items - 1"
proof -
  have split: "items = take i items @ items ! i # drop (i + 1) items"
    using assms(2) by (simp add: id_take_nth_drop)
  then have ord: "ordered rk (take i items @ items ! i # drop (i + 1) items)"
    using assms(1) by simp
  then show "ordered rk (remove_item items i)" by (simp add: remove_item_def)
  have "set items = set (take i items) \<union> {items ! i} \<union> set (drop (i + 1) items)"
    by (subst split) auto
  then show "set (remove_item items i) = {z \<in> set items. rk z \<noteq> rk (items ! i)}"
    using ord by (auto simp: remove_item_def)
  show "length (remove_item items i) = length items - 1"
    using assms(2) by (simp add: remove_item_def)
qed

lemma last_rightmost: "t \<noteq> NIL \<Longrightarrow> pages t \<Longrightarrow> last (m_ahItems (rightmost t)) = last (inorder t)"
  by (induction t rule: rightmost.induct) (auto simp: inorder_NIL_iff)

lemma hd_leftmost: "t \<noteq> NIL \<Longrightarrow> pages t \<Longrightarrow> hd (m_ahItems (leftmost t)) = hd (inorder t)"
  by (induction t rule: leftmost.induct) (auto simp: inorder_NIL_iff)

lemma delete_from_left_node:
  assumes inv: "ttree_inv rk (TtreeNode h l r b items)"
    and l': "ttree_inv rk l'" "int (height l') = int (height l) - iRet" "iRet \<in> {0, 1}"
      "freed stMalloc l m l' m'"
    and items': "ordered rk (inorder l' @ items' @ inorder r)" "items' \<noteq> []" "length items' \<le> PAGE_SIZE"
  shows "\<exists>iRet' t'. delete_from_left h r b items' (iRet, l', isFree, m') = Some (iRet', t', isFree, m')
     \<and> iRet' \<in> {0, 1} \<and> ttree_inv rk t'
     \<and> int (height t') = int (height (TtreeNode h l r b items)) - iRet'
     \<and> inorder t' = inorder l' @ items' @ inorder r
     \<and> freed stMalloc (TtreeNode h l r b items) m t' m'"
proof (cases "iRet = 0")
  case True
  have "freed stMalloc (TtreeNode h l r b items) m (TtreeNode h l' r b items') m'"
    using l'(4) by (auto simp: freed_def)
  then show ?thesis using True inv l' items' by (auto simp: delete_from_left_def ttree_inv_def)
next
  case False
  then have one: "iRet = 1" using l'(3) by simp
  have "\<exists>iRet t. balance_left_branch (TtreeNode h l' r b items') = Some (iRet, t)
     \<and> iRet \<in> {0, 1} \<and> balanced t \<and> t \<noteq> NIL
     \<and> int (height t) = int (max (height l' + 1) (height r)) + 1 - iRet
     \<and> inorder t = inorder l' @ items' @ inorder r
     \<and> node_handles t = add_mset h (node_handles l' + node_handles r)
     \<and> (pages l' \<and> pages r \<and> items' \<noteq> [] \<and> length items' \<le> PAGE_SIZE \<longrightarrow> pages t)"
    by (rule balance_left_branch) (use inv l'(1,2) one in \<open>auto simp: ttree_inv_def\<close>)
  then obtain iRet' t where t: "balance_left_branch (TtreeNode h l' r b items') = Some (iRet', t)"
     "iRet' \<in> {0, 1}" "balanced t" "int (height t) = int (max (height l' + 1) (height r)) + 1 - iRet'"
     "inorder t = inorder l' @ items' @ inorder r"
     "node_handles t = add_mset h (node_handles l' + node_handles r)" "pages t"
    using inv l'(1) items'(2,3) by (auto simp: ttree_inv_def)
  have "height l = height l' + 1" using l'(2) one by simp
  moreover have "freed stMalloc (TtreeNode h l r b items) m t m'"
    using l'(4) t(6) by (auto simp: freed_def)
  ultimately show ?thesis
    using one t items'(1) by (simp add: delete_from_left_def ttree_inv_def)
qed

lemma delete_from_right_node:
  assumes inv: "ttree_inv rk (TtreeNode h l r b items)"
    and r': "ttree_inv rk r'" "int (height r') = int (height r) - iRet" "iRet \<in> {0, 1}"
      "freed stMalloc r m r' m'"
    and items': "ordered rk (inorder l @ items' @ inorder r')" "items' \<noteq> []" "length items' \<le> PAGE_SIZE"
  shows "\<exists>iRet' t'. delete_from_right h l b items' (iRet, r', isFree, m') = Some (iRet', t', isFree, m')
     \<and> iRet' \<in> {0, 1} \<and> ttree_inv rk t'
     \<and> int (height t') = int (height (TtreeNode h l r b items)) - iRet'
     \<and> inorder t' = inorder l @ items' @ inorder r'
     \<and> freed stMalloc (TtreeNode h l r b items) m t' m'"
proof (cases "iRet = 0")
  case True
  have "freed stMalloc (TtreeNode h l r b items) m (TtreeNode h l r' b items') m'"
    using r'(4) by (auto simp: freed_def)
  then show ?thesis using True inv r' items' by (auto simp: delete_from_right_def ttree_inv_def)
next
  case False
  then have one: "iRet = 1" using r'(3) by simp
  have "\<exists>iRet t. balance_right_branch (TtreeNode h l r' b items') = Some (iRet, t)
     \<and> iRet \<in> {0, 1} \<and> balanced t \<and> t \<noteq> NIL
     \<and> int (height t) = int (max (height l) (height r' + 1)) + 1 - iRet
     \<and> inorder t = inorder l @ items' @ inorder r'
     \<and> node_handles t = add_mset h (node_handles l + node_handles r')
     \<and> (pages l \<and> pages r' \<and> items' \<noteq> [] \<and> length items' \<le> PAGE_SIZE \<longrightarrow> pages t)"
    by (rule balance_right_branch) (use inv r'(1,2) one in \<open>auto simp: ttree_inv_def\<close>)
  then obtain iRet' t where t: "balance_right_branch (TtreeNode h l r' b items') = Some (iRet', t)"
     "iRet' \<in> {0, 1}" "balanced t" "int (height t) = int (max (height l) (height r' + 1)) + 1 - iRet'"
     "inorder t = inorder l @ items' @ inorder r'"
     "node_handles t = add_mset h (node_handles l + node_handles r')" "pages t"
    using inv r'(1) items'(2,3) by (auto simp: ttree_inv_def)
  have "height r = height r' + 1" using r'(2) one by simp
  moreover have "freed stMalloc (TtreeNode h l r b items) m t m'"
    using r'(4) t(6) by (auto simp: freed_def)
  ultimately show ?thesis
    using one t items'(1) by (simp add: delete_from_right_def ttree_inv_def)
qed

lemma ordered_elsewhere:
  assumes "ordered rk (L @ items @ R)" "y \<in> set items"
  shows "\<forall>z\<in>set L. rk z \<noteq> rk y" "\<forall>z\<in>set R. rk z \<noteq> rk y"
  using assms by fastforce+

lemma ordered_last_split:
  assumes "ordered rk xs" "xs \<noteq> []" "set ys = {z \<in> set xs. rk z \<noteq> rk (last xs)}"
  shows "insert (last xs) (set ys) = set xs" "\<forall>z\<in>set ys. rk z < rk (last xs)"
proof -
  have "\<forall>z\<in>set xs. rk z \<le> rk (last xs)"
    using ordered_le_last [OF assms(1)] assms(2) by (simp add: last_conv_nth)
  then show "\<forall>z\<in>set ys. rk z < rk (last xs)" using assms(3) by (auto simp: le_less)
  show "insert (last xs) (set ys) = set xs"
    using assms(2,3) inj_onD [OF ordered_inj_on [OF assms(1)], of _ "last xs"] by auto
qed

lemma ordered_hd_split:
  assumes "ordered rk xs" "xs \<noteq> []" "set ys = {z \<in> set xs. rk z \<noteq> rk (hd xs)}"
  shows "insert (hd xs) (set ys) = set xs" "\<forall>z\<in>set ys. rk (hd xs) < rk z"
proof -
  have "\<forall>z\<in>set xs. rk (hd xs) \<le> rk z"
    using ordered_hd_le [OF assms(1)] assms(2) by (simp add: hd_conv_nth)
  then show "\<forall>z\<in>set ys. rk (hd xs) < rk z" using assms(3) by (auto simp: le_less)
  show "insert (hd xs) (set ys) = set xs"
    using assms(2,3) inj_onD [OF ordered_inj_on [OF assms(1)], of _ "hd xs"] by auto
qed

text \<open>
  The two ways a record of an inner node is replaced: by the greatest record of the left
  branch and by the least record of the right branch.
\<close>

lemma refill_from_left:
  assumes ord: "ordered rk (inorder l @ items @ inorder r)" and ne: "inorder l \<noteq> []"
    and i: "i < length items"
    and l': "ordered rk (inorder l')" "set (inorder l') = {z \<in> set (inorder l). rk z \<noteq> rk (last (inorder l))}"
  shows "ordered rk (inorder l' @ (last (inorder l) # remove_item items i) @ inorder r)"
    "set (inorder l' @ (last (inorder l) # remove_item items i) @ inorder r)
       = {z \<in> set (inorder l @ items @ inorder r). rk z \<noteq> rk (items ! i)}"
proof -
  let ?y = "last (inorder l)"
  have o: "ordered rk (inorder l)" "ordered rk items" "ordered rk (inorder r)"
    and c: "\<forall>z\<in>set (inorder l). \<forall>u\<in>set items. rk z < rk u"
      "\<forall>z\<in>set (inorder l). \<forall>u\<in>set (inorder r). rk z < rk u"
      "\<forall>z\<in>set items. \<forall>u\<in>set (inorder r). rk z < rk u"
    using ord by auto
  note rem = remove_item_ordered [OF o(2) i]
  note sp = ordered_last_split [OF o(1) ne l'(2)]
  have sub: "set (inorder l') \<subseteq> set (inorder l)" "set (remove_item items i) \<subseteq> set items"
    using l'(2) rem(2) by auto
  have y: "?y \<in> set (inorder l)" using ne by simp
  have 1: "\<forall>z\<in>set (inorder l'). \<forall>u\<in>set (remove_item items i). rk z < rk u"
    "\<forall>z\<in>set (inorder l'). \<forall>u\<in>set (inorder r). rk z < rk u"
    "\<forall>z\<in>set (remove_item items i). \<forall>u\<in>set (inorder r). rk z < rk u"
    "\<forall>u\<in>set (remove_item items i). rk ?y < rk u" "\<forall>u\<in>set (inorder r). rk ?y < rk u"
    using c sub y by blast+
  show "ordered rk (inorder l' @ (?y # remove_item items i) @ inorder r)"
    using 1 sp(2) l'(1) rem(1) o(3) by auto
  have "items ! i \<in> set items" using i by simp
  note 2 = ordered_elsewhere [OF ord this]
  have "set (inorder l' @ (?y # remove_item items i) @ inorder r)
      = set (inorder l) \<union> set (remove_item items i) \<union> set (inorder r)"
    using sp(1) by auto
  then show "set (inorder l' @ (?y # remove_item items i) @ inorder r)
       = {z \<in> set (inorder l @ items @ inorder r). rk z \<noteq> rk (items ! i)}"
    using 2 rem(2) by auto
qed

lemma refill_from_right:
  assumes ord: "ordered rk (inorder l @ items @ inorder r)" and ne: "inorder r \<noteq> []"
    and i: "i < length items"
    and r': "ordered rk (inorder r')" "set (inorder r') = {z \<in> set (inorder r). rk z \<noteq> rk (hd (inorder r))}"
  shows "ordered rk (inorder l @ (remove_item items i @ [hd (inorder r)]) @ inorder r')"
    "set (inorder l @ (remove_item items i @ [hd (inorder r)]) @ inorder r')
       = {z \<in> set (inorder l @ items @ inorder r). rk z \<noteq> rk (items ! i)}"
proof -
  let ?y = "hd (inorder r)"
  have o: "ordered rk (inorder l)" "ordered rk items" "ordered rk (inorder r)"
    and c: "\<forall>z\<in>set (inorder l). \<forall>u\<in>set items. rk z < rk u"
      "\<forall>z\<in>set (inorder l). \<forall>u\<in>set (inorder r). rk z < rk u"
      "\<forall>z\<in>set items. \<forall>u\<in>set (inorder r). rk z < rk u"
    using ord by auto
  note rem = remove_item_ordered [OF o(2) i]
  note sp = ordered_hd_split [OF o(3) ne r'(2)]
  have sub: "set (inorder r') \<subseteq> set (inorder r)" "set (remove_item items i) \<subseteq> set items"
    using r'(2) rem(2) by auto
  have y: "?y \<in> set (inorder r)" using ne by simp
  have 1: "\<forall>z\<in>set (inorder l). \<forall>u\<in>set (remove_item items i). rk z < rk u"
    "\<forall>z\<in>set (inorder l). \<forall>u\<in>set (inorder r'). rk z < rk u"
    "\<forall>z\<in>set (remove_item items i). \<forall>u\<in>set (inorder r'). rk z < rk u"
    "\<forall>u\<in>set (remove_item items i). rk u < rk ?y" "\<forall>u\<in>set (inorder l). rk u < rk ?y"
    using c sub y by blast+
  show "ordered rk (inorder l @ (remove_item items i @ [?y]) @ inorder r')"
    using 1 sp(2) r'(1) rem(1) o(1) by auto
  have "items ! i \<in> set items" using i by simp
  note 2 = ordered_elsewhere [OF ord this]
  have "set (inorder l @ (remove_item items i @ [?y]) @ inorder r')
      = set (inorder l) \<union> set (remove_item items i) \<union> set (inorder r)"
    using sp(1) by auto
  then show "set (inorder l @ (remove_item items i @ [?y]) @ inorder r')
       = {z \<in> set (inorder l @ items @ inorder r). rk z \<noteq> rk (items ! i)}"
    using 2 rem(2) by auto
qed

context key_order
begin

definition delete_returns ::
  "'m MallocBase \<Rightarrow> ttree \<Rightarrow> 'k \<Rightarrow> bool \<Rightarrow> 'm \<Rightarrow> bool" where
  "delete_returns stMalloc t k isFree m \<longleftrightarrow>
     (\<exists>res. TtreeNode_Delete stMalloc pfComp convert_cvalue t k isFree m = Some res
        \<and> delete_spec stMalloc rk t (rank k) isFree m res)"

lemma delete_removed:
  assumes "delete_returns stMalloc t k isFree m" "rank k \<in> rk ` set (inorder t)"
  obtains iRet t' isFree' m' where
    "TtreeNode_Delete stMalloc pfComp convert_cvalue t k isFree m = Some (iRet, t', isFree', m')"
    "iRet \<in> {0, 1}" "ttree_inv rk t'" "int (height t') = int (height t) - iRet"
    "set (inorder t') = {z \<in> set (inorder t). rk z \<noteq> rank k}" "freed stMalloc t m t' m'"
  using assms unfolding delete_returns_def delete_spec_def by (fastforce split: prod.splits)

lemma delete_locate:
  assumes inv: "ttree_inv rk (TtreeNode h l r b items)"
    and valid: "\<forall>z\<in>set items. valid_rec z" "valid_key k"
    and found: "rank k \<in> rk ` set items"
  obtains i where "\<not> iDiff pfComp k (items ! 0) < 0" "iDiff pfComp k (items ! (length items - 1)) \<le> 0"
    "delete_scan (\<lambda>x. pfComp k x = 0) items 0 = Some i" "i < length items" "rk (items ! i) = rank k"
proof -
  have items: "items \<noteq> []" "ordered rk items" using inv by (auto simp: ttree_inv_def)
  have mem: "items ! 0 \<in> set items" "items ! (length items - 1) \<in> set items" using items by auto
  have "rk (items ! 0) \<le> rank k" "rank k \<le> rk (items ! (length items - 1))"
    using found ordered_hd_le [OF items(2)] ordered_le_last [OF items(2)] by auto
  then have d: "\<not> iDiff pfComp k (items ! 0) < 0" "iDiff pfComp k (items ! (length items - 1)) \<le> 0"
    using comp_less comp_le valid mem by (auto simp: not_less)
  have "delete_scan (\<lambda>x. pfComp k x = 0) items 0 \<noteq> None"
    using found comp_eq_wide valid unfolding delete_scan_None by auto
  then obtain i where i: "delete_scan (\<lambda>x. pfComp k x = 0) items 0 = Some i" by blast
  then have "i < length items" "pfComp k (items ! i) = 0" using delete_scan_Some [OF i] by auto
  moreover from this have "rk (items ! i) = rank k" using comp_eq_wide valid by auto
  ultimately show ?thesis using that d i by blast
qed

lemma delete_here_left:
  assumes inv: "ttree_inv rk (TtreeNode h l r b items)" and ne: "l \<noteq> NIL"
    and i: "i < length items" "rk (items ! i) = rank k"
    and IH: "delete_returns stMalloc l (convert_cvalue (last (inorder l))) f m"
  shows "\<exists>res. Option.bind (TtreeNode_Delete stMalloc pfComp convert_cvalue l
              (convert_cvalue (last (inorder l))) f m)
            (delete_from_left h r b (last (inorder l) # remove_item items i)) = Some res
     \<and> delete_spec stMalloc rk (TtreeNode h l r b items) (rank k) isFree m res"
proof -
  let ?y = "last (inorder l)" and ?items = "last (inorder l) # remove_item items i"
  have ord: "ordered rk (inorder l @ items @ inorder r)" "ordered rk items"
    and pg: "inorder l \<noteq> []" "length items \<le> PAGE_SIZE"
    using inv ne by (auto simp: ttree_inv_def inorder_NIL_iff)
  then have "rk ?y \<in> rk ` set (inorder l)" by simp
  from delete_removed [OF IH this] obtain iRet l' f' m' where l':
    "TtreeNode_Delete stMalloc pfComp convert_cvalue l (convert_cvalue ?y) f m = Some (iRet, l', f', m')"
    "iRet \<in> {0, 1}" "ttree_inv rk l'" "int (height l') = int (height l) - iRet"
    "set (inorder l') = {z \<in> set (inorder l). rk z \<noteq> rk ?y}" "freed stMalloc l m l' m'" .
  have "ordered rk (inorder l')" using l'(3) by (simp add: ttree_inv_def)
  note refill = refill_from_left [OF ord(1) pg(1) i(1) this l'(5)]
  have len: "length ?items \<le> PAGE_SIZE" using remove_item_ordered(3) [OF ord(2) i(1)] pg(2) i(1) by simp
  obtain iRet' t' where t':
    "delete_from_left h r b ?items (iRet, l', f', m') = Some (iRet', t', f', m')"
    "iRet' \<in> {0, 1}" "ttree_inv rk t'" "int (height t') = int (height (TtreeNode h l r b items)) - iRet'"
    "inorder t' = inorder l' @ ?items @ inorder r" "freed stMalloc (TtreeNode h l r b items) m t' m'"
    using delete_from_left_node [OF inv l'(3,4,2,6) refill(1) list.simps(3) len] by blast
  have "rank k \<in> rk ` set (inorder (TtreeNode h l r b items))"
    using nth_mem [OF i(1)] unfolding i(2) [symmetric] by simp
  moreover have "set (inorder t') = {z \<in> set (inorder (TtreeNode h l r b items)). rk z \<noteq> rank k}"
    using refill(2) unfolding t'(5) i(2) by simp
  ultimately show ?thesis using l'(1) t'(1-4,6) unfolding delete_spec_def by simp
qed

lemma delete_here_right:
  assumes inv: "ttree_inv rk (TtreeNode h l r b items)" and ne: "r \<noteq> NIL"
    and i: "i < length items" "rk (items ! i) = rank k"
    and IH: "delete_returns stMalloc r (convert_cvalue (hd (inorder r))) f m"
  shows "\<exists>res. Option.bind (TtreeNode_Delete stMalloc pfComp convert_cvalue r
              (convert_cvalue (hd (inorder r))) f m)
            (delete_from_right h l b (remove_item items i @ [hd (inorder r)])) = Some res
     \<and> delete_spec stMalloc rk (TtreeNode h l r b items) (rank k) isFree m res"
proof -
  let ?y = "hd (inorder r)" and ?items = "remove_item items i @ [hd (inorder r)]"
  have ord: "ordered rk (inorder l @ items @ inorder r)" "ordered rk items"
    and pg: "inorder r \<noteq> []" "length items \<le> PAGE_SIZE"
    using inv ne by (auto simp: ttree_inv_def inorder_NIL_iff)
  then have "rk ?y \<in> rk ` set (inorder r)" by simp
  from delete_removed [OF IH this] obtain iRet r' f' m' where r':
    "TtreeNode_Delete stMalloc pfComp convert_cvalue r (convert_cvalue ?y) f m = Some (iRet, r', f', m')"
    "iRet \<in> {0, 1}" "ttree_inv rk r'" "int (height r') = int (height r) - iRet"
    "set (inorder r') = {z \<in> set (inorder r). rk z \<noteq> rk ?y}" "freed stMalloc r m r' m'" .
  have "ordered rk (inorder r')" using r'(3) by (simp add: ttree_inv_def)
  note refill = refill_from_right [OF ord(1) pg(1) i(1) this r'(5)]
  have len: "length ?items \<le> PAGE_SIZE" using remove_item_ordered(3) [OF ord(2) i(1)] pg(2) i(1) by simp
  obtain iRet' t' where t':
    "delete_from_right h l b ?items (iRet, r', f', m') = Some (iRet', t', f', m')"
    "iRet' \<in> {0, 1}" "ttree_inv rk t'" "int (height t') = int (height (TtreeNode h l r b items)) - iRet'"
    "inorder t' = inorder l @ ?items @ inorder r'" "freed stMalloc (TtreeNode h l r b items) m t' m'"
    using delete_from_right_node [OF inv r'(3,4,2,6) refill(1) _ len] by blast
  have "rank k \<in> rk ` set (inorder (TtreeNode h l r b items))"
    using nth_mem [OF i(1)] unfolding i(2) [symmetric] by simp
  moreover have "set (inorder t') = {z \<in> set (inorder (TtreeNode h l r b items)). rk z \<noteq> rank k}"
    using refill(2) unfolding t'(5) i(2) by simp
  ultimately show ?thesis using r'(1) t'(1-4,6) unfolding delete_spec_def by simp
qed

lemma delete_here_leaf:
  assumes inv: "ttree_inv rk (TtreeNode h l r b items)"
    and i: "i < length items" "rk (items ! i) = rank k" and one: "length items = 1"
    and c: "c = l \<and> r = NIL \<or> c = r \<and> l = NIL"
  shows "delete_spec stMalloc rk (TtreeNode h l r b items) (rank k) isFree m
           (1, c, isFree, fst (Free_op stMalloc m h))"
proof -
  obtain y where y: "items = [y]" using one by (auto simp: length_Suc_conv)
  then have k: "rank k = rk y" using i by simp
  have "freed stMalloc (TtreeNode h l r b items) m c (fst (Free_op stMalloc m h))"
    using c by (auto simp: freed_def)
  moreover have "set (inorder c) = {z \<in> set (inorder (TtreeNode h l r b items)). rk z \<noteq> rank k}"
    "ttree_inv rk c"
    using inv c k y by (auto simp: ttree_inv_def)
  moreover have "int (height c) = int (height (TtreeNode h l r b items)) - 1" using c by auto
  moreover have "rank k \<in> rk ` set (inorder (TtreeNode h l r b items))" using k y by simp
  ultimately show ?thesis unfolding delete_spec_def by simp
qed

lemma delete_here_item:
  assumes inv: "ttree_inv rk (TtreeNode h l r b items)"
    and i: "i < length items" "rk (items ! i) = rank k" and more: "length items \<noteq> 1"
  shows "delete_spec stMalloc rk (TtreeNode h l r b items) (rank k) isFree m
           (0, TtreeNode h l r b (remove_item items i), f, m)"
proof -
  have ord: "ordered rk (inorder l @ items @ inorder r)" "ordered rk items" "items \<noteq> []"
    using inv by (auto simp: ttree_inv_def)
  note rem = remove_item_ordered [OF ord(2) i(1)]
  have y: "items ! i \<in> set items" using i(1) by simp
  have "remove_item items i \<noteq> []" using rem(3) more ord(3) by (cases items) auto
  moreover have "ordered rk (inorder l @ remove_item items i @ inorder r)"
    using ord(1) rem(1,2) by auto
  moreover have "length (remove_item items i) \<le> PAGE_SIZE" using inv rem(3) by (auto simp: ttree_inv_def)
  ultimately have "ttree_inv rk (TtreeNode h l r b (remove_item items i))"
    using inv by (simp add: ttree_inv_def del: ordered_append)
  moreover have "set (inorder (TtreeNode h l r b (remove_item items i)))
     = {z \<in> set (inorder (TtreeNode h l r b items)). rk z \<noteq> rank k}"
    using ordered_elsewhere [OF ord(1) y] rem(2) unfolding i(2) [symmetric] by auto
  moreover have "rank k \<in> rk ` set (inorder (TtreeNode h l r b items))"
    using y unfolding i(2) [symmetric] by simp
  ultimately show ?thesis by (simp add: delete_spec_def freed_def)
qed

lemma delete_here:
  assumes inv: "ttree_inv rk (TtreeNode h l r b items)"
    and valid: "\<forall>z\<in>set (inorder (TtreeNode h l r b items)). valid_rec z" "valid_key k"
    and found: "rank k \<in> rk ` set items"
    and IHl: "\<And>k isFree m. l \<noteq> NIL \<Longrightarrow> valid_key k \<Longrightarrow> delete_returns stMalloc l k isFree m"
    and IHr: "\<And>k isFree m. r \<noteq> NIL \<Longrightarrow> valid_key k \<Longrightarrow> delete_returns stMalloc r k isFree m"
  shows "delete_returns stMalloc (TtreeNode h l r b items) k isFree m"
proof -
  have "\<forall>z\<in>set items. valid_rec z" using valid by simp
  then obtain i where i: "\<not> iDiff pfComp k (items ! 0) < 0"
    "iDiff pfComp k (items ! (length items - 1)) \<le> 0"
    "delete_scan (\<lambda>x. pfComp k x = 0) items 0 = Some i" "i < length items" "rk (items ! i) = rank k"
    using delete_locate [OF inv _ valid(2) found] by blast
  have pg: "pages l" "pages r" using inv by (auto simp: ttree_inv_def)
  have keyl: "valid_key (convert_cvalue (last (inorder l)))" if "l \<noteq> NIL"
    using that valid(1) convert_valid pg(1) by (simp add: inorder_NIL_iff)
  have keyr: "valid_key (convert_cvalue (hd (inorder r)))" if "r \<noteq> NIL"
    using that valid(1) convert_valid pg(2) by (simp add: inorder_NIL_iff)
  have small: "length items = 1 \<Longrightarrow> length items \<le> MIN_ITEMS" by (simp add: MIN_ITEMS_def PAGE_SIZE_def)
  consider (leaf_l) "length items = 1" "r = NIL" | (leaf_r) "length items = 1" "l = NIL" "r \<noteq> NIL"
    | (left) "\<not> (length items = 1 \<and> r = NIL)" "\<not> (length items = 1 \<and> l = NIL)"
        "length items \<le> MIN_ITEMS" "l \<noteq> NIL" "b \<le> 0"
    | (right) "\<not> (length items = 1 \<and> r = NIL)" "\<not> (length items = 1 \<and> l = NIL)"
        "length items \<le> MIN_ITEMS" "\<not> (l \<noteq> NIL \<and> b \<le> 0)" "r \<noteq> NIL"
    | (item) "length items \<noteq> 1" "\<not> (length items \<le> MIN_ITEMS \<and> l \<noteq> NIL \<and> b \<le> 0)"
        "\<not> (length items \<le> MIN_ITEMS \<and> r \<noteq> NIL)"
    using small by blast
  then show ?thesis
  proof cases
    case leaf_l
    then have "TtreeNode_Delete stMalloc pfComp convert_cvalue (TtreeNode h l r b items) k isFree m
        = Some (1, l, isFree, fst (Free_op stMalloc m h))"
      using i by (subst TtreeNode_Delete.simps) simp
    then show ?thesis using delete_here_leaf [OF inv i(4,5) leaf_l(1), of l] leaf_l
      by (simp add: delete_returns_def)
  next
    case leaf_r
    then have "TtreeNode_Delete stMalloc pfComp convert_cvalue (TtreeNode h l r b items) k isFree m
        = Some (1, r, isFree, fst (Free_op stMalloc m h))"
      using i by (subst TtreeNode_Delete.simps) simp
    then show ?thesis using delete_here_leaf [OF inv i(4,5) leaf_r(1), of r] leaf_r
      by (simp add: delete_returns_def)
  next
    case left
    let ?y = "last (inorder l)"
    have "TtreeNode_Delete stMalloc pfComp convert_cvalue (TtreeNode h l r b items) k isFree m =
        Option.bind (TtreeNode_Delete stMalloc pfComp convert_cvalue l (convert_cvalue ?y)
            (isFree \<or> length items = 1) m)
          (delete_from_left h r b (?y # remove_item items i))"
      using i left last_rightmost [OF left(4) pg(1)] by (subst TtreeNode_Delete.simps) auto
    then show ?thesis
      using delete_here_left [OF inv left(4) i(4,5) IHl [OF left(4) keyl [OF left(4)]]]
      by (simp add: delete_returns_def)
  next
    case right
    let ?y = "hd (inorder r)"
    have "TtreeNode_Delete stMalloc pfComp convert_cvalue (TtreeNode h l r b items) k isFree m =
        Option.bind (TtreeNode_Delete stMalloc pfComp convert_cvalue r (convert_cvalue ?y)
            (isFree \<or> length items = 1) m)
          (delete_from_right h l b (remove_item items i @ [?y]))"
      using i right hd_leftmost [OF right(5) pg(2)] by (subst TtreeNode_Delete.simps) auto
    then show ?thesis
      using delete_here_right [OF inv right(5) i(4,5) IHr [OF right(5) keyr [OF right(5)]]]
      by (simp add: delete_returns_def)
  next
    case item
    then have "TtreeNode_Delete stMalloc pfComp convert_cvalue (TtreeNode h l r b items) k isFree m =
        Some (0, TtreeNode h l r b (remove_item items i), isFree, m)"
      using i by (subst TtreeNode_Delete.simps) auto
    then show ?thesis using delete_here_item [OF inv i(4,5) item(1)] by (simp add: delete_returns_def)
  qed
qed

lemma delete_in_left:
  assumes inv: "ttree_inv rk (TtreeNode h l r b items)" and ne: "l \<noteq> NIL"
    and less: "iDiff pfComp k (items ! 0) < 0" and found: "rank k \<in> rk ` set (inorder l)"
    and IH: "delete_returns stMalloc l k isFree m"
  shows "delete_returns stMalloc (TtreeNode h l r b items) k isFree m"
proof -
  let ?t = "TtreeNode h l r b items"
  from delete_removed [OF IH found] obtain iRet l' f' m' where l':
    "TtreeNode_Delete stMalloc pfComp convert_cvalue l k isFree m = Some (iRet, l', f', m')"
    "iRet \<in> {0, 1}" "ttree_inv rk l'" "int (height l') = int (height l) - iRet"
    "set (inorder l') = {z \<in> set (inorder l). rk z \<noteq> rank k}" "freed stMalloc l m l' m'" .
  have ord: "ordered rk (inorder l' @ items @ inorder r)" "ordered rk ([] @ inorder l @ items @ inorder r)"
    and pg: "items \<noteq> []" "length items \<le> PAGE_SIZE"
    using inv l'(3,5) by (auto simp: ttree_inv_def)
  obtain u where "u \<in> set (inorder l)" "rk u = rank k" using found by auto
  then have other: "\<forall>z\<in>set (items @ inorder r). rk z \<noteq> rank k"
    using ordered_elsewhere(2) [OF ord(2)] by metis
  obtain iRet' t' where t':
    "delete_from_left h r b items (iRet, l', f', m') = Some (iRet', t', f', m')"
    "iRet' \<in> {0, 1}" "ttree_inv rk t'" "int (height t') = int (height ?t) - iRet'"
    "inorder t' = inorder l' @ items @ inorder r" "freed stMalloc ?t m t' m'"
    using delete_from_left_node [OF inv l'(3,4,2,6) ord(1) pg] by blast
  have "TtreeNode_Delete stMalloc pfComp convert_cvalue ?t k isFree m = Some (iRet', t', f', m')"
    using t'(1) l'(1,2) less ne
    by (subst TtreeNode_Delete.simps) (auto simp: delete_after_left_def delete_from_left_def)
  moreover have "set (inorder t') = {z \<in> set (inorder ?t). rk z \<noteq> rank k}"
    "rank k \<in> rk ` set (inorder ?t)"
    using other found l'(5) unfolding t'(5) by auto
  ultimately show ?thesis using t'(2-4,6) by (simp add: delete_returns_def delete_spec_def)
qed

lemma delete_in_right:
  assumes inv: "ttree_inv rk (TtreeNode h l r b items)" and ne: "r \<noteq> NIL"
    and not_here: "rank k \<notin> rk ` set (inorder l)" "rank k \<notin> rk ` set items"
    and eq: "TtreeNode_Delete stMalloc pfComp convert_cvalue (TtreeNode h l r b items) k isFree m =
      Option.bind (TtreeNode_Delete stMalloc pfComp convert_cvalue r k isFree m)
        (delete_from_right h l b items)"
    and IH: "delete_returns stMalloc r k isFree m"
  shows "delete_returns stMalloc (TtreeNode h l r b items) k isFree m"
proof (cases "rank k \<in> rk ` set (inorder r)")
  let ?t = "TtreeNode h l r b items"
  case True
  from delete_removed [OF IH True] obtain iRet r' f' m' where r':
    "TtreeNode_Delete stMalloc pfComp convert_cvalue r k isFree m = Some (iRet, r', f', m')"
    "iRet \<in> {0, 1}" "ttree_inv rk r'" "int (height r') = int (height r) - iRet"
    "set (inorder r') = {z \<in> set (inorder r). rk z \<noteq> rank k}" "freed stMalloc r m r' m'" .
  have ord: "ordered rk (inorder l @ items @ inorder r')"
    and pg: "items \<noteq> []" "length items \<le> PAGE_SIZE"
    using inv r'(3,5) by (auto simp: ttree_inv_def)
  obtain iRet' t' where t':
    "delete_from_right h l b items (iRet, r', f', m') = Some (iRet', t', f', m')"
    "iRet' \<in> {0, 1}" "ttree_inv rk t'" "int (height t') = int (height ?t) - iRet'"
    "inorder t' = inorder l @ items @ inorder r'" "freed stMalloc ?t m t' m'"
    using delete_from_right_node [OF inv r'(3,4,2,6) ord(1) pg] by blast
  have "\<forall>z\<in>set (inorder l) \<union> set items. rk z \<noteq> rank k" using not_here by (metis UnE imageI)
  then have "set (inorder t') = {z \<in> set (inorder ?t). rk z \<noteq> rank k}"
    using r'(5) unfolding t'(5) by auto
  moreover have "rank k \<in> rk ` set (inorder ?t)" using True by (simp add: image_Un)
  ultimately show ?thesis
    using t'(1-4,6) r'(1) by (simp add: eq delete_returns_def delete_spec_def)
next
  case False
  then have "TtreeNode_Delete stMalloc pfComp convert_cvalue r k isFree m = Some (-1, r, isFree, m)"
    using IH unfolding delete_returns_def delete_spec_def by (auto split: prod.splits)
  then show ?thesis
    using not_here False
    by (simp add: eq delete_returns_def delete_spec_def delete_from_right_def image_Un)
qed

lemma delete_not_here:
  assumes inv: "ttree_inv rk (TtreeNode h l r b items)"
    and valid: "\<forall>z\<in>set items. valid_rec z" "valid_key k"
    and not_here: "rank k \<notin> rk ` set (inorder l)" "rank k \<notin> rk ` set items"
    and IHl: "l \<noteq> NIL \<Longrightarrow> delete_returns stMalloc l k isFree m"
  shows "TtreeNode_Delete stMalloc pfComp convert_cvalue (TtreeNode h l r b items) k isFree m =
    (if r \<noteq> NIL then Option.bind (TtreeNode_Delete stMalloc pfComp convert_cvalue r k isFree m)
        (delete_from_right h l b items)
     else Some (-1, TtreeNode h l r b items, isFree, m))"
proof -
  have scan: "delete_scan (\<lambda>x. pfComp k x = 0) items 0 = None"
    using not_here(2) comp_eq_wide valid unfolding delete_scan_None by auto
  have left: "TtreeNode_Delete stMalloc pfComp convert_cvalue l k isFree m = Some (-1, l, isFree, m)"
    if "l \<noteq> NIL"
    using IHl [OF that] not_here(1) unfolding delete_returns_def delete_spec_def
    by (auto split: prod.splits)
  show ?thesis
    by (subst TtreeNode_Delete.simps) (auto simp: scan left delete_after_left_def)
qed

theorem delete_node_returns:
  "ttree_inv rk t \<Longrightarrow> t \<noteq> NIL \<Longrightarrow> \<forall>z\<in>set (inorder t). valid_rec z \<Longrightarrow> valid_key k \<Longrightarrow>
   delete_returns stMalloc t k isFree m"
proof (induction t arbitrary: k isFree m)
  case NIL
  then show ?case by simp
next
  case (TtreeNode h l r b items)
  have sub: "ttree_inv rk l" "ttree_inv rk r" and items: "items \<noteq> []"
    using TtreeNode.prems(1) by (auto simp: ttree_inv_def)
  have valid: "\<forall>z\<in>set items. valid_rec z" using TtreeNode.prems by auto
  have IHl: "delete_returns stMalloc l k isFree m" if "l \<noteq> NIL" "valid_key k" for k isFree m
    using TtreeNode.IH(1) TtreeNode.prems(3) sub that by auto
  have IHr: "delete_returns stMalloc r k isFree m" if "r \<noteq> NIL" "valid_key k" for k isFree m
    using TtreeNode.IH(2) TtreeNode.prems(3) sub that by auto
  note k = TtreeNode.prems(4)
  consider (here) "rank k \<in> rk ` set items" | (left) "rank k \<in> rk ` set (inorder l)"
    | (other) "rank k \<notin> rk ` set (inorder l)" "rank k \<notin> rk ` set items" by blast
  then show ?case
  proof cases
    case here
    then show ?thesis
      by (rule delete_here [OF TtreeNode.prems(1,3) k]) (rule IHl IHr, assumption+)+
  next
    case left
    have mem: "items ! 0 \<in> set items" using items by simp
    then have "rank k < rk (items ! 0)" using TtreeNode.prems(1) left by (auto simp: ttree_inv_def)
    then have less: "iDiff pfComp k (items ! 0) < 0" using comp_less k valid mem by auto
    have ne: "l \<noteq> NIL" using left by auto
    show ?thesis by (rule delete_in_left [OF TtreeNode.prems(1) ne less left IHl [OF ne k]])
  next
    case other
    note eq = delete_not_here [OF TtreeNode.prems(1) valid k other IHl [OF _ k]]
    show ?thesis
    proof (cases "r = NIL")
      case True
      then show ?thesis using eq other by (simp add: delete_returns_def delete_spec_def image_Un)
    next
      case False
      then show ?thesis
        by (intro delete_in_right [OF TtreeNode.prems(1) False other _ IHr [OF _ k]])
          (simp_all add: eq)
    qed
  qed
qed

end

end
