(* ===== verification/TTree_Traverse.thy ===== *)
theory TTree_Traverse
  imports TTree_Delete
begin

text \<open>
  Lookups and traversals of the T-tree: a lookup finds the record with the key and only
  that, and a traversal calls the visitor on the records of its range, in its order, up to
  the first call that returns something other than 0.
\<close>

section \<open>Visiting lists\<close>

abbreviation visit_all :: "'c visitor \<Rightarrow> handle list \<Rightarrow> 'c \<Rightarrow> int \<times> 'c" where
  "visit_all pfVisit xs c \<equiv> visit_items pfVisit (\<lambda>_. True) xs c"

lemma and_then_0 [simp]: "and_then (0, c) f = f c"
  by (simp add: and_then_def)

lemma and_then_return [simp]: "and_then res (\<lambda>c. (0, c)) = res"
  by (cases res) (simp add: and_then_def)

lemma and_then_assoc: "and_then (and_then res f) g = and_then res (\<lambda>c. and_then (f c) g)"
  by (simp add: and_then_def)

lemma visit_all_append:
  "visit_all pfVisit (xs @ ys) c = and_then (visit_all pfVisit xs c) (visit_all pfVisit ys)"
  by (induction xs arbitrary: c) (simp_all add: and_then_def)

lemma visit_items_filter: "visit_items pfVisit P xs c = visit_all pfVisit (filter P xs) c"
  by (induction xs arbitrary: c) (simp_all add: and_then_def)

text \<open>The two orders of the post-order traversals.\<close>

fun postorder :: "ttree \<Rightarrow> handle list" where
  "postorder NIL = []"
| "postorder (TtreeNode h l r b items) = postorder r @ postorder l @ rev items"

fun postorder_left :: "ttree \<Rightarrow> handle list" where
  "postorder_left NIL = []"
| "postorder_left (TtreeNode h l r b items) = postorder_left l @ postorder_left r @ items"

lemma set_postorder [simp]: "set (postorder t) = set (inorder t)" "set (postorder_left t) = set (inorder t)"
  by (induction t) auto

lemma traverse_forward_visits: "traverse_forward pfVisit t c = visit_all pfVisit (inorder t) c"
  by (induction t arbitrary: c) (auto simp: visit_all_append and_then_def)

lemma traverse_backward_visits: "traverse_backward pfVisit t c = visit_all pfVisit (rev (inorder t)) c"
  by (induction t arbitrary: c) (auto simp: visit_all_append and_then_assoc and_then_def)

lemma post_order_visits: "post_order_traverse pfVisit t c = visit_all pfVisit (postorder t) c"
  by (induction t arbitrary: c) (auto simp: visit_all_append and_then_assoc and_then_def)

lemma find_handle_iff: "pages t \<Longrightarrow> TtreeNode_find_handle x t = (if x \<in> set (inorder t) then 1 else 0)"
  by (induction t) auto

section \<open>Lookup and ranges\<close>

lemma find_bsearch_spec:
  assumes ord: "ordered rk items"
    and diff: "\<And>x. x \<in> set items \<Longrightarrow> (diff x < 0 \<longleftrightarrow> k < rk x) \<and> (diff x = 0 \<longleftrightarrow> k = rk x)"
    and "iLeft \<le> iRight" "iRight < length items"
    and "\<And>i. i < iLeft \<Longrightarrow> rk (items ! i) < k" "k < rk (items ! iRight)"
  shows "case find_bsearch diff items iLeft iRight of
       None \<Rightarrow> k \<notin> rk ` set items
     | Some i \<Rightarrow> i < length items \<and> rk (items ! i) = k"
  using assms(3-)
proof (induction "iRight - iLeft" arbitrary: iLeft iRight rule: less_induct)
  case less
  let ?i = "(iLeft + iRight) div 2"
  show ?case
  proof (cases "iLeft < iRight")
    case False
    then have "iLeft = iRight" using less.prems(1) by simp
    have "k \<noteq> rk (items ! i)" if "i < length items" for i
    proof (cases "i < iLeft")
      case True
      then show ?thesis using less.prems(3) by fastforce
    next
      case False
      then have "rk (items ! iRight) \<le> rk (items ! i)"
        using ordered_nth_le [OF ord, of iRight i] that \<open>iLeft = iRight\<close> by simp
      then show ?thesis using less.prems(4) by auto
    qed
    then have "k \<notin> rk ` set items" by (metis imageE in_set_conv_nth)
    then show ?thesis using False by (simp add: find_bsearch.simps)
  next
    case True
    then have i: "iLeft \<le> ?i" "?i < iRight" "?i < length items" using less.prems(2) by auto
    then have d: "(diff (items ! ?i) < 0 \<longleftrightarrow> k < rk (items ! ?i)) \<and> (diff (items ! ?i) = 0 \<longleftrightarrow> k = rk (items ! ?i))"
      using diff by simp
    consider "k = rk (items ! ?i)" | "k < rk (items ! ?i)" | "rk (items ! ?i) < k" by (rule linorder_cases)
    then show ?thesis
    proof cases
      case 1
      then show ?thesis using True d i by (subst find_bsearch.simps) (simp add: Let_def)
    next
      case 2
      then have "find_bsearch diff items iLeft iRight = find_bsearch diff items iLeft ?i"
        using True d by (subst find_bsearch.simps) (auto simp: Let_def)
      then show ?thesis using less.hyps [of ?i iLeft] less.prems(3) i 2 by simp
    next
      case 3
      have "rk (items ! j) < k" if "j < ?i + 1" for j
        using ordered_nth_le [OF ord, of j ?i] that i(3) 3 by simp
      moreover have "find_bsearch diff items iLeft iRight = find_bsearch diff items (?i + 1) iRight"
        using True d 3 by (subst find_bsearch.simps) (auto simp: Let_def)
      ultimately show ?thesis using less.hyps [of iRight "?i + 1"] less.prems(2,4) i by simp
    qed
  qed
qed

context key_order
begin

abbreviation valid_tree :: "ttree \<Rightarrow> bool" where
  "valid_tree t \<equiv> ttree_inv rk t \<and> (\<forall>z\<in>set (inorder t). valid_rec z)"

text \<open>What the tests of a node's first and last record decide.\<close>

lemma node_facts:
  assumes "valid_tree (TtreeNode h l r b items)"
  shows "items \<noteq> []" "valid_tree l" "valid_tree r"
    "items ! 0 \<in> set items" "items ! (length items - 1) \<in> set items"
    "valid_rec (items ! 0)" "valid_rec (items ! (length items - 1))" "ordered rk items"
proof -
  show ne: "items \<noteq> []" and "valid_tree l" "valid_tree r" "ordered rk items"
    using assms by (auto simp: ttree_inv_def)
  then show mem: "items ! 0 \<in> set items" "items ! (length items - 1) \<in> set items" by auto
  then show "valid_rec (items ! 0)" "valid_rec (items ! (length items - 1))" using assms by auto
qed

lemma node_order:
  assumes "valid_tree (TtreeNode h l r b items)"
  shows "x \<in> set (inorder l) \<Longrightarrow> rk x < rk (items ! 0)"
    "x \<in> set (inorder r) \<Longrightarrow> rk (items ! (length items - 1)) < rk x"
    "x \<in> set items \<Longrightarrow> rk (items ! 0) \<le> rk x"
    "x \<in> set items \<Longrightarrow> rk x \<le> rk (items ! (length items - 1))"
  using assms node_facts(4,5) [OF assms] ordered_hd_le [of rk items x] ordered_le_last [of rk items x]
  by (auto simp: ttree_inv_def)

theorem find_slot_spec:
  assumes "valid_tree t" "valid_key k"
  shows "(\<exists>h i x. TtreeNode_do_find_slot pfComp k t = (1, Some (h, i, x))
            \<and> h \<in># node_handles t \<and> x \<in> set (inorder t) \<and> rk x = rank k)
       \<or> TtreeNode_do_find_slot pfComp k t = (0, None) \<and> rank k \<notin> rk ` set (inorder t)"
  using assms(1)
proof (induction t)
  case NIL
  then show ?case by simp
next
  case (TtreeNode h l r b items)
  note nf = node_facts [OF TtreeNode.prems] and no = node_order [OF TtreeNode.prems]
  let ?first = "items ! 0" and ?last = "items ! (length items - 1)"
  note cf = comp [OF assms(2) nf(6)] and cl = comp [OF assms(2) nf(7)]
  consider (first) "rank k = rk ?first" | (low) "rank k < rk ?first" | (lst) "rank k = rk ?last" "rk ?first < rank k"
    | (high) "rk ?last < rank k" "rk ?first < rank k" | (mid) "rk ?first < rank k" "rank k < rk ?last"
    by (metis less_linear)
  then show ?case
  proof cases
    case first
    then show ?thesis using nf cf by auto
  next
    case low
    have "rank k \<noteq> rk x" if "x \<in> set items \<union> set (inorder r)" for x
      using that low no(2,3) [of x] nf(4) no(4) [of ?first] by fastforce
    then show ?thesis using low nf cf TtreeNode.IH(1) by auto
  next
    case lst
    then show ?thesis using nf cf cl by auto
  next
    case high
    have "rank k \<noteq> rk x" if "x \<in> set items \<union> set (inorder l)" for x
      using that high no(1,4) [of x] nf(4) by fastforce
    then show ?thesis using high nf cf cl TtreeNode.IH(2) by auto
  next
    case mid
    let ?s = "find_bsearch (iDiff pfComp k) items 1 (length items - 1)"
    have len: "1 \<le> length items - 1"
      using mid nf(1) by (cases items) (auto simp: Suc_le_eq)
    have s: "case ?s of None \<Rightarrow> rank k \<notin> rk ` set items | Some i \<Rightarrow> i < length items \<and> rk (items ! i) = rank k"
    proof (rule find_bsearch_spec [OF nf(8)])
      show "(iDiff pfComp k z < 0 \<longleftrightarrow> rank k < rk z) \<and> (iDiff pfComp k z = 0 \<longleftrightarrow> rank k = rk z)"
        if "z \<in> set items" for z using that comp(1,2) [OF assms(2)] TtreeNode.prems by auto
    qed (use len mid nf(1) in \<open>simp_all\<close>)
    have "rank k \<noteq> rk x" if "x \<in> set (inorder l) \<union> set (inorder r)" for x
      using that mid no(1,2) [of x] by fastforce
    then show ?thesis using s mid nf cf cl by (cases ?s) auto
  qed
qed

end

context key_order
begin

lemma node_range:
  assumes "valid_tree (TtreeNode h l r b items)" "valid_key k"
  shows "0 \<le> iDiff pfComp k (items ! 0) \<Longrightarrow> \<forall>x\<in>set (inorder l). rk x < rank k"
    "iDiff pfComp k (items ! (length items - 1)) \<le> 0 \<Longrightarrow> \<forall>x\<in>set (inorder r). rank k < rk x"
    "iDiff pfComp k (items ! 0) < 0 \<Longrightarrow> \<forall>x\<in>set items. rank k < rk x"
    "0 < iDiff pfComp k (items ! (length items - 1)) \<Longrightarrow> \<forall>x\<in>set items. rk x < rank k"
proof -
  note no = node_order [OF assms(1)]
  note cf = comp [OF assms(2) node_facts(6) [OF assms(1)]]
  note cl = comp [OF assms(2) node_facts(7) [OF assms(1)]]
  show "\<forall>x\<in>set (inorder l). rk x < rank k" if "0 \<le> iDiff pfComp k (items ! 0)"
    using that cf(6) no(1) less_le_trans by blast
  show "\<forall>x\<in>set (inorder r). rank k < rk x" if "iDiff pfComp k (items ! (length items - 1)) \<le> 0"
    using that cl(5) no(2) le_less_trans by blast
  show "\<forall>x\<in>set items. rank k < rk x" if "iDiff pfComp k (items ! 0) < 0"
    using that cf(1) no(3) less_le_trans by blast
  show "\<forall>x\<in>set items. rk x < rank k" if "0 < iDiff pfComp k (items ! (length items - 1))"
    using that cl(4) no(4) le_less_trans by blast
qed

lemma node_tests:
  assumes "valid_tree (TtreeNode h l r b items)" "valid_key k" "x \<in> set items"
  shows "iDiff pfComp k x \<le> 0 \<longleftrightarrow> rank k \<le> rk x" "iDiff pfComp k x \<ge> 0 \<longleftrightarrow> rk x \<le> rank k"
proof -
  have "valid_rec x" using assms(1,3) by simp
  then show "iDiff pfComp k x \<le> 0 \<longleftrightarrow> rank k \<le> rk x" "iDiff pfComp k x \<ge> 0 \<longleftrightarrow> rk x \<le> rank k"
    by (rule comp(5,6) [OF assms(2)])+
qed

lemma visit_items_cong:
  "(\<And>x. x \<in> set xs \<Longrightarrow> P x = Q x) \<Longrightarrow> visit_items pfVisit P xs c = visit_all pfVisit (filter Q xs) c"
  unfolding visit_items_filter [of pfVisit P] by (simp cong: filter_cong)

lemma filter_outside:
  "\<forall>x\<in>set xs. rk x < rank k \<Longrightarrow> filter (\<lambda>x. rank k \<le> rk x) xs = []"
  "\<forall>x\<in>set xs. rank k < rk x \<Longrightarrow> filter (\<lambda>x. rk x \<le> rank k) xs = []"
  "\<forall>x\<in>set xs. rk x < rank k \<Longrightarrow> filter (\<lambda>x. rank k \<le> rk x \<and> rk x \<le> rank k1) xs = []"
  "\<forall>x\<in>set xs. rank k1 < rk x \<Longrightarrow> filter (\<lambda>x. rank k \<le> rk x \<and> rk x \<le> rank k1) xs = []"
  by (auto simp: filter_empty_conv)

theorem forward_range_visits:
  assumes "valid_key k" "valid_key k1"
  shows "valid_tree t \<Longrightarrow> traverse_forward_range pfVisit pfComp k k1 t c =
     visit_all pfVisit (filter (\<lambda>x. rank k \<le> rk x \<and> rk x \<le> rank k1) (inorder t)) c"
proof (induction t arbitrary: c)
  case NIL
  then show ?case by simp
next
  case (TtreeNode h l r b items)
  let ?P = "\<lambda>x. rank k \<le> rk x \<and> rk x \<le> rank k1"
  note nf = node_facts [OF TtreeNode.prems]
  note nr = node_range [OF TtreeNode.prems assms(1)] node_range [OF TtreeNode.prems assms(2)]
  note nt = node_tests [OF TtreeNode.prems assms(1)] node_tests [OF TtreeNode.prems assms(2)]
  have l: "(if l \<noteq> NIL \<and> iDiff pfComp k (items ! 0) < 0 then traverse_forward_range pfVisit pfComp k k1 l c else (0, c)) =
      visit_all pfVisit (filter ?P (inorder l)) c" for c
    using TtreeNode.IH(1) [OF nf(2)] nr(1) by (auto simp: filter_outside not_less not_le)
  have i: "(if iDiff pfComp k1 (items ! 0) < 0 \<or> iDiff pfComp k (items ! (length items - 1)) > 0 then (0, c) else visit_items pfVisit (\<lambda>x. iDiff pfComp k x \<le> 0 \<and> iDiff pfComp k1 x \<ge> 0) items c) = visit_all pfVisit (filter ?P items) c" for c
    using nr(4,7) visit_items_cong [of "items" _ ?P pfVisit c] nt by (auto simp: filter_outside not_less not_le)
  have r: "(if iDiff pfComp k1 (items ! (length items - 1)) \<ge> 0 \<and> r \<noteq> NIL then traverse_forward_range pfVisit pfComp k k1 r c else (0, c)) =
      visit_all pfVisit (filter ?P (inorder r)) c" for c
    using TtreeNode.IH(2) [OF nf(3)] nr(6) by (auto simp: filter_outside not_less not_le)
  show ?case
    by (simp only: traverse_forward_range.simps inorder.simps filter_append visit_all_append and_then_assoc l i r)
qed

theorem forward_ge_visits:
  assumes "valid_key k"
  shows "valid_tree t \<Longrightarrow> traverse_forward_ge pfVisit pfComp k t c =
     visit_all pfVisit (filter (\<lambda>x. rank k \<le> rk x) (inorder t)) c"
proof (induction t arbitrary: c)
  case NIL
  then show ?case by simp
next
  case (TtreeNode h l r b items)
  let ?P = "\<lambda>x. rank k \<le> rk x"
  note nf = node_facts [OF TtreeNode.prems]
  note nr = node_range [OF TtreeNode.prems assms]
  note nt = node_tests [OF TtreeNode.prems assms]
  have l: "(if l \<noteq> NIL \<and> iDiff pfComp k (items ! 0) < 0 then traverse_forward_ge pfVisit pfComp k l c else (0, c)) =
      visit_all pfVisit (filter ?P (inorder l)) c" for c
    using TtreeNode.IH(1) [OF nf(2)] nr(1) by (auto simp: filter_outside not_less not_le)
  have i: "(if iDiff pfComp k (items ! (length items - 1)) \<le> 0 then visit_items pfVisit (\<lambda>x. iDiff pfComp k x \<le> 0) items c else (0, c)) = visit_all pfVisit (filter ?P items) c" for c
    using nr(4) visit_items_cong [of "items" _ ?P pfVisit c] nt by (auto simp: filter_outside not_less not_le)
  have r: "(if r \<noteq> NIL then traverse_forward_ge pfVisit pfComp k r c else (0, c)) =
      visit_all pfVisit (filter ?P (inorder r)) c" for c
    using TtreeNode.IH(2) [OF nf(3)] by (auto simp: filter_outside not_less not_le)
  show ?case
    by (simp only: traverse_forward_ge.simps inorder.simps filter_append visit_all_append and_then_assoc l i r)
qed

theorem backward_range_visits:
  assumes "valid_key k" "valid_key k1"
  shows "valid_tree t \<Longrightarrow> traverse_backward_range pfVisit pfComp k k1 t c =
     visit_all pfVisit (filter (\<lambda>x. rank k \<le> rk x \<and> rk x \<le> rank k1) (rev (inorder t))) c"
proof (induction t arbitrary: c)
  case NIL
  then show ?case by simp
next
  case (TtreeNode h l r b items)
  let ?P = "\<lambda>x. rank k \<le> rk x \<and> rk x \<le> rank k1"
  note nf = node_facts [OF TtreeNode.prems]
  note nr = node_range [OF TtreeNode.prems assms(1)] node_range [OF TtreeNode.prems assms(2)]
  note nt = node_tests [OF TtreeNode.prems assms(1)] node_tests [OF TtreeNode.prems assms(2)]
  have l: "(if iDiff pfComp k (items ! 0) \<le> 0 \<and> l \<noteq> NIL then traverse_backward_range pfVisit pfComp k k1 l c else (0, c)) =
      visit_all pfVisit (filter ?P (rev (inorder l))) c" for c
    using TtreeNode.IH(1) [OF nf(2)] nr(1) by (auto simp: filter_outside not_less not_le)
  have i: "(if iDiff pfComp k1 (items ! 0) < 0 \<or> iDiff pfComp k (items ! (length items - 1)) > 0 then (0, c) else visit_items pfVisit (\<lambda>x. iDiff pfComp k x \<le> 0 \<and> iDiff pfComp k1 x \<ge> 0) (rev items) c) = visit_all pfVisit (filter ?P (rev items)) c" for c
    using nr(4,7) visit_items_cong [of "rev items" _ ?P pfVisit c] nt by (auto simp: filter_outside not_less not_le)
  have r: "(if r \<noteq> NIL \<and> iDiff pfComp k1 (items ! (length items - 1)) > 0 then traverse_backward_range pfVisit pfComp k k1 r c else (0, c)) =
      visit_all pfVisit (filter ?P (rev (inorder r))) c" for c
    using TtreeNode.IH(2) [OF nf(3)] nr(6) by (auto simp: filter_outside not_less not_le)
  show ?case
    by (simp only: traverse_backward_range.simps inorder.simps rev_append append_assoc filter_append visit_all_append and_then_assoc l i r)
qed

theorem backward_le_visits:
  assumes "valid_key k"
  shows "valid_tree t \<Longrightarrow> traverse_backward_le pfVisit pfComp k t c =
     visit_all pfVisit (filter (\<lambda>x. rk x \<le> rank k) (rev (inorder t))) c"
proof (induction t arbitrary: c)
  case NIL
  then show ?case by simp
next
  case (TtreeNode h l r b items)
  let ?P = "\<lambda>x. rk x \<le> rank k"
  note nf = node_facts [OF TtreeNode.prems]
  note nr = node_range [OF TtreeNode.prems assms]
  note nt = node_tests [OF TtreeNode.prems assms]
  have l: "(if l \<noteq> NIL then traverse_backward_le pfVisit pfComp k l c else (0, c)) =
      visit_all pfVisit (filter ?P (rev (inorder l))) c" for c
    using TtreeNode.IH(1) [OF nf(2)] by (auto simp: filter_outside not_less not_le)
  have i: "(if iDiff pfComp k (items ! 0) \<ge> 0 then visit_items pfVisit (\<lambda>x. iDiff pfComp k x \<ge> 0) (rev items) c else (0, c)) = visit_all pfVisit (filter ?P (rev items)) c" for c
    using nr(3) visit_items_cong [of "rev items" _ ?P pfVisit c] nt by (auto simp: filter_outside not_less not_le)
  have r: "(if r \<noteq> NIL \<and> iDiff pfComp k (items ! (length items - 1)) > 0 then traverse_backward_le pfVisit pfComp k r c else (0, c)) =
      visit_all pfVisit (filter ?P (rev (inorder r))) c" for c
    using TtreeNode.IH(2) [OF nf(3)] nr(2) by (auto simp: filter_outside not_less not_le)
  show ?case
    by (simp only: traverse_backward_le.simps inorder.simps rev_append append_assoc filter_append visit_all_append and_then_assoc l i r)
qed

theorem post_range_visits:
  assumes "valid_key k" "valid_key k1"
  shows "valid_tree t \<Longrightarrow> post_order_traverse_range pfVisit pfComp k k1 t c =
     visit_all pfVisit (filter (\<lambda>x. rank k \<le> rk x \<and> rk x \<le> rank k1) (postorder_left t)) c"
proof (induction t arbitrary: c)
  case NIL
  then show ?case by simp
next
  case (TtreeNode h l r b items)
  let ?P = "\<lambda>x. rank k \<le> rk x \<and> rk x \<le> rank k1"
  note nf = node_facts [OF TtreeNode.prems]
  note nr = node_range [OF TtreeNode.prems assms(1)] node_range [OF TtreeNode.prems assms(2)]
  note nt = node_tests [OF TtreeNode.prems assms(1)] node_tests [OF TtreeNode.prems assms(2)]
  have l: "(if l \<noteq> NIL \<and> iDiff pfComp k (items ! 0) < 0 then post_order_traverse_range pfVisit pfComp k k1 l c else (0, c)) =
      visit_all pfVisit (filter ?P (postorder_left l)) c" for c
    using TtreeNode.IH(1) [OF nf(2)] nr(1) by (auto simp: filter_outside not_less not_le)
  have i: "(if iDiff pfComp k1 (items ! 0) < 0 \<or> iDiff pfComp k (items ! (length items - 1)) > 0 then (0, c) else visit_items pfVisit (\<lambda>x. iDiff pfComp k x \<le> 0 \<and> iDiff pfComp k1 x \<ge> 0) items c) = visit_all pfVisit (filter ?P items) c" for c
    using nr(4,7) visit_items_cong [of "items" _ ?P pfVisit c] nt by (auto simp: filter_outside not_less not_le)
  have r: "(if iDiff pfComp k1 (items ! (length items - 1)) \<ge> 0 \<and> r \<noteq> NIL then post_order_traverse_range pfVisit pfComp k k1 r c else (0, c)) =
      visit_all pfVisit (filter ?P (postorder_left r)) c" for c
    using TtreeNode.IH(2) [OF nf(3)] nr(6) by (auto simp: filter_outside not_less not_le)
  show ?case
    by (simp only: post_order_traverse_range.simps postorder_left.simps filter_append visit_all_append and_then_assoc l i r)
qed

theorem post_ge_visits:
  assumes "valid_key k"
  shows "valid_tree t \<Longrightarrow> post_order_traverse_ge pfVisit pfComp k t c =
     visit_all pfVisit (filter (\<lambda>x. rank k \<le> rk x) (postorder_left t)) c"
proof (induction t arbitrary: c)
  case NIL
  then show ?case by simp
next
  case (TtreeNode h l r b items)
  let ?P = "\<lambda>x. rank k \<le> rk x"
  note nf = node_facts [OF TtreeNode.prems]
  note nr = node_range [OF TtreeNode.prems assms]
  note nt = node_tests [OF TtreeNode.prems assms]
  have l: "(if l \<noteq> NIL \<and> iDiff pfComp k (items ! 0) < 0 then post_order_traverse_ge pfVisit pfComp k l c else (0, c)) =
      visit_all pfVisit (filter ?P (postorder_left l)) c" for c
    using TtreeNode.IH(1) [OF nf(2)] nr(1) by (auto simp: filter_outside not_less not_le)
  have i: "(if iDiff pfComp k (items ! (length items - 1)) \<le> 0 then visit_items pfVisit (\<lambda>x. iDiff pfComp k x \<le> 0) items c else (0, c)) = visit_all pfVisit (filter ?P items) c" for c
    using nr(4) visit_items_cong [of "items" _ ?P pfVisit c] nt by (auto simp: filter_outside not_less not_le)
  have r: "(if r \<noteq> NIL then post_order_traverse_ge pfVisit pfComp k r c else (0, c)) =
      visit_all pfVisit (filter ?P (postorder_left r)) c" for c
    using TtreeNode.IH(2) [OF nf(3)] by (auto simp: filter_outside not_less not_le)
  show ?case
    by (simp only: post_order_traverse_ge.simps postorder_left.simps filter_append visit_all_append and_then_assoc l i r)
qed

theorem post_le_visits:
  assumes "valid_key k"
  shows "valid_tree t \<Longrightarrow> post_order_traverse_le pfVisit pfComp k t c =
     visit_all pfVisit (filter (\<lambda>x. rk x \<le> rank k) (postorder t)) c"
proof (induction t arbitrary: c)
  case NIL
  then show ?case by simp
next
  case (TtreeNode h l r b items)
  let ?P = "\<lambda>x. rk x \<le> rank k"
  note nf = node_facts [OF TtreeNode.prems]
  note nr = node_range [OF TtreeNode.prems assms]
  note nt = node_tests [OF TtreeNode.prems assms]
  have l: "(if l \<noteq> NIL then post_order_traverse_le pfVisit pfComp k l c else (0, c)) =
      visit_all pfVisit (filter ?P (postorder l)) c" for c
    using TtreeNode.IH(1) [OF nf(2)] by (auto simp: filter_outside not_less not_le)
  have i: "(if iDiff pfComp k (items ! 0) \<ge> 0 then visit_items pfVisit (\<lambda>x. iDiff pfComp k x \<ge> 0) (rev items) c else (0, c)) = visit_all pfVisit (filter ?P (rev items)) c" for c
    using nr(3) visit_items_cong [of "rev items" _ ?P pfVisit c] nt by (auto simp: filter_outside not_less not_le)
  have r: "(if r \<noteq> NIL \<and> iDiff pfComp k (items ! (length items - 1)) > 0 then post_order_traverse_le pfVisit pfComp k r c else (0, c)) =
      visit_all pfVisit (filter ?P (postorder r)) c" for c
    using TtreeNode.IH(2) [OF nf(3)] nr(2) by (auto simp: filter_outside not_less not_le)
  show ?case
    by (simp only: post_order_traverse_le.simps postorder.simps filter_append visit_all_append and_then_assoc l i r)
qed

end

section \<open>Traversal of an interval of distances\<close>

text \<open>
  \<open>iInclusion\<close> bounds the comparator's result itself, so the traversal relies on more than
  its sign: a greater record has a smaller result.
\<close>

locale key_distance = key_order +
  assumes comp_decreasing:
    "valid_key k \<Longrightarrow> valid_rec x \<Longrightarrow> valid_rec y \<Longrightarrow> rank (convert_cvalue x) < rank (convert_cvalue y) \<Longrightarrow>
     iDiff pfComp k y < iDiff pfComp k x"

lemma visit_inclusion_spec:
  assumes "sorted_wrt (\<lambda>x y. diff y < diff x) xs"
    and "visit_inclusion pfVisit diff n xs c = (res, atEnd)"
  shows "res = visit_all pfVisit (filter (\<lambda>x. diff x \<le> 0 \<and> diff x \<ge> 0 - n) xs) c
     \<and> (fst res = 0 \<longrightarrow> \<not> atEnd \<longrightarrow> (\<exists>x\<in>set xs. diff x < 0 - n))"
  using assms
proof (induction xs arbitrary: c)
  case Nil
  then show ?case by auto
next
  case (Cons x xs)
  show ?case
  proof (cases "diff x < 0 - n")
    case True
    then have none: "filter (\<lambda>x. diff x \<le> 0 \<and> diff x \<ge> 0 - n) xs = []"
      using Cons.prems(1) by (fastforce simp: filter_empty_conv)
    then show ?thesis using True Cons.prems(2) by auto
  next
    case False
    then show ?thesis using Cons by (auto simp: Let_def and_then_def split: if_splits)
  qed
qed

context key_distance
begin

lemma items_decreasing:
  assumes "ordered rk xs" "\<forall>x\<in>set xs. valid_rec x" "valid_key k"
  shows "sorted_wrt (\<lambda>x y. iDiff pfComp k y < iDiff pfComp k x) xs"
  using assms(1,2) unfolding ordered_def
  by (induction xs) (auto simp: comp_decreasing [OF assms(3)])

theorem forward_inclusion_visits:
  assumes k: "valid_key k"
  shows "valid_tree t \<Longrightarrow> traverse_forward_inclusion pfVisit pfComp k n t c =
     visit_all pfVisit (filter (\<lambda>x. iDiff pfComp k x \<le> 0 \<and> iDiff pfComp k x \<ge> 0 - n) (inorder t)) c"
proof (induction t arbitrary: c)
  case NIL
  then show ?case by simp
next
  case (TtreeNode h l r b items)
  let ?P = "\<lambda>x. iDiff pfComp k x \<le> 0 \<and> iDiff pfComp k x \<ge> 0 - n"
  let ?first = "items ! 0" and ?last = "items ! (length items - 1)"
  note nf = node_facts [OF TtreeNode.prems] and no = node_order [OF TtreeNode.prems]
  note nr = node_range [OF TtreeNode.prems k]
  have valid: "\<forall>x\<in>set (inorder l) \<union> set items \<union> set (inorder r). valid_rec x"
    using TtreeNode.prems by auto
  have l: "(if l \<noteq> NIL \<and> iDiff pfComp k ?first < 0
      then traverse_forward_inclusion pfVisit pfComp k n l c else (0, c)) =
      visit_all pfVisit (filter ?P (inorder l)) c" for c
  proof (cases "iDiff pfComp k ?first < 0")
    case False
    then have "\<forall>x\<in>set (inorder l). 0 < iDiff pfComp k x"
      using nr(1) comp(4) [OF k] valid by auto
    then have "filter ?P (inorder l) = []" by (auto simp: filter_empty_conv)
    then show ?thesis using False by simp
  qed (use TtreeNode.IH(1) [OF nf(2)] in auto)
  define mid where "mid c = (if iDiff pfComp k ?last \<le> 0
      then visit_inclusion pfVisit (iDiff pfComp k) n items c else ((0, c), True))" for c
  have mid: "fst (mid c) = visit_all pfVisit (filter ?P items) c
      \<and> (fst (fst (mid c)) = 0 \<longrightarrow> \<not> snd (mid c) \<longrightarrow> (\<exists>x\<in>set items. iDiff pfComp k x < 0 - n))" for c
  proof (cases "iDiff pfComp k ?last \<le> 0")
    case True
    then show ?thesis
      using visit_inclusion_spec [OF items_decreasing [OF nf(8) _ k], of pfVisit n c "fst (mid c)" "snd (mid c)"]
        valid by (simp add: mid_def)
  next
    case False
    then have "\<forall>x\<in>set items. 0 < iDiff pfComp k x" using nr(4) comp(4) [OF k] valid by auto
    then have "filter ?P items = []" by (auto simp: filter_empty_conv)
    then show ?thesis using False by (simp add: mid_def)
  qed
  have r: "(if snd (mid c) \<and> r \<noteq> NIL then traverse_forward_inclusion pfVisit pfComp k n r c' else (0, c')) =
      visit_all pfVisit (filter ?P (inorder r)) c'" if "fst (fst (mid c)) = 0" for c c'
  proof (cases "snd (mid c)")
    case False
    then obtain x where x: "x \<in> set items" "iDiff pfComp k x < 0 - n" using mid [of c] \<open>fst (fst (mid c)) = 0\<close> by blast
    have "iDiff pfComp k y < 0 - n" if "y \<in> set (inorder r)" for y
    proof -
      have "rk x < rk y" using no(4) [OF x(1)] no(2) [OF that] by simp
      then show ?thesis using comp_decreasing [OF k, of x y] valid x that by auto
    qed
    then have "filter ?P (inorder r) = []" by (fastforce simp: filter_empty_conv)
    then show ?thesis using False by simp
  qed (use TtreeNode.IH(2) [OF nf(3)] in auto)
  have "traverse_forward_inclusion pfVisit pfComp k n (TtreeNode h l r b items) c =
      and_then (visit_all pfVisit (filter ?P (inorder l)) c) (\<lambda>c. and_then (fst (mid c)) (\<lambda>c'.
        if snd (mid c) \<and> r \<noteq> NIL then traverse_forward_inclusion pfVisit pfComp k n r c' else (0, c')))"
    by (simp only: traverse_forward_inclusion.simps l) (simp add: mid_def case_prod_beta Let_def)
  also have "\<dots> = visit_all pfVisit (filter ?P (inorder (TtreeNode h l r b items))) c"
    using mid r by (auto simp: visit_all_append and_then_def)
  finally show ?case .
qed

end

end
