(* ===== verification/TTree_Map.thy ===== *)
theory TTree_Map
  imports TTree_Traverse
begin

text \<open>
  What a T-tree is to its callers: the memory it gives back when it is destroyed, the
  bound on its height, and the finite map from keys to records that it stands for.
\<close>

section \<open>Destruction and size\<close>

text \<open>The order in which \<open>destory\<close> frees: the records of a node, the node, its branches.\<close>

fun destroy_order :: "ttree \<Rightarrow> handle list" where
  "destroy_order NIL = []"
| "destroy_order (TtreeNode h l r b items) = items @ h # destroy_order l @ destroy_order r"

lemma free_items_fold: "free_items stMalloc xs m = fold (\<lambda>x m. fst (Free_op stMalloc m x)) xs m"
  by (induction xs arbitrary: m) auto

lemma destory_fold:
  "TtreeNode_destory stMalloc t m = fold (\<lambda>x m. fst (Free_op stMalloc m x)) (destroy_order t) m"
  by (induction t arbitrary: m) (auto simp: free_items_fold)

lemma mset_destroy_order: "mset (destroy_order t) = mset (inorder t) + node_handles t"
  by (induction t) auto

lemma u32_add [simp]: "u32 (u32 a + b) = u32 (a + b)" "u32 (a + u32 b) = u32 (a + b)"
  by (simp_all add: u32_def mod_simps)

lemma u32_sum4: "u32 (u32 (u32 (u32 a + b) + u32 c) + u32 d) = u32 (a + b + c + d)"
  by (simp only: u32_def mod_add_left_eq mod_add_right_eq)

lemma fold_u32_sum: "u32 s = s \<Longrightarrow> fold (\<lambda>x size. u32 (size + f x)) xs s = u32 (s + sum_list (map f xs))"
  by (induction xs arbitrary: s) (simp_all add: add.assoc)

lemma ask_for_destroy_size_sum:
  "TtreeNode_ask_for_destroy_size stMalloc m t
     = u32 (sum_mset (image_mset (chunk_size_op stMalloc m) (mset (inorder t) + node_handles t)))"
proof (induction t)
  case NIL
  then show ?case by simp
next
  case (TtreeNode h l r b items)
  have items: "fold (\<lambda>x size. u32 (size + chunk_size_op stMalloc m x)) items 0
      = u32 (sum_mset (image_mset (chunk_size_op stMalloc m) (mset items)))"
    by (simp add: fold_u32_sum flip: sum_mset_sum_list)
  have ih: "TtreeNode_ask_for_destroy_size stMalloc m l
      = u32 (sum_mset (image_mset (chunk_size_op stMalloc m) (mset (inorder l) + node_handles l)))"
    "TtreeNode_ask_for_destroy_size stMalloc m r
      = u32 (sum_mset (image_mset (chunk_size_op stMalloc m) (mset (inorder r) + node_handles r)))"
    using TtreeNode by auto
  show ?case
    by (simp only: TtreeNode_ask_for_destroy_size.simps Let_def items ih u32_sum4) (simp add: ac_simps)
qed

section \<open>Height\<close>

lemma balanced_size: "balanced t \<Longrightarrow> 2 ^ (height t div 2) \<le> size (node_handles t) + 1"
proof (induction t)
  case NIL
  then show ?case by simp
next
  case (TtreeNode h l r b items)
  let ?n = "height (TtreeNode h l r b items)"
  have hl: "?n - 2 \<le> height l" "?n - 2 \<le> height r" using TtreeNode.prems by auto
  have p: "(2::nat) ^ ((?n - 2) div 2) \<le> 2 ^ (height l div 2)" "(2::nat) ^ ((?n - 2) div 2) \<le> 2 ^ (height r div 2)"
    using hl by (simp_all add: div_le_mono del: height.simps)
  have ih: "2 ^ (height l div 2) \<le> size (node_handles l) + 1" "2 ^ (height r div 2) \<le> size (node_handles r) + 1"
    using TtreeNode by auto
  show ?case
  proof (cases "?n < 2")
    case True
    then have "?n div 2 = 0" by (simp del: height.simps)
    then show ?thesis by (simp del: height.simps)
  next
    case False
    then have "?n div 2 = Suc ((?n - 2) div 2)" by (simp add: div_if [of ?n] del: height.simps)
    then have "(2::nat) ^ (?n div 2) = 2 ^ ((?n - 2) div 2) + 2 ^ ((?n - 2) div 2)" by simp
    then have "2 ^ (?n div 2) \<le> size (node_handles l) + 1 + (size (node_handles r) + 1)"
      using p ih by linarith
    then show ?thesis by (simp del: height.simps)
  qed
qed

section \<open>The tree as a finite map\<close>

definition ttree_map :: "(handle \<Rightarrow> 'o) \<Rightarrow> ttree \<Rightarrow> 'o \<rightharpoonup> handle" where
  "ttree_map rk t = map_of (map (\<lambda>x. (rk x, x)) (inorder t))"

lemma ordered_distinct: "ordered rk xs \<Longrightarrow> distinct xs"
  by (induction xs) auto

lemma ttree_map_Some:
  assumes "ordered rk (inorder t)"
  shows "ttree_map rk t k = Some x \<longleftrightarrow> x \<in> set (inorder t) \<and> rk x = k"
proof -
  have "distinct (map fst (map (\<lambda>x. (rk x, x)) (inorder t)))"
    using assms ordered_inj_on [OF assms]
    by (simp add: comp_def distinct_map ordered_distinct)
  then show ?thesis unfolding ttree_map_def by (auto simp: map_of_eq_Some_iff)
qed

lemma ttree_map_None:
  assumes "ordered rk (inorder t)"
  shows "ttree_map rk t k = None \<longleftrightarrow> k \<notin> rk ` set (inorder t)"
  by (simp add: ttree_map_def map_of_eq_None_iff image_image)

lemma ttree_map_insert:
  assumes "ordered rk (inorder t)" "ordered rk (inorder t')"
    and "set (inorder t') = insert x (set (inorder t))"
  shows "ttree_map rk t' = (ttree_map rk t)(rk x \<mapsto> x)"
proof
  fix k
  have "ttree_map rk t' k = Some y \<longleftrightarrow> ((ttree_map rk t)(rk x \<mapsto> x)) k = Some y" for y
  proof (cases "k = rk x")
    case True
    have "y \<in> set (inorder t') \<and> rk y = rk x \<longleftrightarrow> x = y"
      using assms(3) inj_onD [OF ordered_inj_on [OF assms(2)], of y x] by auto
    then show ?thesis using True by (simp add: ttree_map_Some [OF assms(2)])
  next
    case False
    then show ?thesis
      using assms(3) by (auto simp: ttree_map_Some [OF assms(1)] ttree_map_Some [OF assms(2)])
  qed
  then show "ttree_map rk t' k = ((ttree_map rk t)(rk x \<mapsto> x)) k" by (metis option.exhaust)
qed

lemma ttree_map_delete:
  assumes "ordered rk (inorder t)" "ordered rk (inorder t')"
    and "set (inorder t') = {z \<in> set (inorder t). rk z \<noteq> k}"
  shows "ttree_map rk t' = (ttree_map rk t)(k := None)"
proof
  fix j
  have "ttree_map rk t' j = Some y \<longleftrightarrow> ((ttree_map rk t)(k := None)) j = Some y" for y
    using assms(3) by (auto simp: ttree_map_Some [OF assms(1)] ttree_map_Some [OF assms(2)])
  then show "ttree_map rk t' j = ((ttree_map rk t)(k := None)) j" by (metis option.exhaust)
qed

end
