(* ===== verification/TTree_Keys.thy ===== *)
theory TTree_Keys
  imports TTree_Map "HOL-Library.List_Lexorder"
begin

text \<open>
  The comparator, the key extraction and the visitor that the node index passes to the
  T-tree (\<open>KeyCompare\<close>, \<open>convert_cvalue\<close> and \<open>Visit\<close> of \<open>src/src/core/tree/t_tree.cc\<close>) over
  the bytes of the records, and the proof that the comparator meets the contract
  \<open>key_order\<close> on integer keys of a window of \<open>2 ^ 31\<close> values, on strings and on binaries.

  \<open>mem\<close> is the memory of the records: a handle is the address of its first byte. A union
  \<open>DTCValue\<close> is the member that was stored last; reading another member is unspecified. A
  string or binary value is the list of its \<open>len\<close> bytes. A stored length below zero makes
  the C++ code read out of bounds and is outside the model, which compares no byte then.
\<close>

section \<open>Values and field types\<close>

datatype DField = FNone | Signed | Unsigned | Float | String | Binary

text \<open>Doubles are the reals they stand for, the two infinities and NaN.\<close>

datatype double = Fin real | Inf bool | NaN

datatype DTCValue = S64 int | U64 nat | FLT double | BIN "byte list"

primrec s64 :: "DTCValue \<Rightarrow> int" where
  "s64 (S64 i) = i"
| "s64 (U64 n) = to_int64 (int n)"
| "s64 (FLT d) = undefined"
| "s64 (BIN bs) = undefined"

primrec u64_of :: "DTCValue \<Rightarrow> nat" where
  "u64_of (S64 i) = nat (i mod 2 ^ 64)"
| "u64_of (U64 n) = n"
| "u64_of (FLT d) = undefined"
| "u64_of (BIN bs) = undefined"

primrec flt :: "DTCValue \<Rightarrow> double" where
  "flt (S64 i) = undefined"
| "flt (U64 n) = undefined"
| "flt (FLT d) = d"
| "flt (BIN bs) = undefined"

primrec bin :: "DTCValue \<Rightarrow> byte list" where
  "bin (S64 i) = undefined"
| "bin (U64 n) = undefined"
| "bin (FLT d) = undefined"
| "bin (BIN bs) = bs"

record DTCTableDefinition =
  field_type :: "nat \<Rightarrow> DField"
  field_size :: "nat \<Rightarrow> int"

record CmpCookie =
  p_table :: DTCTableDefinition
  m_index :: nat

section \<open>Doubles\<close>

text \<open>
  Decoding of the two IEEE formats, the rounding of a real to the nearest double (ties to
  even), subtraction, and the conversion to \<open>int64_t\<close>, which truncates towards zero and
  is \<open>-2 ^ 63\<close> outside the range (the x86-64 instruction the compiler emits).
\<close>

definition double_of_bits :: "nat \<Rightarrow> double" where
  "double_of_bits b =
     (let s = (if b div 2 ^ 63 mod 2 = 1 then -1 else 1 :: real);
          e = b div 2 ^ 52 mod 2 ^ 11; f = b mod 2 ^ 52 in
      if e = 2047 then (if f = 0 then Inf (s < 0) else NaN)
      else if e = 0 then Fin (s * (real f / 2 ^ 1074))
      else Fin (s * (real (2 ^ 52 + f) * 2 powi (int e - 1075))))"

definition float_of_bits :: "nat \<Rightarrow> double" where
  "float_of_bits b =
     (let s = (if b div 2 ^ 31 mod 2 = 1 then -1 else 1 :: real);
          e = b div 2 ^ 23 mod 2 ^ 8; f = b mod 2 ^ 23 in
      if e = 255 then (if f = 0 then Inf (s < 0) else NaN)
      else if e = 0 then Fin (s * (real f / 2 ^ 149))
      else Fin (s * (real (2 ^ 23 + f) * 2 powi (int e - 150))))"

definition round_even :: "real \<Rightarrow> int" where
  "round_even x =
     (let f = \<lfloor>x\<rfloor>; d = x - of_int f in
      if d < 1 / 2 then f else if d > 1 / 2 then f + 1 else if even f then f else f + 1)"

definition round_double :: "real \<Rightarrow> double" where
  "round_double x =
     (if x = 0 then Fin 0
      else let e = max (\<lfloor>log 2 \<bar>x\<bar>\<rfloor> - 52) (- 1074);
               r = of_int (round_even (x / 2 powi e)) * 2 powi e in
           if \<bar>r\<bar> \<ge> 2 ^ 1024 then Inf (x < 0) else Fin r)"

fun double_sub :: "double \<Rightarrow> double \<Rightarrow> double" where
  "double_sub (Fin x) (Fin y) = round_double (x - y)"
| "double_sub NaN _ = NaN"
| "double_sub _ NaN = NaN"
| "double_sub (Inf s) (Inf s') = (if s = s' then NaN else Inf s)"
| "double_sub (Inf s) (Fin _) = Inf s"
| "double_sub (Fin _) (Inf s) = Inf (\<not> s)"

fun double_to_int64 :: "double \<Rightarrow> int" where
  "double_to_int64 (Fin x) =
     (let i = (if x < 0 then \<lceil>x\<rceil> else \<lfloor>x\<rfloor>) in
      if - (2 ^ 63) \<le> i \<and> i < 2 ^ 63 then i else - (2 ^ 63))"
| "double_to_int64 _ = - (2 ^ 63)"

text \<open>The test \<open>sKey > -0.0001 && sKey < 0.0001\<close>; the literal is the double next to 1/10000.\<close>

definition DBL_0_0001 :: real where
  "DBL_0_0001 = 7378697629483821 / 2 ^ 66"

fun near_zero :: "double \<Rightarrow> bool" where
  "near_zero (Fin x) = (x > - DBL_0_0001 \<and> x < DBL_0_0001)"
| "near_zero _ = False"

section \<open>Byte strings\<close>

text \<open>
  \<open>memcmp\<close> and \<open>strncasecmp\<close> of the C library (in the C locale) on the bytes their
  arguments point to: the difference at the first position where the bytes differ;
  \<open>strncasecmp\<close> compares lower-case letters and stops after a common NUL.
\<close>

fun memcmp :: "byte list \<Rightarrow> byte list \<Rightarrow> nat \<Rightarrow> int" where
  "memcmp (a # s) (b # t) (Suc n) =
     (if a \<noteq> b then int (unat a) - int (unat b) else memcmp s t n)"
| "memcmp _ _ _ = 0"

definition tolower :: "byte \<Rightarrow> nat" where
  "tolower c = (if 65 \<le> unat c \<and> unat c \<le> 90 then unat c + 32 else unat c)"

fun strncasecmp :: "byte list \<Rightarrow> byte list \<Rightarrow> nat \<Rightarrow> int" where
  "strncasecmp (a # s) (b # t) (Suc n) =
     (if tolower a \<noteq> tolower b then int (tolower a) - int (tolower b)
      else if a = 0 then 0 else strncasecmp s t n)"
| "strncasecmp _ _ _ = 0"

section \<open>Comparator, key extraction and visitor\<close>

definition KEY_OFFSET :: nat where
  "KEY_OFFSET = 2 * 1 + 2 * 4"

definition load_int32 :: "memory \<Rightarrow> nat \<Rightarrow> int" where
  "load_int32 mem a = to_int32 (int (load_le mem a 4))"

definition load_int64 :: "memory \<Rightarrow> nat \<Rightarrow> int" where
  "load_int64 mem a = to_int64 (int (load_le mem a 8))"

text \<open>
  The code of the cases \<open>String\<close> and \<open>Binary\<close>, which differ in the function that
  compares the common prefix.
\<close>

definition compare_blob :: "(byte list \<Rightarrow> byte list \<Rightarrow> nat \<Rightarrow> int) \<Rightarrow> byte list \<Rightarrow> memory \<Rightarrow> nat \<Rightarrow> int" where
  "compare_blob cmp key mem pOtherKey =
     (let keyLen = int (length key); tKeyLen = load_int32 mem pOtherKey in
      if keyLen = 0 \<and> tKeyLen = 0 then 0
      else if keyLen = 0 \<and> tKeyLen \<noteq> 0 then -1
      else if keyLen \<noteq> 0 \<and> tKeyLen = 0 then 1
      else
        (let len = (if keyLen < tKeyLen then keyLen else tKeyLen);
             res = cmp key (load_bytes mem (pOtherKey + 4) (nat len)) (nat len) in
         if keyLen = tKeyLen then res
         else if res = 0 then (if keyLen > tKeyLen then 1 else -1)
         else res))"

definition KeyCompare :: "CmpCookie \<Rightarrow> memory \<Rightarrow> DTCValue comparator" where
  "KeyCompare cookie mem pchKey hOtherKey =
     (let pOtherKey = hOtherKey + KEY_OFFSET;
          idx = m_index cookie;
          size = field_size (p_table cookie) idx in
      case field_type (p_table cookie) idx of
        Signed \<Rightarrow>
          to_int64 (s64 pchKey -
            (if size > 4 then load_int64 mem pOtherKey else load_int32 mem pOtherKey))
      | Unsigned \<Rightarrow>
          to_int64 (int (u64_of pchKey) -
            int (if size > 4 then load_le mem pOtherKey 8 else load_le mem pOtherKey 4))
      | Float \<Rightarrow>
          (let sKey = double_sub (flt pchKey)
                 (if size > 4 then double_of_bits (load_le mem pOtherKey 8)
                  else float_of_bits (load_le mem pOtherKey 4)) in
           if near_zero sKey then 0 else double_to_int64 sKey)
      | String \<Rightarrow> compare_blob strncasecmp (bin pchKey) mem pOtherKey
      | Binary \<Rightarrow> compare_blob memcmp (bin pchKey) mem pOtherKey
      | FNone \<Rightarrow> 0)"

definition convert_cvalue :: "CmpCookie \<Rightarrow> memory \<Rightarrow> handle \<Rightarrow> DTCValue" where
  "convert_cvalue cookie mem hReInsert =
     (let pchKey = hReInsert + KEY_OFFSET;
          idx = m_index cookie;
          size = field_size (p_table cookie) idx in
      case field_type (p_table cookie) idx of
        Signed \<Rightarrow> S64 (if size > 4 then load_int64 mem pchKey else load_int32 mem pchKey)
      | Unsigned \<Rightarrow> U64 (if size > 4 then load_le mem pchKey 8 else load_le mem pchKey 4)
      | Float \<Rightarrow>
          FLT (if size > 4 then double_of_bits (load_le mem pchKey 8)
               else float_of_bits (load_le mem pchKey 4))
      | String \<Rightarrow> BIN (load_bytes mem (pchKey + 4) (nat (load_int32 mem pchKey)))
      | Binary \<Rightarrow> BIN (load_bytes mem (pchKey + 4) (nat (load_int32 mem pchKey)))
      | FNone \<Rightarrow> undefined)"

record pResCookie =
  p_handle :: "nat \<Rightarrow> handle"
  has_got_node_count :: nat
  need_find_node_count :: nat
  has_got_row_count :: nat

definition Visit :: "memory \<Rightarrow> pResCookie visitor" where
  "Visit mem hRecord cookie =
     (let hRecordRowCnts = load_le mem (hRecord + 1 + 4) 4 in
      if need_find_node_count cookie > 0
         \<and> has_got_row_count cookie \<ge> need_find_node_count cookie then (0, cookie)
      else (0, cookie\<lparr>p_handle := (p_handle cookie)(has_got_node_count cookie := hRecord),
                      has_got_node_count := u32 (has_got_node_count cookie + 1),
                      has_got_row_count := u32 (has_got_row_count cookie + hRecordRowCnts)\<rparr>))"

section \<open>The order of the keys\<close>

definition str_rank :: "byte list \<Rightarrow> int list" where
  "str_rank bs = map (\<lambda>c. int (tolower c) + 1) (takeWhile (\<lambda>c. c \<noteq> 0) bs) @ [0, int (length bs)]"

definition bin_rank :: "byte list \<Rightarrow> int list" where
  "bin_rank bs = map (\<lambda>c. int (unat c)) bs"

text \<open>
  The rank of a key in the lexicographic order of integer lists: integers by value,
  binaries by their bytes, strings by their lower-case letters up to the first NUL, ties
  by length.
\<close>

definition key_rank :: "CmpCookie \<Rightarrow> DTCValue \<Rightarrow> int list" where
  "key_rank cookie v =
     (case field_type (p_table cookie) (m_index cookie) of
        Signed \<Rightarrow> [s64 v]
      | Unsigned \<Rightarrow> [int (u64_of v)]
      | String \<Rightarrow> str_rank (bin v)
      | Binary \<Rightarrow> bin_rank (bin v)
      | _ \<Rightarrow> [])"

text \<open>
  The keys for which the comparator is an order: integers in the window of \<open>2 ^ 31\<close>
  values from \<open>w\<close> on, strings and binaries whose length is an \<open>int\<close>.
\<close>

definition valid_key :: "CmpCookie \<Rightarrow> int \<Rightarrow> DTCValue \<Rightarrow> bool" where
  "valid_key cookie w v =
     (case (field_type (p_table cookie) (m_index cookie), v) of
        (Signed, S64 i) \<Rightarrow> w \<le> i \<and> i < w + 2 ^ 31 \<and> - (2 ^ 63) \<le> i \<and> i < 2 ^ 63
      | (Unsigned, U64 n) \<Rightarrow> w \<le> int n \<and> int n < w + 2 ^ 31 \<and> n < 2 ^ 64
      | (String, BIN bs) \<Rightarrow> length bs < 2 ^ 31
      | (Binary, BIN bs) \<Rightarrow> length bs < 2 ^ 31
      | _ \<Rightarrow> False)"

definition valid_rec :: "CmpCookie \<Rightarrow> int \<Rightarrow> memory \<Rightarrow> handle \<Rightarrow> bool" where
  "valid_rec cookie w mem h =
     (valid_key cookie w (convert_cvalue cookie mem h)
      \<and> (field_type (p_table cookie) (m_index cookie) \<in> {String, Binary}
         \<longrightarrow> load_int32 mem (h + KEY_OFFSET) \<ge> 0))"

definition sign_agrees :: "int \<Rightarrow> 'a::linorder \<Rightarrow> 'a \<Rightarrow> bool" where
  "sign_agrees d x y \<longleftrightarrow> (d < 0 \<longleftrightarrow> x < y) \<and> (d = 0 \<longleftrightarrow> x = y) \<and> \<bar>d\<bar> \<le> 255"

text \<open>What remains of a blob comparison after the prefixes: the lengths decide.\<close>

definition by_length :: "int \<Rightarrow> int \<Rightarrow> int \<Rightarrow> int" where
  "by_length res m n = (if m = n then res else if res = 0 then (if m > n then 1 else -1) else res)"

lemma memcmp_lex:
  "sign_agrees (by_length (memcmp s t (min (length s) (length t))) (int (length s)) (int (length t)))
     (bin_rank s) (bin_rank t)"
proof (induction s arbitrary: t)
  case Nil
  then show ?case by (cases t) (auto simp: sign_agrees_def by_length_def bin_rank_def)
next
  case (Cons a s)
  show ?case
  proof (cases t)
    case Nil
    then show ?thesis by (simp add: sign_agrees_def by_length_def bin_rank_def)
  next
    case (Cons b t')
    note t = Cons
    show ?thesis
    proof (cases "a = b")
      case True
      then show ?thesis using Cons.IH [of t'] unfolding t
        by (auto simp: sign_agrees_def by_length_def bin_rank_def split: if_splits)
    next
      case False
      have "uint a < 256" "uint b < 256" "0 \<le> uint a" "0 \<le> uint b" "uint a \<noteq> uint b"
        using unsigned_less [of a] unsigned_less [of b] False by (auto simp: word_uint_eq_iff)
      then have "\<bar>uint a - uint b\<bar> \<le> 255" "uint a \<noteq> uint b" by linarith+
      then show ?thesis using False unfolding t
        by (auto simp: sign_agrees_def by_length_def bin_rank_def split: if_splits)
    qed
  qed
qed

lemma tolower_bound: "tolower c < 256"
  using byte_bound [of c] by (auto simp: tolower_def)

lemma tolower_0: "tolower c = 0 \<longleftrightarrow> c = 0"
  by (auto simp: tolower_def unat_eq_zero)

lemma strncasecmp_lex:
  "sign_agrees (by_length (strncasecmp s t (min (length s) (length t)))
       (k + int (length s)) (k + int (length t)))
     (map (\<lambda>c. int (tolower c) + 1) (takeWhile (\<lambda>c. c \<noteq> 0) s) @ [0, k + int (length s)])
     (map (\<lambda>c. int (tolower c) + 1) (takeWhile (\<lambda>c. c \<noteq> 0) t) @ [0, k + int (length t)])"
proof (induction s arbitrary: t k)
  case Nil
  then show ?case by (cases t) (auto simp: sign_agrees_def by_length_def tolower_0)
next
  case (Cons a s)
  show ?case
  proof (cases t)
    case Nil
    then show ?thesis by (simp add: sign_agrees_def by_length_def tolower_0)
  next
    case (Cons b t')
    note t = Cons
    consider (diff) "tolower a \<noteq> tolower b" | (nul) "a = 0" "b = 0"
      | (same) "tolower a = tolower b" "a \<noteq> 0" "b \<noteq> 0" by (metis tolower_0)
    then show ?thesis
    proof cases
      case diff
      have "tolower a < 256" "tolower b < 256" by (rule tolower_bound)+
      then have "\<bar>int (tolower a) - int (tolower b)\<bar> \<le> 255" by linarith
      then show ?thesis using diff tolower_0 [of a] tolower_0 [of b] unfolding t
        by (auto simp: sign_agrees_def by_length_def)
    next
      case nul
      then show ?thesis unfolding t by (simp add: sign_agrees_def by_length_def)
    next
      case same
      then show ?thesis using Cons.IH [of t' "k + 1"] unfolding t
        by (simp add: sign_agrees_def by_length_def algebra_simps)
    qed
  qed
qed


lemma memcmp_take [simp]: "memcmp s (take n t) n = memcmp s t n"
  by (induction s t n rule: memcmp.induct) auto

lemma strncasecmp_take [simp]: "strncasecmp s (take n t) n = strncasecmp s t n"
  by (induction s t n rule: strncasecmp.induct) auto

lemma memcmp_Nil [simp]: "memcmp s [] n = 0"
  by (cases s) auto

lemma strncasecmp_Nil [simp]: "strncasecmp s [] n = 0"
  by (cases s) auto

lemma take_load_bytes: "n \<le> m \<Longrightarrow> take n (load_bytes mem a m) = load_bytes mem a n"
  by (simp add: load_bytes_def take_map)

lemma compare_blob_lex:
  assumes cmp: "\<And>s t n. cmp s (take n t) n = cmp s t n" "\<And>t n. cmp [] t n = 0" "\<And>s n. cmp s [] n = 0"
    and other: "0 \<le> load_int32 mem p" "other = load_bytes mem (p + 4) (nat (load_int32 mem p))"
  shows "compare_blob cmp key mem p =
    by_length (cmp key other (min (length key) (length other))) (int (length key)) (int (length other))"
proof -
  let ?L = "load_int32 mem p"
  have len: "int (length other) = ?L" using other by simp
  define n where "n = min (length key) (length other)"
  have n: "nat (if int (length key) < ?L then int (length key) else ?L) = n"
    using len unfolding n_def by auto
  have "load_bytes mem (p + 4) n = take n other"
    unfolding other(2) by (rule take_load_bytes [symmetric]) (use len n_def in auto)
  then have res: "cmp key (load_bytes mem (p + 4) n) n = cmp key other n" using cmp(1) by simp
  have "key = [] \<or> other = [] \<Longrightarrow> cmp key other n = 0" using cmp(2,3) by auto
  then show ?thesis
    unfolding compare_blob_def by_length_def Let_def n res n_def [symmetric] len
    using len by (auto simp flip: len)
qed

lemma compare_strings:
  "0 \<le> load_int32 mem p \<Longrightarrow> other = load_bytes mem (p + 4) (nat (load_int32 mem p)) \<Longrightarrow>
   compare_blob strncasecmp key mem p = by_length (strncasecmp key other (min (length key) (length other)))
     (int (length key)) (int (length other))"
  by (rule compare_blob_lex) simp_all

lemma compare_binaries:
  "0 \<le> load_int32 mem p \<Longrightarrow> other = load_bytes mem (p + 4) (nat (load_int32 mem p)) \<Longrightarrow>
   compare_blob memcmp key mem p = by_length (memcmp key other (min (length key) (length other)))
     (int (length key)) (int (length other))"
  by (rule compare_blob_lex) simp_all

lemma sign_agrees_iDiff:
  assumes "pfComp k x = d" "sign_agrees d a b"
  shows "(iDiff pfComp k x < 0 \<longleftrightarrow> a < b) \<and> (iDiff pfComp k x = 0 \<longleftrightarrow> a = b) \<and> (pfComp k x = 0 \<longleftrightarrow> a = b)"
proof -
  have "\<bar>d\<bar> \<le> 255" using assms(2) by (simp add: sign_agrees_def)
  then have "- (2 ^ 31) \<le> d" "d < 2 ^ 31" by (auto simp: abs_le_iff)
  then have "to_int32 d = d" by (rule to_int32_id)
  then show ?thesis using assms by (simp add: iDiff_def sign_agrees_def)
qed

lemma KeyCompare_sign:
  assumes k: "valid_key cookie w k" and x: "valid_rec cookie w mem x"
  shows "(iDiff (KeyCompare cookie mem) k x < 0 \<longleftrightarrow> key_rank cookie k < key_rank cookie (convert_cvalue cookie mem x))
    \<and> (iDiff (KeyCompare cookie mem) k x = 0 \<longleftrightarrow> key_rank cookie k = key_rank cookie (convert_cvalue cookie mem x))
    \<and> (KeyCompare cookie mem k x = 0 \<longleftrightarrow> key_rank cookie k = key_rank cookie (convert_cvalue cookie mem x))"
proof (cases "field_type (p_table cookie) (m_index cookie)")
  case String
  obtain key where key: "k = BIN key" using k String by (auto simp: valid_key_def split: DTCValue.splits)
  define other where "other = load_bytes mem (x + KEY_OFFSET + 4) (nat (load_int32 mem (x + KEY_OFFSET)))"
  have ranks: "key_rank cookie k = str_rank key"
    "key_rank cookie (convert_cvalue cookie mem x) = str_rank other"
    using String key by (simp_all add: key_rank_def convert_cvalue_def other_def Let_def)
  have cmp: "KeyCompare cookie mem k x =
      by_length (strncasecmp key other (min (length key) (length other))) (int (length key)) (int (length other))"
    using x String compare_strings [OF _ other_def]
    by (simp add: key KeyCompare_def valid_rec_def)
  show ?thesis unfolding ranks
    by (rule sign_agrees_iDiff [of "KeyCompare cookie mem", OF cmp])
      (use strncasecmp_lex [of key other 0] in \<open>simp add: str_rank_def\<close>)
next
  case Binary
  obtain key where key: "k = BIN key" using k Binary by (auto simp: valid_key_def split: DTCValue.splits)
  define other where "other = load_bytes mem (x + KEY_OFFSET + 4) (nat (load_int32 mem (x + KEY_OFFSET)))"
  have ranks: "key_rank cookie k = bin_rank key"
    "key_rank cookie (convert_cvalue cookie mem x) = bin_rank other"
    using Binary key by (simp_all add: key_rank_def convert_cvalue_def other_def Let_def)
  have cmp: "KeyCompare cookie mem k x =
      by_length (memcmp key other (min (length key) (length other))) (int (length key)) (int (length other))"
    using x Binary compare_binaries [OF _ other_def]
    by (simp add: key KeyCompare_def valid_rec_def)
  show ?thesis unfolding ranks
    by (rule sign_agrees_iDiff [of "KeyCompare cookie mem", OF cmp memcmp_lex])
qed (use k x in \<open>auto simp: valid_key_def valid_rec_def KeyCompare_def key_rank_def convert_cvalue_def
      iDiff_def Let_def split: DTCValue.splits\<close>)

interpretation index_keys: key_order "KeyCompare cookie mem" "convert_cvalue cookie mem" "key_rank cookie"
  "valid_key cookie w" "valid_rec cookie w mem" for cookie mem w
  by unfold_locales (use KeyCompare_sign in \<open>blast+\<close>, simp add: valid_rec_def)

end
