(* ===== verification/TTree_Index.thy ===== *)
theory TTree_Index
  imports TTree_Keys
begin

text \<open>
  The T-tree as the cache uses it: ordered by \<open>KeyCompare\<close> over the records in memory.
  The lemmas of the contract \<open>key_order\<close> become statements on the tree object
  \<open>Ttree\<close>; the reachable states of a tree are those of an arbitrary sequence of insertions
  and deletions, interleaved with other users of the allocator.
\<close>

section \<open>Invariant and abstraction\<close>

definition rec_rank :: "CmpCookie \<Rightarrow> memory \<Rightarrow> handle \<Rightarrow> int list" where
  "rec_rank cookie mem x = key_rank cookie (convert_cvalue cookie mem x)"

definition index_inv :: "CmpCookie \<Rightarrow> int \<Rightarrow> memory \<Rightarrow> ttree \<Rightarrow> bool" where
  "index_inv cookie w mem t \<longleftrightarrow>
     ttree_inv (rec_rank cookie mem) t \<and> (\<forall>z\<in>set (inorder t). valid_rec cookie w mem z)"

definition index_map :: "CmpCookie \<Rightarrow> memory \<Rightarrow> ttree \<Rightarrow> int list \<rightharpoonup> handle" where
  "index_map cookie mem t = ttree_map (rec_rank cookie mem) t"

lemma rec_rank_eta: "(\<lambda>x. key_rank cookie (convert_cvalue cookie mem x)) = rec_rank cookie mem"
  by (simp add: rec_rank_def fun_eq_iff)

lemma index_inv_ordered: "index_inv cookie w mem t \<Longrightarrow> ordered (rec_rank cookie mem) (inorder t)"
  by (simp add: index_inv_def ttree_inv_def)

lemma index_inv_NIL: "index_inv cookie w mem NIL"
  by (simp add: index_inv_def ttree_inv_def)

lemmas index_map_Some = ttree_map_Some [of "rec_rank cookie mem" for cookie mem, folded index_map_def]
lemmas index_map_None = ttree_map_None [of "rec_rank cookie mem" for cookie mem, folded index_map_def]

section \<open>Insertion, deletion and lookup\<close>

text \<open>
  What an insertion does to the tree and the allocator: the key is there, no node can be
  allocated, or the record is added, with at most one new node.
\<close>

definition index_insert_spec ::
  "'m MallocBase \<Rightarrow> CmpCookie \<Rightarrow> int \<Rightarrow> memory \<Rightarrow> ttree \<Rightarrow> DTCValue \<Rightarrow> handle \<Rightarrow> 'm
   \<Rightarrow> 'm insert_result \<Rightarrow> bool" where
  "index_insert_spec stMalloc cookie w mem t k x m res \<longleftrightarrow>
     (case res of (iRet, t', isAlloc', m') \<Rightarrow>
        if index_map cookie mem t (key_rank cookie k) \<noteq> None
        then iRet = EC_KEY_EXIST \<and> t' = t \<and> m' = m
        else (iRet = EC_NO_MEM \<and> t' = t \<and> alloc_node stMalloc m = (m', INVALID_HANDLE))
           \<or> (iRet = 0 \<and> index_inv cookie w mem t'
              \<and> index_map cookie mem t' = (index_map cookie mem t)(key_rank cookie k \<mapsto> x)
              \<and> (m' = m \<and> node_handles t' = node_handles t
                 \<or> (\<exists>h. alloc_node stMalloc m = (m', h) \<and> h \<noteq> INVALID_HANDLE \<and> isAlloc'
                      \<and> node_handles t' = add_mset h (node_handles t)))))"

lemma index_insert_node:
  assumes inv: "index_inv cookie w mem t" and ne: "t \<noteq> NIL" and k: "valid_key cookie w k"
    and x: "valid_rec cookie w mem x" "rec_rank cookie mem x = key_rank cookie k"
  shows "\<exists>res. TtreeNode_do_insert stMalloc (KeyCompare cookie mem) (convert_cvalue cookie mem) t k x isAlloc m = Some res
     \<and> insert_spec stMalloc (rec_rank cookie mem) t (key_rank cookie k) x isAlloc m res"
  using index_keys.insert_node_returns [of cookie mem t w k x stMalloc isAlloc m] assms
  unfolding index_keys.insert_returns_def rec_rank_eta index_inv_def by (simp add: rec_rank_def)

lemma index_insert:
  assumes inv: "index_inv cookie w mem t" and k: "valid_key cookie w k"
    and x: "valid_rec cookie w mem x" "rec_rank cookie mem x = key_rank cookie k"
  shows "\<exists>res. Ttree_do_insert stMalloc (KeyCompare cookie mem) (convert_cvalue cookie mem) t k x isAlloc m = Some res
     \<and> index_insert_spec stMalloc cookie w mem t k x m res"
proof (cases "t = NIL")
  case True
  obtain m' h where an: "alloc_node stMalloc m = (m', h)" by fastforce
  show ?thesis
  proof (cases "h = INVALID_HANDLE")
    case fail: True
    then show ?thesis using True an
      by (auto simp: Ttree_do_insert_def TtreeNode_Alloc_eq index_insert_spec_def index_map_def ttree_map_def)
  next
    case False
    have "index_inv cookie w mem (TtreeNode h NIL NIL 0 [x])"
      using x(1) by (simp add: index_inv_def ttree_inv_def PAGE_SIZE_def)
    then show ?thesis using True an False x(2)
      by (auto simp: Ttree_do_insert_def TtreeNode_Alloc_eq index_insert_spec_def index_map_def ttree_map_def)
  qed
next
  case False
  from index_insert_node [OF inv False k x] obtain iRet t' isAlloc' m' where res:
    "TtreeNode_do_insert stMalloc (KeyCompare cookie mem) (convert_cvalue cookie mem) t k x isAlloc m
       = Some (iRet, t', isAlloc', m')"
    "insert_spec stMalloc (rec_rank cookie mem) t (key_rank cookie k) x isAlloc m (iRet, t', isAlloc', m')"
    by (metis prod_cases4)
  note none = index_map_None [OF index_inv_ordered [OF inv], of "key_rank cookie k"]
  from res(2) show ?thesis
  proof (cases rule: insert_spec_cases)
    case exists
    then show ?thesis using False res(1) none
      by (simp add: Ttree_do_insert_def index_insert_spec_def)
  next
    case no_mem
    then show ?thesis using False res(1) none
      by (simp add: Ttree_do_insert_def index_insert_spec_def)
  next
    case inserted
    then have inv': "index_inv cookie w mem t'" using inv x(1) by (auto simp: index_inv_def)
    have "index_map cookie mem t' = (index_map cookie mem t)(key_rank cookie k \<mapsto> x)"
      using ttree_map_insert [OF index_inv_ordered [OF inv] index_inv_ordered [OF inv'] inserted(7)] x(2)
      by (simp add: index_map_def)
    then show ?thesis using inserted False res(1) none inv'
      by (auto simp: Ttree_do_insert_def index_insert_spec_def)
  qed
qed

definition index_delete_spec ::
  "'m MallocBase \<Rightarrow> CmpCookie \<Rightarrow> int \<Rightarrow> memory \<Rightarrow> ttree \<Rightarrow> DTCValue \<Rightarrow> 'm
   \<Rightarrow> 'm delete_result \<Rightarrow> bool" where
  "index_delete_spec stMalloc cookie w mem t k m res \<longleftrightarrow>
     (case res of (iRet, t', isFree', m') \<Rightarrow>
        if index_map cookie mem t (key_rank cookie k) = None
        then iRet = (if t = NIL then 0 else -1) \<and> t' = t \<and> m' = m
        else iRet = 0 \<and> index_inv cookie w mem t'
          \<and> index_map cookie mem t' = (index_map cookie mem t)(key_rank cookie k := None)
          \<and> freed stMalloc t m t' m')"

lemma index_delete:
  assumes inv: "index_inv cookie w mem t" and k: "valid_key cookie w k"
  shows "\<exists>res. Ttree_Delete stMalloc (KeyCompare cookie mem) (convert_cvalue cookie mem) t k isFree m = Some res
     \<and> index_delete_spec stMalloc cookie w mem t k m res"
proof (cases "t = NIL")
  case True
  then show ?thesis by (simp add: Ttree_Delete_def index_delete_spec_def index_map_def ttree_map_def)
next
  case False
  have "index_keys.delete_returns cookie mem stMalloc t k isFree m"
    using index_keys.delete_node_returns [of cookie mem t w k stMalloc isFree m] inv False k
    by (simp add: rec_rank_eta index_inv_def)
  then obtain iRet t' isFree' m' where res:
    "TtreeNode_Delete stMalloc (KeyCompare cookie mem) (convert_cvalue cookie mem) t k isFree m
       = Some (iRet, t', isFree', m')"
    "delete_spec stMalloc (rec_rank cookie mem) t (key_rank cookie k) isFree m (iRet, t', isFree', m')"
    unfolding index_keys.delete_returns_def rec_rank_eta by (metis prod_cases4)
  note none = index_map_None [OF index_inv_ordered [OF inv], of "key_rank cookie k"]
  from res(2) show ?thesis
  proof (cases rule: delete_spec_cases)
    case absent
    then show ?thesis using False res(1) none by (simp add: Ttree_Delete_def index_delete_spec_def)
  next
    case removed
    then have inv': "index_inv cookie w mem t'" using inv by (simp add: index_inv_def)
    have "index_map cookie mem t' = (index_map cookie mem t)(key_rank cookie k := None)"
      using ttree_map_delete [OF index_inv_ordered [OF inv] index_inv_ordered [OF inv'] removed(5)]
      by (simp add: index_map_def)
    then show ?thesis using removed False res(1) none inv'
      by (auto simp: Ttree_Delete_def index_delete_spec_def)
  qed
qed

lemma index_find:
  assumes inv: "index_inv cookie w mem t" and k: "valid_key cookie w k"
  shows "Ttree_do_find (KeyCompare cookie mem) k t =
    (case index_map cookie mem t (key_rank cookie k) of Some x \<Rightarrow> (1, x) | None \<Rightarrow> (0, INVALID_HANDLE))"
proof -
  have o: "ordered (rec_rank cookie mem) (inorder t)" by (rule index_inv_ordered [OF inv])
  have "ttree_inv (rec_rank cookie mem) t \<and> (\<forall>z\<in>set (inorder t). valid_rec cookie w mem z)"
    using inv by (simp add: index_inv_def)
  from index_keys.find_slot_spec [of cookie mem, unfolded rec_rank_eta, OF this k]
  show ?thesis
  proof (elim disjE exE conjE)
    fix h i x
    assume s: "TtreeNode_do_find_slot (KeyCompare cookie mem) k t = (1, Some (h, i, x))"
      and x: "x \<in> set (inorder t)" "key_rank cookie (convert_cvalue cookie mem x) = key_rank cookie k"
    then have "index_map cookie mem t (key_rank cookie k) = Some x"
      using index_map_Some [OF o] by (simp add: rec_rank_def)
    then show ?thesis using s x by (auto simp: Ttree_do_find_def TtreeNode_do_find_def)
  next
    assume s: "TtreeNode_do_find_slot (KeyCompare cookie mem) k t = (0, None)"
      and "key_rank cookie k \<notin> rec_rank cookie mem ` set (inorder t)"
    then have "index_map cookie mem t (key_rank cookie k) = None" using index_map_None [OF o] by simp
    then show ?thesis using s by (simp add: Ttree_do_find_def TtreeNode_do_find_def)
  qed
qed

section \<open>Reachable trees\<close>

inductive index_reach ::
  "'m MallocBase \<Rightarrow> CmpCookie \<Rightarrow> int \<Rightarrow> memory \<Rightarrow> ttree \<Rightarrow> 'm \<Rightarrow> bool"
  for stMalloc :: "'m MallocBase" and cookie w mem where
  reach_empty: "index_reach stMalloc cookie w mem NIL m"
| reach_alloc: "index_reach stMalloc cookie w mem t m \<Longrightarrow> index_reach stMalloc cookie w mem t m'"
| reach_insert: "index_reach stMalloc cookie w mem t m \<Longrightarrow> valid_key cookie w k \<Longrightarrow>
    valid_rec cookie w mem x \<Longrightarrow> rec_rank cookie mem x = key_rank cookie k \<Longrightarrow>
    Ttree_do_insert stMalloc (KeyCompare cookie mem) (convert_cvalue cookie mem) t k x isAlloc m
      = Some (iRet, t', isAlloc', m') \<Longrightarrow>
    index_reach stMalloc cookie w mem t' m'"
| reach_delete: "index_reach stMalloc cookie w mem t m \<Longrightarrow> valid_key cookie w k \<Longrightarrow>
    Ttree_Delete stMalloc (KeyCompare cookie mem) (convert_cvalue cookie mem) t k isFree m
      = Some (iRet, t', isFree', m') \<Longrightarrow>
    index_reach stMalloc cookie w mem t' m'"

lemma insert_spec_inv:
  "index_insert_spec stMalloc cookie w mem t k x m (iRet, t', isAlloc', m') \<Longrightarrow>
   index_inv cookie w mem t \<Longrightarrow> index_inv cookie w mem t'"
  by (auto simp: index_insert_spec_def split: if_splits)

lemma delete_spec_inv:
  "index_delete_spec stMalloc cookie w mem t k m (iRet, t', isFree', m') \<Longrightarrow>
   index_inv cookie w mem t \<Longrightarrow> index_inv cookie w mem t'"
  by (auto simp: index_delete_spec_def split: if_splits)

lemma reach_inv: "index_reach stMalloc cookie w mem t m \<Longrightarrow> index_inv cookie w mem t"
proof (induction rule: index_reach.induct)
  case (reach_insert t m k x isAlloc iRet t' isAlloc' m')
  then show ?case
    using index_insert [OF reach_insert.IH reach_insert.hyps(2-4), of stMalloc isAlloc m] insert_spec_inv by fastforce
next
  case (reach_delete t m k isFree iRet t' isFree' m')
  then show ?case
    using index_delete [OF reach_delete.IH reach_delete.hyps(2), of stMalloc isFree m] delete_spec_inv by fastforce
qed (simp_all add: index_inv_NIL)

lemma pages_records: "pages t \<Longrightarrow> size (node_handles t) \<le> length (inorder t)"
proof (induction t)
  case (TtreeNode h l r b items)
  then show ?case by (cases items) auto
qed simp

lemma index_height:
  assumes "index_inv cookie w mem t"
  shows "2 ^ (height t div 2) \<le> length (inorder t) + 1"
  using balanced_size [of t] pages_records [of t] assms by (simp add: index_inv_def ttree_inv_def)

section \<open>An example index\<close>

text \<open>
  A table whose key is a 4-byte integer, two records with the keys 5 and 9 at the handles
  100 and 200, and an allocator that hands out increasing handles.
\<close>

definition demo_cookie :: CmpCookie where
  "demo_cookie = \<lparr>p_table = \<lparr>field_type = \<lambda>_. Signed, field_size = \<lambda>_. 4\<rparr>, m_index = 0\<rparr>"

definition demo_mem :: memory where
  "demo_mem a = (if a = 110 then 5 else if a = 210 then 9 else 0)"

definition demo_malloc :: "nat MallocBase" where
  "demo_malloc =
     \<lparr>Malloc_op = \<lambda>m n. (m + n, m), Calloc_op = \<lambda>m n. (m + n, m), ReAlloc_op = \<lambda>m h n. (m + n, m),
      Free_op = \<lambda>m h. (m, 0), chunk_size_op = \<lambda>m h. 179, ask_for_destroy_size_op = \<lambda>m h. 179\<rparr>"

definition demo_tree :: ttree where
  "demo_tree = TtreeNode 1000 NIL NIL 0 [100]"

lemma demo_load: "load_int32 demo_mem 110 = 5" "load_int32 demo_mem 210 = 9"
  by (simp_all add: load_int32_def load_le_4 demo_mem_def to_int32_def)

lemma demo_facts:
  "valid_key demo_cookie 0 (S64 5)" "valid_key demo_cookie 0 (S64 9)" 
  "valid_rec demo_cookie 0 demo_mem 100" "valid_rec demo_cookie 0 demo_mem 200"
  "rec_rank demo_cookie demo_mem 100 = [5]" "rec_rank demo_cookie demo_mem 200 = [9]"
  "key_rank demo_cookie (S64 5) = [5]" "key_rank demo_cookie (S64 9) = [9]"
  by (simp_all add: valid_key_def valid_rec_def demo_cookie_def convert_cvalue_def KEY_OFFSET_def
      rec_rank_def key_rank_def demo_load)

lemma demo_inv: "index_inv demo_cookie 0 demo_mem demo_tree"
  by (simp add: index_inv_def ttree_inv_def demo_tree_def PAGE_SIZE_def demo_facts)

lemma demo_map: "index_map demo_cookie demo_mem demo_tree = [[5] \<mapsto> 100]"
  by (simp add: index_map_def ttree_map_def demo_tree_def demo_facts)

section \<open>Traversal facts and integer keys\<close>

lemma index_valid_tree:
  "index_inv cookie w mem t \<longleftrightarrow>
     ttree_inv (\<lambda>x. key_rank cookie (convert_cvalue cookie mem x)) t \<and> (\<forall>z\<in>set (inorder t). valid_rec cookie w mem z)"
  by (simp add: index_inv_def rec_rank_eta)

lemmas index_visits =
  index_keys.forward_range_visits index_keys.forward_ge_visits
  index_keys.backward_range_visits index_keys.backward_le_visits
  index_keys.post_range_visits index_keys.post_ge_visits index_keys.post_le_visits

lemma mset_postorder: "mset (postorder t) = mset (inorder t)" "mset (postorder_left t) = mset (inorder t)"
  by (induction t) auto








section \<open>Properties\<close>

text \<open>
  C1. \<open>Ttree::do_insert\<close> always returns. If the key is present it returns \<open>EC_KEY_EXIST\<close>
  and neither the tree nor the allocator changes. Otherwise it either returns
  \<open>EC_NO_MEM\<close> with the tree unchanged, after a failed allocation of a node, or it returns 0
  and the tree is again a balanced ordered T-tree that stands for the old map with the
  new record added; it has the old nodes and at most one more, which was just allocated
  and for which \<open>isAllocNode\<close> is set.
\<close>

theorem Ttree_do_insert_correct:
  assumes "index_inv cookie w mem t" "valid_key cookie w k"
    and "valid_rec cookie w mem x" "rec_rank cookie mem x = key_rank cookie k"
  shows "\<exists>iRet t' isAlloc' m'.
    Ttree_do_insert stMalloc (KeyCompare cookie mem) (convert_cvalue cookie mem) t k x isAlloc m
      = Some (iRet, t', isAlloc', m')
    \<and> (if index_map cookie mem t (key_rank cookie k) \<noteq> None
       then iRet = EC_KEY_EXIST \<and> t' = t \<and> m' = m
       else (iRet = EC_NO_MEM \<and> t' = t \<and> Malloc_op stMalloc m sizeof_TtreeNode = (m', INVALID_HANDLE))
          \<or> (iRet = 0 \<and> index_inv cookie w mem t'
             \<and> index_map cookie mem t' = (index_map cookie mem t)(key_rank cookie k \<mapsto> x)
             \<and> (m' = m \<and> node_handles t' = node_handles t
                \<or> (\<exists>h. Malloc_op stMalloc m sizeof_TtreeNode = (m', h) \<and> h \<noteq> INVALID_HANDLE \<and> isAlloc'
                     \<and> node_handles t' = add_mset h (node_handles t)))))"
  using index_insert [OF assms, of stMalloc isAlloc m]
  unfolding index_insert_spec_def alloc_node_def split_paired_Ex prod.case .

lemma Ttree_do_insert_witness:
  "index_inv demo_cookie 0 demo_mem demo_tree \<and>
   (\<exists>iRet t' isAlloc' m'.
    Ttree_do_insert demo_malloc (KeyCompare demo_cookie demo_mem) (convert_cvalue demo_cookie demo_mem)
      demo_tree (S64 9) 200 False 5000 = Some (iRet, t', isAlloc', m')
    \<and> (iRet = EC_NO_MEM \<and> t' = demo_tree
       \<or> iRet = 0 \<and> index_map demo_cookie demo_mem t' = [[5] \<mapsto> 100, [9] \<mapsto> 200]))"
  using Ttree_do_insert_correct [OF demo_inv demo_facts(2,4), of demo_malloc False 5000] demo_inv
  by (auto simp: demo_facts demo_map)

text \<open>
  C2. \<open>Ttree::Delete\<close> always returns. If the key is absent the tree and the allocator do not
  change (the result is -1, or 0 for the empty tree); otherwise it returns 0 and the tree is
  again a balanced ordered T-tree that stands for the old map without the key, and either
  all nodes are kept or exactly one of them was freed.
\<close>

theorem Ttree_Delete_correct:
  assumes "index_inv cookie w mem t" "valid_key cookie w k"
  shows "\<exists>iRet t' isFree' m'.
    Ttree_Delete stMalloc (KeyCompare cookie mem) (convert_cvalue cookie mem) t k isFree m
      = Some (iRet, t', isFree', m')
    \<and> (if index_map cookie mem t (key_rank cookie k) = None
       then iRet = (if t = NIL then 0 else -1) \<and> t' = t \<and> m' = m
       else iRet = 0 \<and> index_inv cookie w mem t'
         \<and> index_map cookie mem t' = (index_map cookie mem t)(key_rank cookie k := None)
         \<and> (m' = m \<and> node_handles t' = node_handles t
            \<or> (\<exists>h. node_handles t = add_mset h (node_handles t') \<and> m' = fst (Free_op stMalloc m h))))"
  using index_delete [OF assms, of stMalloc isFree m]
  unfolding index_delete_spec_def freed_def split_paired_Ex prod.case .

lemma Ttree_Delete_witness:
  "index_inv demo_cookie 0 demo_mem demo_tree \<and>
   (\<exists>t' isFree' m'.
    Ttree_Delete demo_malloc (KeyCompare demo_cookie demo_mem) (convert_cvalue demo_cookie demo_mem)
      demo_tree (S64 5) False 5000 = Some (0, t', isFree', m')
    \<and> index_map demo_cookie demo_mem t' = Map.empty)"
  using Ttree_Delete_correct [OF demo_inv demo_facts(1), of demo_malloc False 5000] demo_inv
  by (auto simp: demo_facts demo_map)

text \<open>
  C3. \<open>Ttree::do_find\<close> returns 1 and the handle of the record with the key when the tree
  holds the key, and 0 and \<open>INVALID_HANDLE\<close> otherwise.
\<close>

theorem Ttree_do_find_correct:
  assumes "index_inv cookie w mem t" "valid_key cookie w k"
  shows "Ttree_do_find (KeyCompare cookie mem) k t =
    (case index_map cookie mem t (key_rank cookie k) of
       Some x \<Rightarrow> (1, x) | None \<Rightarrow> (0, INVALID_HANDLE))"
  by (rule index_find [OF assms])

lemma Ttree_do_find_witness:
  "index_inv demo_cookie 0 demo_mem demo_tree
   \<and> Ttree_do_find (KeyCompare demo_cookie demo_mem) (S64 5) demo_tree = (1, 100)
   \<and> Ttree_do_find (KeyCompare demo_cookie demo_mem) (S64 9) demo_tree = (0, INVALID_HANDLE)"
  using Ttree_do_find_correct [OF demo_inv demo_facts(1)] Ttree_do_find_correct [OF demo_inv demo_facts(2)]
    demo_inv by (simp add: demo_facts demo_map)

text \<open>
  C4. Every tree that insertions and deletions reach from the empty tree, in any order and
  with any use of the allocator in between, is a balanced ordered T-tree, and its height is
  at most twice the logarithm of the number of records plus one.
\<close>

theorem reachable_index_invariant:
  assumes "index_reach stMalloc cookie w mem t m"
  shows "index_inv cookie w mem t \<and> 2 ^ (height t div 2) \<le> length (inorder t) + 1"
  using reach_inv [OF assms] index_height by blast

lemma reachable_index_witness:
  "index_reach demo_malloc demo_cookie 0 demo_mem (TtreeNode 1000 NIL NIL 0 [100]) 1179
   \<and> index_inv demo_cookie 0 demo_mem (TtreeNode 1000 NIL NIL 0 [100])"
proof -
  have "Ttree_do_insert demo_malloc (KeyCompare demo_cookie demo_mem) (convert_cvalue demo_cookie demo_mem)
      NIL (S64 5) 100 False 1000 = Some (0, TtreeNode 1000 NIL NIL 0 [100], True, 1179)"
    by (simp add: Ttree_do_insert_def TtreeNode_Alloc_def TtreeNode_do_init_def demo_malloc_def
        sizeof_TtreeNode_def PAGE_SIZE_def INVALID_HANDLE_def)
  then have "index_reach demo_malloc demo_cookie 0 demo_mem (TtreeNode 1000 NIL NIL 0 [100]) 1179"
    using reach_insert [OF reach_empty demo_facts(1,3)] demo_facts by metis
  then show ?thesis using reachable_index_invariant [of demo_malloc demo_cookie 0] by simp
qed

text \<open>
  C5. Round trip: after a successful insertion a lookup of the key finds the new record;
  deleting the key then succeeds, a lookup of it finds nothing, and lookups of all other
  keys give what they gave before the insertion.
\<close>

theorem Ttree_insert_find_delete:
  assumes inv: "index_inv cookie w mem t" and k: "valid_key cookie w k"
    and x: "valid_rec cookie w mem x" "rec_rank cookie mem x = key_rank cookie k"
    and ins: "Ttree_do_insert stMalloc (KeyCompare cookie mem) (convert_cvalue cookie mem) t k x isAlloc m
      = Some (0, t1, isAlloc1, m1)"
  shows "Ttree_do_find (KeyCompare cookie mem) k t1 = (1, x) \<and>
    (\<exists>t2 isFree2 m2.
       Ttree_Delete stMalloc (KeyCompare cookie mem) (convert_cvalue cookie mem) t1 k isFree m1
         = Some (0, t2, isFree2, m2)
     \<and> Ttree_do_find (KeyCompare cookie mem) k t2 = (0, INVALID_HANDLE)
     \<and> (\<forall>k'. valid_key cookie w k' \<and> key_rank cookie k' \<noteq> key_rank cookie k \<longrightarrow>
          Ttree_do_find (KeyCompare cookie mem) k' t2 = Ttree_do_find (KeyCompare cookie mem) k' t))"
proof -
  from index_insert [OF inv k x, of stMalloc isAlloc m] ins
  have t1: "index_inv cookie w mem t1" "index_map cookie mem t1 = (index_map cookie mem t)(key_rank cookie k \<mapsto> x)"
    by (auto simp: index_insert_spec_def EC_KEY_EXIST_def EC_NO_MEM_def split: if_splits)
  from index_delete [OF t1(1) k, of stMalloc isFree m1] t1(2) obtain t2 isFree2 m2 where
    del: "Ttree_Delete stMalloc (KeyCompare cookie mem) (convert_cvalue cookie mem) t1 k isFree m1
         = Some (0, t2, isFree2, m2)" and
    t2: "index_inv cookie w mem t2" "index_map cookie mem t2 = (index_map cookie mem t1)(key_rank cookie k := None)"
    by (auto simp: index_delete_spec_def split: if_splits)
  show ?thesis
    using del t1(2) t2(2)
    by (auto simp: index_find [OF t1(1) k] index_find [OF t2(1)] index_find [OF inv] k)
qed

lemma Ttree_insert_find_delete_witness:
  "Ttree_do_insert demo_malloc (KeyCompare demo_cookie demo_mem) (convert_cvalue demo_cookie demo_mem)
      NIL (S64 5) 100 False 1000 = Some (0, TtreeNode 1000 NIL NIL 0 [100], True, 1179)
   \<and> Ttree_do_find (KeyCompare demo_cookie demo_mem) (S64 5) (TtreeNode 1000 NIL NIL 0 [100]) = (1, 100)"
proof -
  have ins: "Ttree_do_insert demo_malloc (KeyCompare demo_cookie demo_mem) (convert_cvalue demo_cookie demo_mem)
      NIL (S64 5) 100 False 1000 = Some (0, TtreeNode 1000 NIL NIL 0 [100], True, 1179)"
    by (simp add: Ttree_do_insert_def TtreeNode_Alloc_def TtreeNode_do_init_def demo_malloc_def
        sizeof_TtreeNode_def PAGE_SIZE_def INVALID_HANDLE_def)
  have "rec_rank demo_cookie demo_mem 100 = key_rank demo_cookie (S64 5)" by (simp add: demo_facts)
  from Ttree_insert_find_delete [OF index_inv_NIL demo_facts(1,3) this ins] ins show ?thesis by simp
qed

text \<open>
  C6. The full traversals call the visitor on all records of the tree, in ascending order of
  the keys (\<open>traverse_forward\<close>) or descending order (\<open>traverse_backward\<close>), and stop at the
  first call that does not return 0, whose result they return.
\<close>

theorem Ttree_traverse_in_order:
  assumes "index_inv cookie w mem t"
  shows "\<exists>xs. set xs = ran (index_map cookie mem t) \<and> sorted_wrt (\<lambda>x y. rec_rank cookie mem x < rec_rank cookie mem y) xs
    \<and> (\<forall>pfVisit (c :: 'c). Ttree_traverse_forward pfVisit t c = visit_all pfVisit xs c
          \<and> Ttree_traverse_backward pfVisit t c = visit_all pfVisit (rev xs) c)"
proof (intro exI conjI allI)
  note o = index_inv_ordered [OF assms]
  show "set (inorder t) = ran (index_map cookie mem t)" by (auto simp: ran_def index_map_Some [OF o])
  show "sorted_wrt (\<lambda>x y. rec_rank cookie mem x < rec_rank cookie mem y) (inorder t)"
    using o by (simp add: ordered_def)
  show "Ttree_traverse_forward pfVisit t c = visit_all pfVisit (inorder t) c"
    "Ttree_traverse_backward pfVisit t c = visit_all pfVisit (rev (inorder t)) c" for pfVisit and c :: 'c
    by (auto simp: Ttree_traverse_forward_def Ttree_traverse_backward_def
        traverse_forward_visits traverse_backward_visits)
qed

lemma Ttree_traverse_in_order_witness:
  "index_inv demo_cookie 0 demo_mem demo_tree \<and>
   (\<exists>xs. set xs = {100} \<and> (\<forall>pfVisit (c :: nat). Ttree_traverse_forward pfVisit demo_tree c = visit_all pfVisit xs c))"
  using Ttree_traverse_in_order [OF demo_inv, where 'c = nat] demo_inv by (auto simp: demo_map)

text \<open>
  C7. The traversals of a range call the visitor on exactly the records of the tree
  whose key lies in the closed range, is at least the key (\<open>ge\<close>) or at most the key
  (\<open>le\<close>), in ascending order going forward and in descending order going backward,
  up to the first call that does not return 0.
\<close>

theorem Ttree_traverse_ranges:
  assumes inv: "index_inv cookie w mem t" and k: "valid_key cookie w k" "valid_key cookie w k1"
  shows "Ttree_traverse_forward_range pfVisit (KeyCompare cookie mem) k k1 t c
       = visit_all pfVisit (filter (\<lambda>x. key_rank cookie k \<le> rec_rank cookie mem x
           \<and> rec_rank cookie mem x \<le> key_rank cookie k1) (inorder t)) c
    \<and> Ttree_traverse_backward_range pfVisit (KeyCompare cookie mem) k k1 t c
       = visit_all pfVisit (filter (\<lambda>x. key_rank cookie k \<le> rec_rank cookie mem x
           \<and> rec_rank cookie mem x \<le> key_rank cookie k1) (rev (inorder t))) c
    \<and> Ttree_traverse_forward_ge pfVisit (KeyCompare cookie mem) k t c
       = visit_all pfVisit (filter (\<lambda>x. key_rank cookie k \<le> rec_rank cookie mem x) (inorder t)) c
    \<and> Ttree_traverse_backward_le pfVisit (KeyCompare cookie mem) k t c
       = visit_all pfVisit (filter (\<lambda>x. rec_rank cookie mem x \<le> key_rank cookie k) (rev (inorder t))) c"
proof (cases "t = NIL")
  case False
  note v = inv [unfolded index_valid_tree]
  show ?thesis
    using False index_visits(1,3) [OF k v, of pfVisit c] index_visits(2,4) [OF k(1) v, of pfVisit c]
    by (simp add: Ttree_traverse_forward_range_def Ttree_traverse_backward_range_def
        Ttree_traverse_forward_ge_def Ttree_traverse_backward_le_def rec_rank_def)
qed (simp add: Ttree_traverse_forward_range_def Ttree_traverse_backward_range_def
    Ttree_traverse_forward_ge_def Ttree_traverse_backward_le_def)

lemma Ttree_traverse_ranges_witness:
  "index_inv demo_cookie 0 demo_mem demo_tree \<and>
   Ttree_traverse_forward_ge (\<lambda>x c. (0, c @ [x])) (KeyCompare demo_cookie demo_mem) (S64 5) demo_tree [] = (0, [100]) \<and>
   Ttree_traverse_backward_range (\<lambda>x c. (0, c @ [x])) (KeyCompare demo_cookie demo_mem) (S64 9) (S64 9) demo_tree [] = (0, [])"
  using Ttree_traverse_ranges [OF demo_inv demo_facts(1,1), of "\<lambda>x c. (0, c @ [x])" "[]"]
    Ttree_traverse_ranges [OF demo_inv demo_facts(2,2), of "\<lambda>x c. (0, c @ [x])" "[]"] demo_inv
  by (simp add: demo_facts demo_tree_def and_then_def)

text \<open>
  C8. The post-order traversals call the visitor once on each record of the tree, of the
  closed range, at least the key or at most the key, up to the first call that does not
  return 0.
\<close>

theorem Ttree_post_order_traverse_once:
  assumes inv: "index_inv cookie w mem t" and k: "valid_key cookie w k" "valid_key cookie w k1"
  shows "(\<exists>xs. mset xs = mset (inorder t)
        \<and> Ttree_post_order_traverse pfVisit t c = visit_all pfVisit xs c)
    \<and> (\<exists>xs. mset xs = filter_mset (\<lambda>x. key_rank cookie k \<le> rec_rank cookie mem x
           \<and> rec_rank cookie mem x \<le> key_rank cookie k1) (mset (inorder t))
        \<and> Ttree_post_order_traverse_range pfVisit (KeyCompare cookie mem) k k1 t c = visit_all pfVisit xs c)
    \<and> (\<exists>xs. mset xs = filter_mset (\<lambda>x. key_rank cookie k \<le> rec_rank cookie mem x) (mset (inorder t))
        \<and> Ttree_post_order_traverse_ge pfVisit (KeyCompare cookie mem) k t c = visit_all pfVisit xs c)
    \<and> (\<exists>xs. mset xs = filter_mset (\<lambda>x. rec_rank cookie mem x \<le> key_rank cookie k) (mset (inorder t))
        \<and> Ttree_post_order_traverse_le pfVisit (KeyCompare cookie mem) k t c = visit_all pfVisit xs c)"
proof (cases "t = NIL")
  case True
  then show ?thesis
    by (simp add: Ttree_post_order_traverse_def Ttree_post_order_traverse_range_def
        Ttree_post_order_traverse_ge_def Ttree_post_order_traverse_le_def exI [of _ "[]"])
next
  case False
  note v = inv [unfolded index_valid_tree]
  show ?thesis
    by (intro conjI exI [of _ "postorder t"]
        exI [of _ "filter (\<lambda>x. key_rank cookie k \<le> rec_rank cookie mem x
           \<and> rec_rank cookie mem x \<le> key_rank cookie k1) (postorder_left t)"]
        exI [of _ "filter (\<lambda>x. key_rank cookie k \<le> rec_rank cookie mem x) (postorder_left t)"]
        exI [of _ "filter (\<lambda>x. rec_rank cookie mem x \<le> key_rank cookie k) (postorder t)"])
      (use False index_visits(5) [OF k v, of pfVisit c] index_visits(6,7) [OF k(1) v, of pfVisit c] in
       \<open>simp_all add: Ttree_post_order_traverse_def Ttree_post_order_traverse_range_def
        Ttree_post_order_traverse_ge_def Ttree_post_order_traverse_le_def rec_rank_def
        post_order_visits mset_postorder\<close>)
qed

lemma Ttree_post_order_traverse_witness:
  "index_inv demo_cookie 0 demo_mem demo_tree \<and>
   (\<exists>xs. mset xs = {#100#}
      \<and> Ttree_post_order_traverse_ge (\<lambda>x c. (0, c + x)) (KeyCompare demo_cookie demo_mem) (S64 5) demo_tree (0::nat)
        = visit_all (\<lambda>x c. (0, c + x)) xs 0)"
  using Ttree_post_order_traverse_once [OF demo_inv demo_facts(1,1), of "\<lambda>x c. (0, c + x)" "0::nat"] demo_inv
  by (auto simp: demo_facts demo_tree_def)



text \<open>
  C10. \<open>Ttree::destory\<close> leaves the empty tree and frees every node and every record of
  the tree exactly once.
\<close>

theorem Ttree_destory_frees_all:
  "\<exists>hs. mset hs = mset (inorder t) + node_handles t
     \<and> Ttree_destory stMalloc t m = (NIL, fold (\<lambda>h m. fst (Free_op stMalloc m h)) hs m)"
  by (rule exI [of _ "destroy_order t"])
    (simp add: mset_destroy_order Ttree_destory_def destory_fold)

text \<open>
  C11. \<open>ask_for_destroy_size\<close> is the sum of the chunk sizes of all nodes and records, as
  far as a 32-bit unsigned integer holds it.
\<close>

theorem Ttree_ask_for_destroy_size_sum:
  "Ttree_ask_for_destroy_size stMalloc m t =
     (\<Sum>h\<in>#mset (inorder t) + node_handles t. chunk_size_op stMalloc m h) mod 2 ^ 32"
  by (simp add: Ttree_ask_for_destroy_size_def ask_for_destroy_size_sum u32_def)

text \<open>
  C12. \<open>KeyCompare\<close>, as far as the tree looks at it (an \<open>int\<close> of which it uses the sign),
  is the order of the keys: of integers in a window of \<open>2 ^ 31\<close> values, of case-folded
  strings and of binaries of any length.
\<close>

theorem KeyCompare_is_key_order:
  assumes "valid_key cookie w k" "valid_rec cookie w mem x"
  shows "sgn (iDiff (KeyCompare cookie mem) k x) =
    (if key_rank cookie k < rec_rank cookie mem x then -1
     else if key_rank cookie k = rec_rank cookie mem x then 0 else 1)"
  using KeyCompare_sign [OF assms] by (auto simp: rec_rank_def sgn_if)

lemma KeyCompare_is_key_order_witness:
  "sgn (iDiff (KeyCompare demo_cookie demo_mem) (S64 9) 100) = 1
   \<and> sgn (iDiff (KeyCompare demo_cookie demo_mem) (S64 5) 200) = -1"
  using KeyCompare_is_key_order [OF demo_facts(2,3)] KeyCompare_is_key_order [OF demo_facts(1,4)]
  by (simp add: demo_facts)



section \<open>Floating point keys\<close>

lemma round_even_le: "x \<le> of_int n \<Longrightarrow> round_even x \<le> n"
proof -
  assume x: "x \<le> of_int n"
  show "round_even x \<le> n"
  proof (cases "x = of_int n")
    case True
    then show ?thesis by (simp add: round_even_def)
  next
    case False
    then have "\<lfloor>x\<rfloor> + 1 \<le> n" using x by linarith
    then show ?thesis by (simp add: round_even_def Let_def)
  qed
qed

lemma round_even_ge:
  assumes "of_int n \<le> x"
  shows "n \<le> round_even x"
proof -
  have "n \<le> \<lfloor>x\<rfloor>" using assms by (simp add: le_floor_iff)
  also have "\<dots> \<le> round_even x" by (simp add: round_even_def Let_def)
  finally show ?thesis .
qed

lemma round_double_half:
  assumes "\<bar>d\<bar> \<le> 1 / 2"
  shows "\<exists>r. round_double d = Fin r \<and> \<bar>r\<bar> \<le> 1 / 2"
proof (cases "d = 0")
  case True
  then show ?thesis by (simp add: round_double_def)
next
  case False
  define e where "e = max (\<lfloor>log 2 \<bar>d\<bar>\<rfloor> - 52) (- 1074)"
  have "log 2 \<bar>d\<bar> \<le> log 2 (1 / 2)" using assms False by simp
  also have "\<dots> = - 1" by (simp add: log_divide)
  finally have "\<lfloor>log 2 \<bar>d\<bar>\<rfloor> \<le> - 1" by linarith
  then have e: "e \<le> - 1" unfolding e_def by linarith
  define n where "n = nat (- 1 - e)"
  have half: "(1 / 2 :: real) = 2 ^ n * 2 powi e"
  proof -
    have "(2 :: real) ^ n * 2 powi e = 2 powi (int n) * 2 powi e" by simp
    also have "\<dots> = 2 powi (int n + e)" by (simp add: power_int_add)
    also have "int n + e = - 1" using e by (simp add: n_def)
    finally show ?thesis by simp
  qed
  have pos: "(0 :: real) < 2 powi e" by simp
  have "d / 2 powi e \<le> of_int (2 ^ n)" "of_int (- (2 ^ n)) \<le> d / 2 powi e"
    using assms half pos by (auto simp: field_simps abs_le_iff)
  then have "round_even (d / 2 powi e) \<le> 2 ^ n" "- (2 ^ n) \<le> round_even (d / 2 powi e)"
    using round_even_le round_even_ge by blast+
  then have "\<bar>round_even (d / 2 powi e)\<bar> \<le> 2 ^ n" by (auto simp: abs_le_iff)
  then have "real_of_int \<bar>round_even (d / 2 powi e)\<bar> \<le> real_of_int (2 ^ n)" by (simp only: of_int_le_iff)
  then have "\<bar>of_int (round_even (d / 2 powi e)) :: real\<bar> \<le> 2 ^ n" by simp
  then have le: "\<bar>of_int (round_even (d / 2 powi e))\<bar> * 2 powi e \<le> 2 ^ n * (2 powi e :: real)"
    by (rule mult_right_mono) (rule less_imp_le [OF pos])
  define r where "r = of_int (round_even (d / 2 powi e)) * (2 powi e :: real)"
  have "\<bar>r\<bar> = \<bar>of_int (round_even (d / 2 powi e))\<bar> * 2 powi e"
    unfolding r_def abs_mult abs_of_pos [OF pos] ..
  then have r: "\<bar>r\<bar> \<le> 1 / 2" using le half by linarith
  have "\<not> 2 ^ N \<le> \<bar>r\<bar>" for N :: nat
    using r one_le_power [of "2 :: real" N] by linarith
  then have "round_double d = Fin r"
    using False by (simp only: round_double_def Let_def e_def [symmetric] r_def [symmetric] if_False)
  then show ?thesis using r by blast
qed

text \<open>
  C14. The comparison of floating point keys converts the difference to \<open>int64_t\<close>, which
  truncates it: two keys at a distance of up to one half are equal to the tree,
  although only a distance below 0.0001 is meant to be.
\<close>

theorem float_keys_collide:
  assumes "field_type (p_table cookie) (m_index cookie) = Float"
    and "convert_cvalue cookie mem x = FLT (Fin b)" "\<bar>a - b\<bar> \<le> 1 / 2"
  shows "KeyCompare cookie mem (FLT (Fin a)) x = 0"
proof -
  obtain r where r: "round_double (a - b) = Fin r" "\<bar>r\<bar> \<le> 1 / 2"
    using round_double_half [OF assms(3)] by blast
  then have "double_to_int64 (Fin r) = 0" by (auto simp: Let_def abs_le_iff ceiling_eq_iff floor_eq_iff)
  then show ?thesis using assms(1,2) r(1) unfolding KeyCompare_def convert_cvalue_def
    by (auto simp: Let_def split: if_splits)
qed

lemma float_keys_collide_witness:
  "KeyCompare \<lparr>p_table = \<lparr>field_type = \<lambda>_. Float, field_size = \<lambda>_. 8\<rparr>, m_index = 0\<rparr> (\<lambda>_. 0) (FLT (Fin (1 / 4))) 100 = 0"
proof -
  let ?c = "\<lparr>p_table = \<lparr>field_type = \<lambda>_. Float, field_size = \<lambda>_. 8\<rparr>, m_index = 0\<rparr>"
  have "load_le (\<lambda>_. 0) a n = 0" for a n by (induction n arbitrary: a) auto
  then have "convert_cvalue ?c (\<lambda>_. 0) 100 = FLT (Fin 0)"
    by (simp add: convert_cvalue_def double_of_bits_def)
  then show ?thesis by (intro float_keys_collide [of ?c "\<lambda>_. 0" 100 0]) simp_all
qed






text \<open>
  C16. \<open>isFreeNode\<close> does not say whether a node was freed: deleting the last record of a
  tree of one node frees the node and leaves \<open>isFreeNode\<close> as it was.
\<close>

theorem Delete_frees_without_flag:
  assumes "pfComp k x = 0"
  shows "Ttree_Delete stMalloc pfComp convert (TtreeNode h NIL NIL 0 [x]) k False m
    = Some (0, NIL, False, fst (Free_op stMalloc m h))"
  using assms by (simp add: Ttree_Delete_def TtreeNode_Delete.simps iDiff_def to_int32_def)

lemma Delete_frees_without_flag_witness:
  "Ttree_Delete demo_malloc (KeyCompare demo_cookie demo_mem) (convert_cvalue demo_cookie demo_mem)
     (TtreeNode 1000 NIL NIL 0 [100]) (S64 5) False 5 = Some (0, NIL, False, fst (Free_op demo_malloc 5 1000))"
proof (rule Delete_frees_without_flag)
  show "KeyCompare demo_cookie demo_mem (S64 5) 100 = 0"
    using KeyCompare_sign [OF demo_facts(1,3)] by (simp add: demo_facts flip: rec_rank_def)
qed

end
