(* ===== verification/PtMalloc.thy ===== *)
theory PtMalloc
  imports Mallocator
begin

text \<open>
  The shared-memory allocator \<open>PtMalloc\<close> (\<open>src/src/core/mem/pt_malloc.h\<close> and
  \<open>pt_malloc.cc\<close>). The segment above the header and the bins is a store of 4-byte cells,
  addressed by the handle (the offset of the cell in the segment), in which the headers of
  the chunks, the links of the free chunks and the data of the users lie side by side; a
  64-bit handle takes two cells. The header \<open>MemHead\<close> and the bins, which lie below the
  chunks, are fields of the state. An operation that would follow a null link returns
  \<open>None\<close>; handles below 8, for which the C++ code reads in front of the segment, are
  outside the model. The build does not define \<open>BIN_MEM_CHECK\<close>.
\<close>

section \<open>Constants and size classes\<close>

definition SIZE_SZ :: nat where
  "SIZE_SZ = 4"

definition MALLOC_ALIGN_MASK :: nat where
  "MALLOC_ALIGN_MASK = 7"

definition MAX_ALLOC_SIZE :: nat where
  "MAX_ALLOC_SIZE = 4294967288"

definition MINSIZE :: nat where
  "MINSIZE = 24"

definition NBINS :: nat where
  "NBINS = 128"

definition NFASTBINS :: nat where
  "NFASTBINS = 64"

definition MIN_LARGE_SIZE :: nat where
  "MIN_LARGE_SIZE = 512"

definition sizeof_MemHead :: nat where
  "sizeof_MemHead = 1024"

definition sizeof_CBin :: nat where
  "sizeof_CBin = 16"

definition DTC_RESERVE_SIZE :: nat where
  "DTC_RESERVE_SIZE = 4096"

definition DTC_VER_MIN :: nat where
  "DTC_VER_MIN = 4"

definition PREV_INUSE :: nat where
  "PREV_INUSE = 1"

definition REAL_SIZE :: "nat \<Rightarrow> nat" where
  "REAL_SIZE sz = sz div 8 * 8"

definition SIZE_BITS_of :: "nat \<Rightarrow> nat" where
  "SIZE_BITS_of v = v mod 8"

definition align8 :: "nat \<Rightarrow> nat" where
  "align8 n = (n + MALLOC_ALIGN_MASK) div 8 * 8"

definition REQUEST_OUT_OF_RANGE :: "nat \<Rightarrow> bool" where
  "REQUEST_OUT_OF_RANGE req \<longleftrightarrow> req \<ge> 2 ^ 32 - 2 * MINSIZE"

definition request2size :: "nat \<Rightarrow> nat" where
  "request2size req =
     (if req + SIZE_SZ + MALLOC_ALIGN_MASK < MINSIZE then MINSIZE
      else u32 ((req + SIZE_SZ + MALLOC_ALIGN_MASK) div 8 * 8))"

definition in_smallbin_range :: "nat \<Rightarrow> bool" where
  "in_smallbin_range sz \<longleftrightarrow> sz < MIN_LARGE_SIZE"

definition smallbin_index :: "nat \<Rightarrow> nat" where
  "smallbin_index sz = sz div 8"

definition largebin_index :: "nat \<Rightarrow> nat" where
  "largebin_index sz =
     (if sz div 64 \<le> 32 then 56 + sz div 64
      else if sz div 512 \<le> 20 then 91 + sz div 512
      else if sz div 4096 \<le> 10 then 110 + sz div 4096
      else if sz div 32768 \<le> 4 then 119 + sz div 32768
      else if sz div 262144 \<le> 2 then 124 + sz div 262144
      else 126)"

definition bin_index :: "nat \<Rightarrow> nat" where
  "bin_index sz = (if in_smallbin_range sz then smallbin_index sz else largebin_index sz)"

definition CAN_COMBILE :: "nat \<Rightarrow> nat \<Rightarrow> bool" where
  "CAN_COMBILE sz add \<longleftrightarrow> sz + add \<le> MAX_ALLOC_SIZE"

definition chunksize2memsize :: "nat \<Rightarrow> nat" where
  "chunksize2memsize sz = nat ((int sz - int SIZE_SZ) mod 2 ^ 32)"

section \<open>Cells and chunk headers\<close>

type_synonym cells = "nat \<Rightarrow> nat"

definition ld64 :: "cells \<Rightarrow> nat \<Rightarrow> nat" where
  "ld64 c a = c a + 2 ^ 32 * c (a + 4)"

definition st64 :: "nat \<Rightarrow> nat \<Rightarrow> cells \<Rightarrow> cells" where
  "st64 a v c = c(a := v mod 2 ^ 32, a + 4 := v div 2 ^ 32 mod 2 ^ 32)"

text \<open>The fields of the chunk header at \<open>h\<close>.\<close>

definition tPreSize :: "cells \<Rightarrow> handle \<Rightarrow> nat" where
  "tPreSize c h = c h"

definition tSize :: "cells \<Rightarrow> handle \<Rightarrow> nat" where
  "tSize c h = c (h + 4)"

definition hPreChunk :: "cells \<Rightarrow> handle \<Rightarrow> handle" where
  "hPreChunk c h = ld64 c (h + 8)"

definition hNextChunk :: "cells \<Rightarrow> handle \<Rightarrow> handle" where
  "hNextChunk c h = ld64 c (h + 16)"

definition set_tPreSize :: "handle \<Rightarrow> nat \<Rightarrow> cells \<Rightarrow> cells" where
  "set_tPreSize h v c = c(h := u32 v)"

definition set_tSize :: "handle \<Rightarrow> nat \<Rightarrow> cells \<Rightarrow> cells" where
  "set_tSize h v c = c(h + 4 := u32 v)"

definition set_hPreChunk :: "handle \<Rightarrow> handle \<Rightarrow> cells \<Rightarrow> cells" where
  "set_hPreChunk h v c = st64 (h + 8) v c"

definition set_hNextChunk :: "handle \<Rightarrow> handle \<Rightarrow> cells \<Rightarrow> cells" where
  "set_hNextChunk h v c = st64 (h + 16) v c"

definition CHUNK_SIZE :: "cells \<Rightarrow> handle \<Rightarrow> nat" where
  "CHUNK_SIZE c h = REAL_SIZE (tSize c h)"

definition prev_inuse :: "cells \<Rightarrow> handle \<Rightarrow> bool" where
  "prev_inuse c h \<longleftrightarrow> odd (tSize c h)"

definition inuse_bit_at_offset :: "cells \<Rightarrow> handle \<Rightarrow> nat \<Rightarrow> bool" where
  "inuse_bit_at_offset c h offset \<longleftrightarrow> odd (tSize c (h + offset))"

definition set_inuse_bit_at_offset :: "handle \<Rightarrow> nat \<Rightarrow> cells \<Rightarrow> cells" where
  "set_inuse_bit_at_offset h s c =
     set_tSize (h + s) (let v = tSize c (h + s) in if odd v then v else v + 1) c"

definition clear_inuse_bit_at_offset :: "handle \<Rightarrow> nat \<Rightarrow> cells \<Rightarrow> cells" where
  "clear_inuse_bit_at_offset h s c =
     set_tSize (h + s) (let v = tSize c (h + s) in if odd v then v - 1 else v) c"

definition set_size_at_offset :: "handle \<Rightarrow> nat \<Rightarrow> nat \<Rightarrow> cells \<Rightarrow> cells" where
  "set_size_at_offset h offset sz c =
     set_tSize (h + offset) (REAL_SIZE sz + SIZE_BITS_of (tSize c (h + offset))) c"

definition set_presize_at_offset :: "handle \<Rightarrow> nat \<Rightarrow> nat \<Rightarrow> cells \<Rightarrow> cells" where
  "set_presize_at_offset h offset sz c = set_tPreSize (h + offset) (REAL_SIZE sz) c"

section \<open>Bins\<close>

record CBin =
  m_hPreChunk :: handle
  m_hNextChunk :: handle

definition unlink_bin :: "CBin \<Rightarrow> handle \<Rightarrow> cells \<Rightarrow> int \<times> CBin \<times> cells" where
  "unlink_bin stBin hHandle c =
     (if hHandle = INVALID_HANDLE then (-1, stBin, c)
      else if m_hNextChunk stBin = INVALID_HANDLE \<or> m_hPreChunk stBin = INVALID_HANDLE
      then (-2, stBin, c)
      else
        let (stBin, c) =
              (if hPreChunk c hHandle = INVALID_HANDLE
               then (stBin\<lparr>m_hNextChunk := hNextChunk c hHandle\<rparr>, c)
               else (stBin, set_hNextChunk (hPreChunk c hHandle) (hNextChunk c hHandle) c));
            (stBin, c) =
              (if hNextChunk c hHandle = INVALID_HANDLE
               then (stBin\<lparr>m_hPreChunk := hPreChunk c hHandle\<rparr>, c)
               else (stBin, set_hPreChunk (hNextChunk c hHandle) (hPreChunk c hHandle) c))
        in (0, stBin, c))"

definition link_bin :: "CBin \<Rightarrow> handle \<Rightarrow> cells \<Rightarrow> int \<times> CBin \<times> cells" where
  "link_bin stBin hHandle c =
     (if hHandle = INVALID_HANDLE then (-1, stBin, c)
      else
        let c = set_hPreChunk hHandle INVALID_HANDLE
                  (set_hNextChunk hHandle (m_hNextChunk stBin) c) in
        if m_hNextChunk stBin \<noteq> INVALID_HANDLE then
          (let c = set_hPreChunk (m_hNextChunk stBin) hHandle c in
           if m_hPreChunk stBin = INVALID_HANDLE then (-2, stBin, c)
           else (0, stBin\<lparr>m_hNextChunk := hHandle\<rparr>, c))
        else if m_hPreChunk stBin \<noteq> INVALID_HANDLE then (-3, stBin, c)
        else (0, stBin\<lparr>m_hPreChunk := hHandle, m_hNextChunk := hHandle\<rparr>, c))"

text \<open>The search of \<open>link_sorted_bin\<close> from the tail for a chunk that is not smaller.\<close>

partial_function (option) sorted_place :: "cells \<Rightarrow> nat \<Rightarrow> handle \<Rightarrow> handle option" where
  "sorted_place c sz hPre =
     (if hPre = INVALID_HANDLE then Some INVALID_HANDLE
      else if sz \<le> tSize c hPre then Some hPre
      else sorted_place c sz (hPreChunk c hPre))"

definition link_sorted_bin ::
  "CBin \<Rightarrow> handle \<Rightarrow> nat \<Rightarrow> cells \<Rightarrow> (int \<times> CBin \<times> cells) option" where
  "link_sorted_bin stBin hHandle sz c =
     (if hHandle = INVALID_HANDLE then Some (-1, stBin, c)
      else
        let c = set_hPreChunk hHandle INVALID_HANDLE (set_hNextChunk hHandle INVALID_HANDLE c) in
        if m_hNextChunk stBin = INVALID_HANDLE then
          Some (0, stBin\<lparr>m_hNextChunk := hHandle, m_hPreChunk := hHandle\<rparr>, c)
        else
          Option.bind (sorted_place c (REAL_SIZE sz + PREV_INUSE) (m_hPreChunk stBin)) (\<lambda>hPre.
            if hPre = INVALID_HANDLE then
              (if m_hPreChunk stBin = INVALID_HANDLE then Some (-1, stBin, c)
               else case link_bin stBin hHandle c of (_, stBin, c) \<Rightarrow> Some (0, stBin, c))
            else
              let c = set_hPreChunk hHandle hPre c;
                  c = set_hNextChunk hHandle (hNextChunk c hPre) c;
                  c = set_hNextChunk hPre hHandle c in
              if hNextChunk c hHandle \<noteq> INVALID_HANDLE then
                Some (0, stBin, set_hPreChunk (hNextChunk c hHandle) hHandle c)
              else Some (0, stBin\<lparr>m_hPreChunk := hHandle\<rparr>, c)))"

section \<open>The allocator's state\<close>

record PtMalloc =
  pt_cells :: cells
  m_auiSign :: "nat list"
  m_ushVer :: nat
  m_tSize :: nat
  m_tUserAllocSize :: nat
  m_tUserAllocChunkCnt :: nat
  m_uiFlags :: nat
  m_hBottom :: handle
  m_hReserveZone :: handle
  m_hTop :: handle
  m_tLastFreeChunkSize :: nat
  m_auiBinBitMap :: "nat \<Rightarrow> nat"
  m_shmIntegrity :: nat
  m_ptBin :: "nat \<Rightarrow> CBin"
  m_ptFastBin :: "nat \<Rightarrow> CBin"
  m_ptUnsortedBin :: CBin
  statChunkTotal :: int
  statDataSize :: nat
  statMemoryTop :: nat
  statTmpDataSizeRecently :: nat
  statTmpDataAllocCountRecently :: nat
  statAverageDataSizeRecently :: nat
  minChunkSize :: nat

definition MAXSTATCOUNT :: nat where
  "MAXSTATCOUNT = 10000 * 3600 * 12"

definition add_alloc_size_to_stat :: "nat \<Rightarrow> PtMalloc \<Rightarrow> PtMalloc" where
  "add_alloc_size_to_stat sz s =
     (if statTmpDataAllocCountRecently s > MAXSTATCOUNT then
        s\<lparr>statTmpDataSizeRecently := 0, statTmpDataAllocCountRecently := 0,
          statAverageDataSizeRecently := MINSIZE\<rparr>
      else
        let total = u64 (statTmpDataSizeRecently s + sz);
            cnt = statTmpDataAllocCountRecently s + 1 in
        s\<lparr>statTmpDataSizeRecently := total, statTmpDataAllocCountRecently := cnt,
          statAverageDataSizeRecently := total div cnt\<rparr>)"

definition get_min_chunk_size :: "PtMalloc \<Rightarrow> nat" where
  "get_min_chunk_size s =
     (if minChunkSize s = 1 then
        (if statChunkTotal s \<le> 0 then MINSIZE
         else u32 (statDataSize s div nat (statChunkTotal s)))
      else minChunkSize s)"

definition set_min_chunk_size :: "nat \<Rightarrow> PtMalloc \<Rightarrow> PtMalloc" where
  "set_min_chunk_size sz s =
     s\<lparr>minChunkSize := (if sz = 1 then 1 else if sz < MINSIZE then MINSIZE else sz)\<rparr>"

definition set_bin_bit_map :: "nat \<Rightarrow> PtMalloc \<Rightarrow> PtMalloc" where
  "set_bin_bit_map i s =
     s\<lparr>m_auiBinBitMap := (m_auiBinBitMap s)(i div 32 := set_bit (i mod 32) (m_auiBinBitMap s (i div 32)))\<rparr>"

definition clear_bin_bit_map :: "nat \<Rightarrow> PtMalloc \<Rightarrow> PtMalloc" where
  "clear_bin_bit_map i s =
     s\<lparr>m_auiBinBitMap := (m_auiBinBitMap s)(i div 32 := unset_bit (i mod 32) (m_auiBinBitMap s (i div 32)))\<rparr>"

definition empty_bin :: "nat \<Rightarrow> PtMalloc \<Rightarrow> bool" where
  "empty_bin i s \<longleftrightarrow> m_hNextChunk (m_ptBin s i) = INVALID_HANDLE"

text \<open>The operations on cells and on one bin, lifted to the state.\<close>

abbreviation on_cells :: "(cells \<Rightarrow> cells) \<Rightarrow> PtMalloc \<Rightarrow> PtMalloc" where
  "on_cells f s \<equiv> s\<lparr>pt_cells := f (pt_cells s)\<rparr>"

definition unlink_ptBin :: "nat \<Rightarrow> handle \<Rightarrow> PtMalloc \<Rightarrow> PtMalloc" where
  "unlink_ptBin i h s =
     (case unlink_bin (m_ptBin s i) h (pt_cells s) of (_, stBin, c) \<Rightarrow>
        s\<lparr>m_ptBin := (m_ptBin s)(i := stBin), pt_cells := c\<rparr>)"

definition link_ptBin :: "nat \<Rightarrow> handle \<Rightarrow> PtMalloc \<Rightarrow> PtMalloc" where
  "link_ptBin i h s =
     (case link_bin (m_ptBin s i) h (pt_cells s) of (_, stBin, c) \<Rightarrow>
        s\<lparr>m_ptBin := (m_ptBin s)(i := stBin), pt_cells := c\<rparr>)"

text \<open>\<open>unlink_bin(...); if (empty_bin(uiBinIdx)) clear_bin_bit_map(uiBinIdx);\<close>\<close>

definition take_from_bin :: "nat \<Rightarrow> handle \<Rightarrow> PtMalloc \<Rightarrow> PtMalloc" where
  "take_from_bin i h s =
     (let s = unlink_ptBin i h s in if empty_bin i s then clear_bin_bit_map i s else s)"

definition ptr_to_handle :: "nat \<Rightarrow> PtMalloc \<Rightarrow> handle" where
  "ptr_to_handle a s = (if a \<ge> m_tSize s then INVALID_HANDLE else a)"

section \<open>Initialisation\<close>

definition V4Sign :: "nat list" where
  "V4Sign = [0, 0x4D635474, 1, 0xFFFFFFFF, 0xFFFFFFFF, 0xFFFFFFFF, 4, 0, 16, 0xFFFFFFFF, 0, 0,
             0xFFFFFFFF, 0xFFFFFFFF]"

definition BINS_SIZE :: nat where
  "BINS_SIZE = sizeof_CBin * (NBINS + NFASTBINS + 1)"

definition do_init :: "nat \<Rightarrow> PtMalloc \<Rightarrow> int \<times> PtMalloc" where
  "do_init sz s =
     (if sz < sizeof_MemHead + BINS_SIZE + DTC_RESERVE_SIZE + MINSIZE then (-1, s)
      else
        let zone = align8 (sizeof_MemHead + BINS_SIZE);
            bottom = align8 (zone + DTC_RESERVE_SIZE);
            nobin = \<lparr>m_hPreChunk = INVALID_HANDLE, m_hNextChunk = INVALID_HANDLE\<rparr> in
        (0, s\<lparr>pt_cells := set_tSize bottom PREV_INUSE (set_tPreSize bottom 0 (pt_cells s)),
              m_auiSign := V4Sign, m_ushVer := DTC_VER_MIN, m_tSize := sz,
              m_tUserAllocSize := bottom, m_tUserAllocChunkCnt := 0, m_uiFlags := 0,
              m_hBottom := bottom, m_hReserveZone := zone, m_hTop := bottom,
              m_tLastFreeChunkSize := (if sz > bottom + MINSIZE then sz - bottom - MINSIZE else 0),
              m_auiBinBitMap := (\<lambda>_. 0), m_shmIntegrity := 0,
              m_ptBin := (\<lambda>_. nobin), m_ptFastBin := (\<lambda>_. nobin), m_ptUnsortedBin := nobin,
              statChunkTotal := 0, statDataSize := bottom, statMemoryTop := bottom\<rparr>))"

definition detect_version :: "PtMalloc \<Rightarrow> nat" where
  "detect_version s =
     (if m_auiSign s ! 0 \<noteq> V4Sign ! 0 \<or> m_auiSign s ! 1 \<noteq> V4Sign ! 1 then 1
      else if m_ushVer s = 2 then 2
      else if m_ushVer s = 3 then 3
      else if m_ushVer s = 4 then 4
      else 0)"

definition do_attach :: "nat \<Rightarrow> PtMalloc \<Rightarrow> int \<times> PtMalloc" where
  "do_attach sz s =
     (if sz < sizeof_MemHead + BINS_SIZE + MINSIZE then (-1, s)
      else if detect_version s \<noteq> DTC_VER_MIN then (-2, s)
      else if m_tSize s \<noteq> sz then (-3, s)
      else if m_hTop s \<ge> m_tSize s then (-4, s)
      else (0, s\<lparr>statChunkTotal := int (m_tUserAllocChunkCnt s), statDataSize := m_tUserAllocSize s\<rparr>))"

definition share_memory_integrity :: "PtMalloc \<Rightarrow> int" where
  "share_memory_integrity s = to_int32 (int (m_shmIntegrity s))"

definition set_share_memory_integrity :: "int \<Rightarrow> PtMalloc \<Rightarrow> PtMalloc" where
  "set_share_memory_integrity flags s = s\<lparr>m_shmIntegrity := (if flags \<noteq> 0 then 1 else 0)\<rparr>"

definition get_reserve_zone :: "PtMalloc \<Rightarrow> handle" where
  "get_reserve_zone s = m_hReserveZone s"

section \<open>Checks\<close>

definition AT_TOP :: "handle \<Rightarrow> nat \<Rightarrow> PtMalloc \<Rightarrow> bool" where
  "AT_TOP h sz s \<longleftrightarrow> h + sz = m_hTop s"

definition check_inuse_chunk :: "handle \<Rightarrow> PtMalloc \<Rightarrow> int" where
  "check_inuse_chunk h s =
     (let c = pt_cells s; sz = CHUNK_SIZE c h in
      if \<not> inuse_bit_at_offset c h sz then -1
      else if \<not> prev_inuse c h \<and>
        (h < tPreSize c h \<or> ptr_to_handle (h - tPreSize c h) s < m_hBottom s
         \<or> CHUNK_SIZE c (h - tPreSize c h) \<noteq> tPreSize c h) then -2
      else if \<not> AT_TOP (h + sz) 0 s \<and> CHUNK_SIZE c (h + sz) < MINSIZE then -3
      else 0)"

definition chunk_size :: "handle \<Rightarrow> PtMalloc \<Rightarrow> nat" where
  "chunk_size hHandle s =
     (if hHandle \<ge> m_hTop s \<or> hHandle \<le> m_hBottom s then 0
      else if check_inuse_chunk (hHandle - 8) s \<noteq> 0 then 0
      else chunksize2memsize (CHUNK_SIZE (pt_cells s) (hHandle - 8)))"

text \<open>\<open>check_bin\<close> walks a bin from its head to its tail.\<close>

partial_function (option) bin_tail :: "cells \<Rightarrow> handle \<Rightarrow> handle option" where
  "bin_tail c h =
     (if hNextChunk c h \<noteq> INVALID_HANDLE then bin_tail c (hNextChunk c h) else Some h)"

definition bin_ok :: "CBin \<Rightarrow> cells \<Rightarrow> bool option" where
  "bin_ok stBin c =
     map_option (\<lambda>h. m_hPreChunk stBin = h)
       (if m_hNextChunk stBin \<noteq> INVALID_HANDLE then bin_tail c (m_hNextChunk stBin)
        else Some INVALID_HANDLE)"

fun check_bins :: "(nat \<Rightarrow> CBin) \<Rightarrow> cells \<Rightarrow> nat list \<Rightarrow> bool option" where
  "check_bins bins c [] = Some True"
| "check_bins bins c (i # is) =
     Option.bind (bin_ok (bins i) c) (\<lambda>ok. if ok then check_bins bins c is else Some False)"

definition check_bin :: "PtMalloc \<Rightarrow> int option" where
  "check_bin s =
     Option.bind (check_bins (m_ptBin s) (pt_cells s) [0..<NBINS]) (\<lambda>ok.
       if \<not> ok then Some (-1)
       else Option.bind (check_bins (m_ptFastBin s) (pt_cells s) [0..<NFASTBINS]) (\<lambda>ok.
         if \<not> ok then Some (-2)
         else map_option (\<lambda>ok. if \<not> ok then -3 else 0) (bin_ok (m_ptUnsortedBin s) (pt_cells s))))"

section \<open>Freeing\<close>

text \<open>
  The three parts of \<open>inter_free\<close> after its checks: merge with the previous chunk, merge
  with the next chunk, give the chunk to the top or to a bin. A chunk is its handle and size.
\<close>

definition merge_prev :: "handle \<Rightarrow> nat \<Rightarrow> PtMalloc \<Rightarrow> handle \<times> nat \<times> PtMalloc" where
  "merge_prev h sz s =
     (let c = pt_cells s; pre = tPreSize c h in
      if \<not> prev_inuse c h \<and> CAN_COMBILE sz pre then
        (let sz = u32 (sz + pre); h = h - pre;
             s = take_from_bin (bin_index pre) h s;
             s = on_cells (set_size_at_offset h 0 sz) s;
             s = on_cells (set_presize_at_offset h sz sz) s
         in (h, sz, s))
      else (h, sz, s))"

definition merge_next :: "handle \<Rightarrow> nat \<Rightarrow> PtMalloc \<Rightarrow> (nat \<times> PtMalloc) option" where
  "merge_next h sz s =
     (if h + sz \<noteq> m_hTop s then
        (let c = pt_cells s; next = h + sz; nsz = CHUNK_SIZE c next in
         if nsz < MINSIZE then None
         else if \<not> inuse_bit_at_offset c next nsz \<and> CAN_COMBILE sz nsz then
           (let sz = u32 (sz + nsz);
                s = take_from_bin (bin_index nsz) next s;
                s = on_cells (set_size_at_offset h 0 sz) s;
                s = on_cells (set_presize_at_offset h sz sz) s
            in Some (sz, s))
         else Some (sz, s))
      else Some (sz, s))"

text \<open>
  The last part writes the chunk's size at both its ends and sets its in-use bit, then gives
  it to the top or clears the bit and links the chunk into the bin of its size.
\<close>

definition claim :: "handle \<Rightarrow> nat \<Rightarrow> PtMalloc \<Rightarrow> PtMalloc" where
  "claim h sz s =
     on_cells (set_inuse_bit_at_offset h sz \<circ> set_presize_at_offset h sz sz \<circ> set_size_at_offset h 0 sz) s"

definition release :: "handle \<Rightarrow> nat \<Rightarrow> PtMalloc \<Rightarrow> PtMalloc" where
  "release h sz s =
     (let s = (if m_tLastFreeChunkSize s < sz then s\<lparr>m_tLastFreeChunkSize := sz\<rparr> else s) in
      if h + sz = m_hTop s then
        (let s = s\<lparr>m_hTop := m_hTop s - sz, statMemoryTop := m_hTop s - sz\<rparr>;
             s = on_cells (set_tSize h PREV_INUSE) s in
         if m_tSize s > m_hTop s + MINSIZE
            \<and> m_tLastFreeChunkSize s < m_tSize s - m_hTop s - MINSIZE
         then s\<lparr>m_tLastFreeChunkSize := m_tSize s - m_hTop s - MINSIZE\<rparr> else s)
      else
        (let s = on_cells (clear_inuse_bit_at_offset h sz) s;
             i = (if in_smallbin_range sz then smallbin_index sz else largebin_index sz)
         in set_bin_bit_map i (link_ptBin i h s)))"

definition place_free :: "handle \<Rightarrow> nat \<Rightarrow> PtMalloc \<Rightarrow> PtMalloc" where
  "place_free h sz s = release h sz (claim h sz s)"

definition inter_free :: "handle \<Rightarrow> PtMalloc \<Rightarrow> int \<times> nat \<times> PtMalloc" where
  "inter_free hHandle s =
     (if hHandle = INVALID_HANDLE then (0, 0, s)
      else if hHandle \<ge> m_tSize s then (-1, 0, s)
      else
        let h = hHandle - 8; sz = CHUNK_SIZE (pt_cells s) h in
        if h + sz \<ge> m_tSize s then (-2, sz, s)
        else if \<not> inuse_bit_at_offset (pt_cells s) h sz then (-3, sz, s)
        else if h mod 8 \<noteq> 0 then (0, sz, s)
        else if check_inuse_chunk h s \<noteq> 0 then (0, sz, s)
        else
          (case merge_prev h sz s of (h', sz', s') \<Rightarrow>
            (case merge_next h' sz' s' of
               None \<Rightarrow> (-4, sz, s')
             | Some (sz'', s'') \<Rightarrow> (0, sz, place_free h' sz'' s''))))"

definition Free :: "handle \<Rightarrow> PtMalloc \<Rightarrow> int \<times> PtMalloc" where
  "Free hHandle s =
     (case inter_free hHandle s of (iRet, sz, s) \<Rightarrow>
        if iRet = 0 then
          (iRet, s\<lparr>m_tUserAllocSize := nat ((int (m_tUserAllocSize s) - int sz) mod 2 ^ 64),
                   m_tUserAllocChunkCnt := nat ((int (m_tUserAllocChunkCnt s) - 1) mod 2 ^ 64),
                   statChunkTotal := statChunkTotal s - 1,
                   statDataSize := nat ((int (m_tUserAllocSize s) - int sz) mod 2 ^ 64)\<rparr>)
        else (iRet, s))"

section \<open>Allocating\<close>

definition bin_malloc :: "CBin \<Rightarrow> cells \<Rightarrow> handle \<times> CBin \<times> cells" where
  "bin_malloc ptBin c =
     (if m_hNextChunk ptBin = INVALID_HANDLE then (INVALID_HANDLE, ptBin, c)
      else
        let h = m_hNextChunk ptBin;
            c = set_inuse_bit_at_offset h (REAL_SIZE (tSize c h)) c in
        (case unlink_bin ptBin h c of (_, ptBin, c) \<Rightarrow> (h, ptBin, c)))"

definition fast_malloc :: "nat \<Rightarrow> PtMalloc \<Rightarrow> handle \<times> PtMalloc" where
  "fast_malloc sz s =
     (let i = smallbin_index sz in
      case bin_malloc (m_ptFastBin s i) (pt_cells s) of (h, stBin, c) \<Rightarrow>
        (h, s\<lparr>m_ptFastBin := (m_ptFastBin s)(i := stBin), pt_cells := c\<rparr>))"

definition small_bin_malloc :: "nat \<Rightarrow> PtMalloc \<Rightarrow> handle \<times> PtMalloc" where
  "small_bin_malloc sz s =
     (let i = smallbin_index sz in
      case bin_malloc (m_ptBin s i) (pt_cells s) of (h, stBin, c) \<Rightarrow>
        (let s = s\<lparr>m_ptBin := (m_ptBin s)(i := stBin), pt_cells := c\<rparr> in
         (h, if empty_bin i s then clear_bin_bit_map i s else s)))"

definition top_alloc :: "nat \<Rightarrow> PtMalloc \<Rightarrow> handle \<times> PtMalloc" where
  "top_alloc sz s =
     (if m_hTop s + sz + MINSIZE \<ge> m_tSize s then (INVALID_HANDLE, s)
      else
        let h = m_hTop s;
            s = on_cells (\<lambda>c. set_tSize h (SIZE_BITS_of (tSize c h) + REAL_SIZE sz) c) s;
            s = on_cells (set_tPreSize (h + sz) (REAL_SIZE sz)) s;
            s = on_cells (set_tSize (h + sz) PREV_INUSE) s
        in (h + 8, s\<lparr>m_hTop := h + sz, statMemoryTop := h + sz\<rparr>))"

text \<open>The search of a large bin: at most 99 chunks from the head are looked at.\<close>

fun large_search :: "cells \<Rightarrow> nat \<Rightarrow> handle \<Rightarrow> nat \<Rightarrow> handle option" where
  "large_search c sz v 0 = None"
| "large_search c sz v (Suc n) =
     (if v = INVALID_HANDLE then None
      else if CHUNK_SIZE c v \<ge> sz then Some v
      else large_search c sz (hNextChunk c v) n)"

text \<open>
  The search for the next bin that holds a chunk. The scan of the bitmap runs past its four
  words, into \<open>m_shmIntegrity\<close> and the reserved bytes behind it, which are zero.
\<close>

definition bitmap_word :: "PtMalloc \<Rightarrow> nat \<Rightarrow> nat" where
  "bitmap_word s i = (if i < 4 then m_auiBinBitMap s i else if i = 4 then m_shmIntegrity s else 0)"

function skip_words :: "PtMalloc \<Rightarrow> nat \<Rightarrow> nat" where
  "skip_words s i = (if i < 16 \<and> bitmap_word s i = 0 then skip_words s (i + 1) else i)"
  by pat_completeness auto
termination
  by (relation "measure (\<lambda>(s, i). 16 - i)") auto

function skip_bins :: "PtMalloc \<Rightarrow> nat \<Rightarrow> nat" where
  "skip_bins s i =
     (if i < NBINS \<and> m_hNextChunk (m_ptBin s i) = INVALID_HANDLE then skip_bins s (i + 1) else i)"
  by pat_completeness auto
termination
  by (relation "measure (\<lambda>(s, i). NBINS - i)") auto

declare skip_words.simps [simp del] skip_bins.simps [simp del]

definition next_bin :: "PtMalloc \<Rightarrow> nat \<Rightarrow> nat" where
  "next_bin s i =
     (let i = i + 1 in
      skip_bins s (if bitmap_word s (i div 32) = 0 then skip_words s (i div 32 + 1) * 32 else i))"

partial_function (option) search_back :: "cells \<Rightarrow> nat \<Rightarrow> handle \<Rightarrow> handle option" where
  "search_back c sz h =
     (if h = INVALID_HANDLE then None
      else if CHUNK_SIZE c h < sz then search_back c sz (hPreChunk c h)
      else Some h)"

text \<open>Take the chunk \<open>h\<close> out of its bin and give what it has beyond \<open>sz\<close> back.\<close>

definition carve :: "nat \<Rightarrow> handle \<Rightarrow> nat \<Rightarrow> PtMalloc \<Rightarrow> PtMalloc" where
  "carve i h sz s =
     (let remain = CHUNK_SIZE (pt_cells s) h - sz;
          s = take_from_bin i h s in
      if remain < get_min_chunk_size s then
        on_cells (\<lambda>c. set_inuse_bit_at_offset h (CHUNK_SIZE c h) c) s
      else
        let s = on_cells (\<lambda>c. set_tSize h (sz + SIZE_BITS_of (tSize c h)) c) s;
            n = h + sz;
            s = on_cells (set_tSize n remain) s;
            s = on_cells (set_tPreSize n sz) s;
            s = on_cells (set_inuse_bit_at_offset n 0) s;
            s = on_cells (set_tPreSize (h + sz + remain) remain) s;
            s = on_cells (set_inuse_bit_at_offset n remain) s
        in snd (snd (inter_free (n + 8) s)))"

text \<open>The second half of \<open>inter_malloc\<close>: a chunk of a bin behind \<open>i\<close>, or from the top.\<close>

definition scan_malloc :: "nat \<Rightarrow> PtMalloc \<Rightarrow> (handle \<times> PtMalloc) option" where
  "scan_malloc sz s =
     (let i = next_bin s (bin_index sz) in
      if i \<ge> NBINS then
        (case top_alloc sz s of (h, s) \<Rightarrow>
           Some (if h = INVALID_HANDLE then INVALID_HANDLE else ptr_to_handle h s, s))
      else
        map_option (\<lambda>h. let s' = carve i h sz s in (ptr_to_handle (h + 8) s', s'))
          (search_back (pt_cells s) sz (m_hPreChunk (m_ptBin s i))))"

definition inter_malloc :: "nat \<Rightarrow> PtMalloc \<Rightarrow> (handle \<times> PtMalloc) option" where
  "inter_malloc req s =
     (if REQUEST_OUT_OF_RANGE req then Some (INVALID_HANDLE, s)
      else
        let sz = request2size req in
        if in_smallbin_range sz then
          (let (h, s) = small_bin_malloc sz s in
           if h \<noteq> INVALID_HANDLE then Some (ptr_to_handle (h + 8) s, s) else scan_malloc sz s)
        else
          let i = bin_index sz in
          (case large_search (pt_cells s) sz (m_hNextChunk (m_ptBin s i)) 99 of
             Some h \<Rightarrow> (let s' = carve i h sz s in Some (ptr_to_handle (h + 8) s', s'))
           | None \<Rightarrow> scan_malloc sz s))"

definition Malloc :: "nat \<Rightarrow> PtMalloc \<Rightarrow> (handle \<times> PtMalloc) option" where
  "Malloc req s =
     map_option (\<lambda>(h, s).
       if h \<noteq> INVALID_HANDLE then
         (let user = u64 (m_tUserAllocSize s + CHUNK_SIZE (pt_cells s) (h - 8));
              s = s\<lparr>m_tUserAllocSize := user, m_tUserAllocChunkCnt := u64 (m_tUserAllocChunkCnt s + 1),
                    statChunkTotal := statChunkTotal s + 1, statDataSize := user\<rparr>
          in (h, add_alloc_size_to_stat req s))
       else (h, s))
       (inter_malloc req (s\<lparr>m_tLastFreeChunkSize := 0\<rparr>))"

text \<open>\<open>memset(p, 0, n)\<close> on cells: the last cell may be cleared in part.\<close>

definition zero_bytes :: "nat \<Rightarrow> nat \<Rightarrow> cells \<Rightarrow> cells" where
  "zero_bytes a n c =
     (\<lambda>x. if a \<le> x \<and> x + 4 \<le> a + n then 0
          else if a \<le> x \<and> x < a + n then c x div 2 ^ (8 * (a + n - x)) * 2 ^ (8 * (a + n - x))
          else c x)"

definition Calloc :: "nat \<Rightarrow> PtMalloc \<Rightarrow> (handle \<times> PtMalloc) option" where
  "Calloc req s =
     map_option (\<lambda>(h, s). if h \<noteq> INVALID_HANDLE then (h, on_cells (zero_bytes h req) s) else (h, s))
       (Malloc req s)"

section \<open>Reallocating\<close>

definition copy_cells :: "nat \<Rightarrow> nat \<Rightarrow> nat \<Rightarrow> cells \<Rightarrow> cells" where
  "copy_cells dst src n c = (\<lambda>x. if dst \<le> x \<and> x < dst + n then c (x - dst + src) else c x)"

definition remain_part :: "nat \<Rightarrow> nat" where
  "remain_part remainder =
     (if remainder > MAX_ALLOC_SIZE then
        (if remainder - MAX_ALLOC_SIZE \<ge> MINSIZE then REAL_SIZE MAX_ALLOC_SIZE
         else REAL_SIZE (remainder - MINSIZE))
      else remainder)"

definition free_remain :: "handle \<Rightarrow> nat \<Rightarrow> PtMalloc \<Rightarrow> PtMalloc" where
  "free_remain r this s =
     (let s = on_cells (set_tSize r (REAL_SIZE this + PREV_INUSE)) s;
          n = r + REAL_SIZE this;
          s = on_cells (set_tPreSize n (REAL_SIZE this)) s;
          s = on_cells (set_inuse_bit_at_offset n 0) s;
          s = on_cells (set_inuse_bit_at_offset r this) s
      in snd (snd (inter_free (ptr_to_handle (r + 8) s) s)))"

lemma remain_part_pos: "0 < remainder \<Longrightarrow> 0 < remain_part remainder"
  by (auto simp: remain_part_def MAX_ALLOC_SIZE_def MINSIZE_def REAL_SIZE_def)

function split_remain :: "handle \<Rightarrow> nat \<Rightarrow> PtMalloc \<Rightarrow> PtMalloc" where
  "split_remain r remainder s =
     (if remainder = 0 then s
      else split_remain (r + REAL_SIZE (remain_part remainder)) (remainder - remain_part remainder)
             (free_remain r (remain_part remainder) s))"
  by pat_completeness auto
termination
  by (relation "measure (\<lambda>(r, remainder, s). remainder)") (auto intro!: diff_less remain_part_pos)

declare split_remain.simps [simp del]

text \<open>The end of \<open>inter_re_alloc\<close>: split what the chunk has beyond the request, write its header.\<close>

definition finish_re_alloc :: "handle \<Rightarrow> nat \<Rightarrow> nat \<Rightarrow> bool \<Rightarrow> nat \<Rightarrow> PtMalloc \<Rightarrow> handle \<times> PtMalloc" where
  "finish_re_alloc hNew newSize sz preInUse pre s =
     (let (newSize, s) =
        (if newSize - sz \<ge> get_min_chunk_size s
         then (sz, split_remain (hNew + sz) (newSize - sz) s)
         else (newSize, on_cells (set_inuse_bit_at_offset (hNew + REAL_SIZE newSize) 0) s));
        s = on_cells (set_tSize hNew (REAL_SIZE newSize + (if preInUse then PREV_INUSE else 0))) s;
        s = on_cells (set_tPreSize hNew pre) s
      in (ptr_to_handle (hNew + 8) s, s))"

definition inter_re_alloc :: "handle \<Rightarrow> nat \<Rightarrow> PtMalloc \<Rightarrow> (handle \<times> nat \<times> PtMalloc) option" where
  "inter_re_alloc hHandle req s =
     (if hHandle = INVALID_HANDLE then map_option (\<lambda>(h, s). (h, 0, s)) (inter_malloc req s)
      else if req = 0 then
        (case inter_free hHandle s of (_, old, s) \<Rightarrow> Some (INVALID_HANDLE, old, s))
      else if REQUEST_OUT_OF_RANGE req then Some (INVALID_HANDLE, 0, s)
      else if hHandle \<ge> m_hTop s \<or> hHandle \<le> m_hBottom s then Some (INVALID_HANDLE, 0, s)
      else
        let sz = request2size req; h = hHandle - 8; c = pt_cells s; old = CHUNK_SIZE c h;
            n = h + old; pre = tPreSize c h in
        if h + old > m_hTop s \<or> h mod 8 \<noteq> 0 \<or> old < MINSIZE \<or> check_inuse_chunk h s \<noteq> 0
        then Some (INVALID_HANDLE, 0, s)
        else if old \<ge> sz then
          (case finish_re_alloc h old sz (prev_inuse c h) pre s of (h', s') \<Rightarrow> Some (h', old, s'))
        else if AT_TOP h old s \<and> m_hTop s + (sz - old) + MINSIZE < m_tSize s then
          (let s = on_cells (set_tSize h (REAL_SIZE sz + SIZE_BITS_of (tSize c h))) s;
               top = m_hTop s + (sz - old);
               s = on_cells (set_tPreSize top (REAL_SIZE sz)) s;
               s = on_cells (set_tSize top PREV_INUSE) s;
               s = s\<lparr>m_hTop := top, statMemoryTop := top\<rparr>
           in Some (ptr_to_handle (h + 8) s, old, s))
        else if \<not> AT_TOP h old s \<and> \<not> inuse_bit_at_offset c n (CHUNK_SIZE c n)
                \<and> old + CHUNK_SIZE c n \<ge> sz then
          (let s = unlink_ptBin (bin_index (CHUNK_SIZE c n)) n s in
           case finish_re_alloc h (old + CHUNK_SIZE c n) sz (prev_inuse c h) pre s of
             (h', s') \<Rightarrow> Some (h', old, s'))
        else if \<not> prev_inuse c h \<and> u32 (old + pre) \<ge> sz then
          (let hNew = h - pre;
               s = unlink_ptBin (bin_index pre) hNew s;
               s = on_cells (copy_cells (hNew + 8) (h + 8) (chunksize2memsize old)) s in
           case finish_re_alloc hNew (old + pre) sz (prev_inuse c hNew) (tPreSize c hNew) s of
             (h', s') \<Rightarrow> Some (h', old, s'))
        else
          map_option (\<lambda>(hNew, s).
            if hNew = INVALID_HANDLE then (INVALID_HANDLE, old, s)
            else
              let s = on_cells (copy_cells hNew (h + 8) (chunksize2memsize old)) s
              in (hNew, old, snd (snd (inter_free (h + 8) s))))
            (inter_malloc req s))"

definition ReAlloc :: "handle \<Rightarrow> nat \<Rightarrow> PtMalloc \<Rightarrow> (handle \<times> PtMalloc) option" where
  "ReAlloc hHandle req s =
     map_option (\<lambda>(hNew, old, s).
       if hNew \<noteq> INVALID_HANDLE then
         (let user = nat ((int (m_tUserAllocSize s) + int (CHUNK_SIZE (pt_cells s) (hNew - 8)) - int old) mod 2 ^ 64);
              s = s\<lparr>m_tUserAllocSize := user\<rparr>;
              s = (if hHandle = INVALID_HANDLE
                   then s\<lparr>m_tUserAllocChunkCnt := u64 (m_tUserAllocChunkCnt s + 1),
                          statChunkTotal := statChunkTotal s + 1\<rparr> else s);
              s = add_alloc_size_to_stat req s
          in (hNew, s\<lparr>statDataSize := user\<rparr>))
       else if req = 0 then
         (let user = nat ((int (m_tUserAllocSize s) - int old) mod 2 ^ 64) in
          (hNew, s\<lparr>m_tUserAllocSize := user,
                   m_tUserAllocChunkCnt := nat ((int (m_tUserAllocChunkCnt s) - 1) mod 2 ^ 64),
                   statChunkTotal := statChunkTotal s - 1, statDataSize := user\<rparr>))
       else (hNew, s))
       (inter_re_alloc hHandle req (s\<lparr>m_tLastFreeChunkSize := 0\<rparr>))"

section \<open>Sizes\<close>

definition ask_for_destroy_size :: "handle \<Rightarrow> PtMalloc \<Rightarrow> nat" where
  "ask_for_destroy_size hHandle s =
     (if hHandle = INVALID_HANDLE \<or> hHandle \<ge> m_tSize s then 0
      else
        let c = pt_cells s; h = hHandle - 8; sz = CHUNK_SIZE c h in
        if h + sz > m_tSize s \<or> \<not> inuse_bit_at_offset c h sz \<or> h mod 8 \<noteq> 0
           \<or> check_inuse_chunk h s \<noteq> 0 then 0
        else
          let (h, sz) = (if \<not> prev_inuse c h \<and> CAN_COMBILE sz (tPreSize c h)
                         then (h - tPreSize c h, u32 (sz + tPreSize c h)) else (h, sz));
              n = h + sz in
          if n \<noteq> m_hTop s \<and> CHUNK_SIZE c n < MINSIZE then 0
          else
            let sz = (if n \<noteq> m_hTop s \<and> \<not> inuse_bit_at_offset c n (CHUNK_SIZE c n)
                         \<and> CAN_COMBILE sz (CHUNK_SIZE c n)
                      then u32 (sz + CHUNK_SIZE c n) else sz);
                sz = (if h + sz = m_hTop s
                      then max sz (nat ((int (m_tSize s) - int (m_hTop s) - int MINSIZE + int sz) mod 2 ^ 32))
                      else sz)
            in chunksize2memsize sz)"

section \<open>Fast bins\<close>

text \<open>
  \<open>free_fast\<close> moves the chunks of the fast bins to the unsorted bin. Nothing sets
  \<open>MALLOC_FLAG_FAST\<close>, without which it returns at once.
\<close>

definition MALLOC_FLAG_FAST :: nat where
  "MALLOC_FLAG_FAST = 1"

definition free_fast_chunk :: "nat \<Rightarrow> PtMalloc \<Rightarrow> PtMalloc" where
  "free_fast_chunk i s =
     (let h = m_hNextChunk (m_ptFastBin s i);
          s = (case unlink_bin (m_ptFastBin s i) h (pt_cells s) of (_, stBin, c) \<Rightarrow>
                 s\<lparr>m_ptFastBin := (m_ptFastBin s)(i := stBin), pt_cells := c\<rparr>);
          sz = CHUNK_SIZE (pt_cells s) h; pre = tPreSize (pt_cells s) h;
          (h, sz, s) =
            (if \<not> prev_inuse (pt_cells s) h \<and> CAN_COMBILE sz pre then
               (h - pre, u32 (sz + pre),
                on_cells (set_inuse_bit_at_offset (h - pre) (u32 (sz + pre)))
                  (take_from_bin (bin_index pre) (h - pre) s))
             else (h, sz, s));
          n = h + sz; nsz = CHUNK_SIZE (pt_cells s) n;
          (sz, s) =
            (if \<not> AT_TOP h sz s \<and> \<not> inuse_bit_at_offset (pt_cells s) n nsz \<and> CAN_COMBILE sz nsz then
               (u32 (sz + nsz), on_cells (set_inuse_bit_at_offset h (u32 (sz + nsz)))
                  (take_from_bin (bin_index nsz) n s))
             else (sz, s));
          s = (if m_tLastFreeChunkSize s < REAL_SIZE sz
               then s\<lparr>m_tLastFreeChunkSize := REAL_SIZE sz\<rparr> else s);
          s = on_cells (\<lambda>c. set_tSize h (REAL_SIZE sz + SIZE_BITS_of (tSize c h)) c) s;
          s = (if AT_TOP h sz s then s\<lparr>m_hTop := m_hTop s - sz, statMemoryTop := m_hTop s - sz\<rparr>
               else case link_bin (m_ptUnsortedBin s) h (pt_cells s) of (_, stBin, c) \<Rightarrow>
                 s\<lparr>m_ptUnsortedBin := stBin, pt_cells := c\<rparr>)
      in on_cells (set_tPreSize (h + REAL_SIZE sz) (REAL_SIZE sz)) s)"

partial_function (option) free_fast_bin :: "nat \<Rightarrow> PtMalloc \<Rightarrow> PtMalloc option" where
  "free_fast_bin i s =
     (if m_hNextChunk (m_ptFastBin s i) = INVALID_HANDLE then Some s
      else free_fast_bin i (free_fast_chunk i s))"

fun free_fast_bins :: "nat list \<Rightarrow> PtMalloc \<Rightarrow> PtMalloc option" where
  "free_fast_bins [] s = Some s"
| "free_fast_bins (i # is) s = Option.bind (free_fast_bin i s) (free_fast_bins is)"

definition free_fast :: "PtMalloc \<Rightarrow> PtMalloc option" where
  "free_fast s =
     (if even (m_uiFlags s) then Some s
      else map_option (\<lambda>s. s\<lparr>m_uiFlags := m_uiFlags s - MALLOC_FLAG_FAST\<rparr>)
             (free_fast_bins [0..<NFASTBINS] s))"

definition last_free_size :: "PtMalloc \<Rightarrow> (nat \<times> PtMalloc) option" where
  "last_free_size s = map_option (\<lambda>s. (chunksize2memsize (m_tLastFreeChunkSize s), s)) (free_fast s)"

end
