(* ===== verification/PtMalloc_Heap.thy ===== *)
theory PtMalloc_Heap
  imports PtMalloc "HOL-Library.Multiset"
begin

text \<open>
  The invariant of the allocator's memory and what the elementary steps do to it: the chunks
  tile the memory from the bottom to the top, each header holds the size of its chunk and
  whether the chunk before it is in use, a free chunk's size stands again at its end, and
  each bin is a doubly linked list of the free chunks of its size class.
\<close>

section \<open>Size classes\<close>

lemma request2size_props:
  assumes "\<not> REQUEST_OUT_OF_RANGE req"
  shows "MINSIZE \<le> request2size req" "8 dvd request2size req" "req + SIZE_SZ \<le> request2size req"
    "request2size req \<le> MAX_ALLOC_SIZE" "request2size req < max (req + 12) 25"
proof -
  have r: "req < 4294967248" using assms by (simp add: REQUEST_OUT_OF_RANGE_def MINSIZE_def)
  then have "(req + 11) div 8 * 8 < 4294967296" by linarith
  then have eq: "request2size req = (if req + 11 < 24 then 24 else (req + 11) div 8 * 8)"
    by (simp add: request2size_def SIZE_SZ_def MALLOC_ALIGN_MASK_def MINSIZE_def add.commute)
  show "MINSIZE \<le> request2size req" "8 dvd request2size req" "req + SIZE_SZ \<le> request2size req"
    "request2size req \<le> MAX_ALLOC_SIZE" "request2size req < max (req + 12) 25"
    using r unfolding eq MINSIZE_def SIZE_SZ_def MAX_ALLOC_SIZE_def by (simp_all, linarith+)
qed

definition lb_class :: "nat \<Rightarrow> nat \<Rightarrow> nat \<Rightarrow> nat \<Rightarrow> nat \<Rightarrow> nat" where
  "lb_class a b c d e =
     (if a \<le> 32 then 56 + a else if b \<le> 20 then 91 + b else if c \<le> 10 then 110 + c
      else if d \<le> 4 then 119 + d else if e \<le> 2 then 124 + e else 126)"

lemma largebin_index_class:
  "largebin_index n = lb_class (n div 64) (n div 512) (n div 4096) (n div 32768) (n div 262144)"
  by (simp add: largebin_index_def lb_class_def)

lemma lb_class_mono:
  assumes "a \<le> a'" "b \<le> b'" "c \<le> c'" "d \<le> d'" "e \<le> e'"
    and "a' \<le> 32 \<or> 4 \<le> b'" "b' \<le> 20 \<or> 2 \<le> c'" "c' \<le> 10 \<or> 1 \<le> d'"
  shows "lb_class a b c d e \<le> lb_class a' b' c' d' e'"
  using assms unfolding lb_class_def by (auto split: if_split)

lemma lb_class_bounds: "8 \<le> a \<Longrightarrow> 64 \<le> lb_class a b c d e" "lb_class a b c d e \<le> 126"
  unfolding lb_class_def by (simp_all split: if_split)

lemma bin_index_less: "bin_index sz < NBINS"
proof -
  have "largebin_index sz \<le> 126" unfolding largebin_index_class by (rule lb_class_bounds)
  moreover have "smallbin_index sz < 64" if "in_smallbin_range sz"
    using that unfolding in_smallbin_range_def MIN_LARGE_SIZE_def smallbin_index_def by linarith
  ultimately show ?thesis by (auto simp: bin_index_def NBINS_def)
qed

lemma bin_index_mono:
  assumes "x \<le> y"
  shows "bin_index x \<le> bin_index y"
proof -
  have d: "x div 8 \<le> y div 8" "x div 64 \<le> y div 64" "x div 512 \<le> y div 512" "x div 4096 \<le> y div 4096"
    "x div 32768 \<le> y div 32768" "x div 262144 \<le> y div 262144"
    using assms by (simp_all add: div_le_mono)
  have "largebin_index x \<le> largebin_index y"
    unfolding largebin_index_class by (rule lb_class_mono [OF d(2-6)]) linarith+
  moreover have "smallbin_index x \<le> largebin_index y" if "x < 512" "\<not> y < 512"
  proof -
    have "smallbin_index x < 64" using that(1) unfolding smallbin_index_def by linarith
    moreover have "64 \<le> largebin_index y"
      unfolding largebin_index_class by (rule lb_class_bounds) (use that(2) in linarith)
    ultimately show ?thesis by simp
  qed
  ultimately show ?thesis
    using assms d(1) unfolding bin_index_def in_smallbin_range_def smallbin_index_def MIN_LARGE_SIZE_def
    by simp
qed

lemma bin_index_strict: "bin_index x < bin_index y \<Longrightarrow> x < y"
  using bin_index_mono [of y x] by (meson not_le)

lemma bin_index_small: "in_smallbin_range x \<Longrightarrow> 8 dvd x \<Longrightarrow> 8 dvd y \<Longrightarrow> bin_index y = bin_index x \<Longrightarrow> y = x"
proof -
  assume x: "in_smallbin_range x" "8 dvd x" "8 dvd y" "bin_index y = bin_index x"
  have "64 \<le> largebin_index y" if "\<not> y < 512"
    unfolding largebin_index_class by (rule lb_class_bounds) (use that in linarith)
  moreover have "smallbin_index x < 64"
    using x(1) unfolding in_smallbin_range_def MIN_LARGE_SIZE_def smallbin_index_def by linarith
  ultimately show "y = x"
    using x by (auto simp: bin_index_def in_smallbin_range_def MIN_LARGE_SIZE_def smallbin_index_def split: if_splits)
qed

section \<open>Links\<close>

text \<open>Two chunks whose headers do not overlap.\<close>

definition apart :: "handle \<Rightarrow> handle \<Rightarrow> bool" where
  "apart x y \<longleftrightarrow> x + 24 \<le> y \<or> y + 24 \<le> x"

lemma apart_sym: "apart x y \<longleftrightarrow> apart y x"
  by (auto simp: apart_def)

lemma ld64_st64_same [simp]: "v < 2 ^ 64 \<Longrightarrow> ld64 (st64 a v c) a = v"
proof -
  assume "v < 2 ^ 64"
  then have "v div 2 ^ 32 < 2 ^ 32" by (simp add: less_mult_imp_div_less)
  then show ?thesis by (simp add: ld64_def st64_def)
qed

lemma ld64_st64_other: "x + 8 \<le> a \<or> a + 8 \<le> x \<Longrightarrow> ld64 (st64 a v c) x = ld64 c x"
  by (auto simp: ld64_def st64_def)

lemma st64_other: "x \<noteq> a \<Longrightarrow> x \<noteq> a + 4 \<Longrightarrow> st64 a v c x = c x"
  by (simp add: st64_def)

lemma links_set [simp]:
  "v < 2 ^ 64 \<Longrightarrow> hNextChunk (set_hNextChunk x v c) x = v"
  "v < 2 ^ 64 \<Longrightarrow> hPreChunk (set_hPreChunk x v c) x = v"
  "hNextChunk (set_hPreChunk x v c) x = hNextChunk c x"
  "hPreChunk (set_hNextChunk x v c) x = hPreChunk c x"
  by (simp_all add: hNextChunk_def hPreChunk_def set_hNextChunk_def set_hPreChunk_def ld64_st64_other)

lemma links_set_apart:
  assumes "apart x y"
  shows "hNextChunk (set_hNextChunk x v c) y = hNextChunk c y"
    "hPreChunk (set_hPreChunk x v c) y = hPreChunk c y"
    "hNextChunk (set_hPreChunk x v c) y = hNextChunk c y"
    "hPreChunk (set_hNextChunk x v c) y = hPreChunk c y"
  using assms
  by (auto simp: hNextChunk_def hPreChunk_def set_hNextChunk_def set_hPreChunk_def apart_def
      intro!: ld64_st64_other)

text \<open>The cells that hold the links of a chunk.\<close>

definition link_cells :: "handle \<Rightarrow> nat set" where
  "link_cells x = {x + 8, x + 12, x + 16, x + 20}"

lemma set_links_other:
  "a \<notin> link_cells x \<Longrightarrow> set_hNextChunk x v c a = c a"
  "a \<notin> link_cells x \<Longrightarrow> set_hPreChunk x v c a = c a"
  by (auto simp: set_hNextChunk_def set_hPreChunk_def link_cells_def intro!: st64_other)

text \<open>A doubly linked segment: \<open>p\<close> comes before it and \<open>n\<close> after it.\<close>

fun lseg :: "cells \<Rightarrow> handle \<Rightarrow> handle list \<Rightarrow> handle \<Rightarrow> bool" where
  "lseg c p [] n = True"
| "lseg c p (x # xs) n =
     (hPreChunk c x = p \<and> hNextChunk c x = (if xs = [] then n else hd xs) \<and> lseg c x xs n)"

definition separated :: "handle list \<Rightarrow> bool" where
  "separated xs \<longleftrightarrow> sorted_wrt apart xs"

lemma separated_simps [simp]:
  "separated []" "separated (x # xs) \<longleftrightarrow> (\<forall>y\<in>set xs. apart x y) \<and> separated xs"
  "separated (xs @ ys) \<longleftrightarrow> separated xs \<and> separated ys \<and> (\<forall>x\<in>set xs. \<forall>y\<in>set ys. apart x y)"
  by (auto simp: separated_def sorted_wrt_append)

lemma lseg_append:
  "lseg c p (xs @ ys) n \<longleftrightarrow>
     lseg c p xs (if ys = [] then n else hd ys) \<and> lseg c (if xs = [] then p else last xs) ys n"
  by (induction xs arbitrary: p) auto

lemma lseg_frame:
  assumes "\<And>x. x \<in> set xs \<Longrightarrow> hPreChunk c' x = hPreChunk c x \<and> hNextChunk c' x = hNextChunk c x"
  shows "lseg c' p xs n = lseg c p xs n"
  using assms by (induction xs arbitrary: p) auto

lemma lseg_set_next_last:
  assumes "lseg c p (xs @ [x]) n" "separated (xs @ [x])" "n' < 2 ^ 64"
  shows "lseg (set_hNextChunk x n' c) p (xs @ [x]) n'"
proof -
  have "lseg (set_hNextChunk x n' c) p xs x = lseg c p xs x"
    by (rule lseg_frame) (use assms(2) in \<open>auto simp: links_set_apart apart_sym\<close>)
  then show ?thesis using assms by (simp add: lseg_append)
qed

lemma lseg_set_pre_hd:
  assumes "lseg c p (x # xs) n" "separated (x # xs)" "p' < 2 ^ 64"
  shows "lseg (set_hPreChunk x p' c) p' (x # xs) n"
proof -
  have "lseg (set_hPreChunk x p' c) x xs n = lseg c x xs n"
    by (rule lseg_frame) (use assms(2) in \<open>auto simp: links_set_apart\<close>)
  then show ?thesis using assms by simp
qed

definition bin_list :: "cells \<Rightarrow> CBin \<Rightarrow> handle list \<Rightarrow> bool" where
  "bin_list c bin xs \<longleftrightarrow>
     m_hNextChunk bin = (if xs = [] then 0 else hd xs)
     \<and> m_hPreChunk bin = (if xs = [] then 0 else last xs) \<and> lseg c 0 xs 0"

lemma bin_list_frame:
  assumes "\<And>x. x \<in> set xs \<Longrightarrow> hPreChunk c' x = hPreChunk c x \<and> hNextChunk c' x = hNextChunk c x"
  shows "bin_list c' bin xs = bin_list c bin xs"
  using lseg_frame [OF assms] by (simp add: bin_list_def)

lemma bin_list_cells:
  assumes "\<And>x a. x \<in> set xs \<Longrightarrow> a \<in> link_cells x \<Longrightarrow> c' a = c a"
  shows "bin_list c' bin xs = bin_list c bin xs"
  by (rule bin_list_frame) (use assms in \<open>auto simp: hPreChunk_def hNextChunk_def ld64_def link_cells_def\<close>)

text \<open>
  Unlinking removes the chunk from the list and changes links of the list's chunks only;
  linking puts it at the head.
\<close>

lemma unlink_bin_list:
  assumes bin: "bin_list c bin (xs @ h # ys)" and sep: "separated (xs @ h # ys)"
    and pos: "\<forall>x\<in>set (xs @ h # ys). 0 < x \<and> x < 2 ^ 64"
  shows "\<exists>bin' c'. unlink_bin bin h c = (0, bin', c') \<and> bin_list c' bin' (xs @ ys)
    \<and> (\<forall>a. a \<notin> (\<Union>x\<in>set (xs @ ys). link_cells x) \<longrightarrow> c' a = c a)"
proof -
  have seg: "lseg c 0 xs h" "hPreChunk c h = (if xs = [] then 0 else last xs)"
    "hNextChunk c h = (if ys = [] then 0 else hd ys)" "lseg c h ys 0"
    and bn: "m_hNextChunk bin = (if xs = [] then h else hd xs)" "m_hPreChunk bin = (if ys = [] then h else last ys)"
    using bin by (auto simp: bin_list_def lseg_append)
  have ne: "h \<noteq> 0" "m_hNextChunk bin \<noteq> 0" "m_hPreChunk bin \<noteq> 0"
    using pos bn by (auto split: if_splits)
  define p n where "p = (if xs = [] then 0 else last xs)" and "n = (if ys = [] then 0 else hd ys)"
  have pn: "p < 2 ^ 64" "n < 2 ^ 64" "p = 0 \<longleftrightarrow> xs = []" "n = 0 \<longleftrightarrow> ys = []"
    using pos by (auto simp: p_def n_def)
  define c1 where "c1 = (if xs = [] then c else set_hNextChunk p n c)"
  define c2 where "c2 = (if ys = [] then c1 else set_hPreChunk n p c1)"
  have c1_links: "hPreChunk c1 z = hPreChunk c z \<and> hNextChunk c1 z = hNextChunk c z" if "z \<in> set (h # ys)" for z
    using that sep by (auto simp: c1_def p_def links_set_apart)
  have c2_links: "hPreChunk c2 z = hPreChunk c1 z \<and> hNextChunk c2 z = hNextChunk c1 z" if "z \<in> set xs" for z
    using that sep by (auto simp: c2_def n_def links_set_apart apart_sym)
  have "lseg c1 0 xs n"
  proof (cases xs rule: rev_cases)
    case (snoc xs' x)
    then show ?thesis using lseg_set_next_last [of c 0 xs' x h n] seg(1) sep pn(2) by (simp add: c1_def p_def)
  qed simp
  then have left: "lseg c2 0 xs n" using lseg_frame [of xs c2 c1] c2_links by simp
  have "lseg c1 h ys 0" using lseg_frame [of ys c1 c] c1_links seg(4) by simp
  then have right: "lseg c2 p ys 0"
    using lseg_set_pre_hd [of c1 h _ _ 0 p] sep pn(1) by (cases ys) (simp_all add: c2_def n_def)
  define bin' where "bin' = bin\<lparr>m_hNextChunk := if xs = [] then n else m_hNextChunk bin,
      m_hPreChunk := if ys = [] then p else m_hPreChunk bin\<rparr>"
  have "unlink_bin bin h c = (0, bin', c2)"
    using ne seg(2,3) c1_links [of h] pn(3,4)
    by (auto simp: unlink_bin_def INVALID_HANDLE_def bin'_def c2_def c1_def p_def n_def)
  moreover have "bin_list c2 bin' (xs @ ys)"
    using left right bn by (auto simp: bin_list_def lseg_append bin'_def p_def n_def)
  moreover have "c2 a = c a" if "a \<notin> (\<Union>x\<in>set (xs @ ys). link_cells x)" for a
    using that by (auto simp: c2_def c1_def p_def n_def set_links_other)
  ultimately show ?thesis by blast
qed

lemma link_bin_list:
  assumes bin: "bin_list c bin xs" and sep: "separated (h # xs)"
    and pos: "\<forall>x\<in>set (h # xs). 0 < x \<and> x < 2 ^ 64"
  shows "\<exists>bin' c'. link_bin bin h c = (0, bin', c') \<and> bin_list c' bin' (h # xs)
    \<and> (\<forall>a. a \<notin> (\<Union>x\<in>set (h # xs). link_cells x) \<longrightarrow> c' a = c a)"
proof -
  define n where "n = m_hNextChunk bin"
  have bn: "n = (if xs = [] then 0 else hd xs)" "m_hPreChunk bin = (if xs = [] then 0 else last xs)" "lseg c 0 xs 0"
    using bin by (auto simp: bin_list_def n_def)
  have n: "n < 2 ^ 64" "n = 0 \<longleftrightarrow> xs = []" "m_hPreChunk bin = 0 \<longleftrightarrow> xs = []"
    using pos bn by (auto split: if_splits)
  define c1 where "c1 = set_hPreChunk h 0 (set_hNextChunk h n c)"
  define c2 where "c2 = (if xs = [] then c1 else set_hPreChunk n h c1)"
  have "hPreChunk c1 z = hPreChunk c z \<and> hNextChunk c1 z = hNextChunk c z" if "z \<in> set xs" for z
    using that sep by (auto simp: c1_def links_set_apart)
  then have "lseg c1 0 xs 0" using lseg_frame [of xs c1 c] bn(3) by simp
  then have "lseg c2 h xs 0"
    using lseg_set_pre_hd [of c1 0 _ _ 0 h] sep pos bn(1) by (cases xs) (simp_all add: c2_def)
  moreover have ap: "apart n h" if "xs \<noteq> []" using that sep bn(1) apart_sym [of h] by (cases xs) auto
  then have "hPreChunk c2 h = 0" "hNextChunk c2 h = n"
    using links_set_apart [of n h] ap n(1) by (auto simp: c2_def c1_def)
  moreover have "link_bin bin h c = (0, bin\<lparr>m_hNextChunk := h,
      m_hPreChunk := if xs = [] then h else m_hPreChunk bin\<rparr>, c2)"
    using pos n by (auto simp: link_bin_def INVALID_HANDLE_def c2_def c1_def n_def [symmetric] Let_def)
  moreover have "c2 a = c a" if "a \<notin> (\<Union>x\<in>set (h # xs). link_cells x)" for a
    using that bn(1) by (auto simp: c2_def c1_def set_links_other split: if_splits)
  ultimately show ?thesis using bn by (auto simp: bin_list_def)
qed

section \<open>The chunks of the memory\<close>

text \<open>
  A chunk is described by its size and its state: given to a user, free, or free while the
  in-use bit behind it is set. The last happens in segments above 4 GiB, when a chunk that
  is too big to be merged with its free predecessor is given back to the top, whose header
  then claims that the predecessor is in use. \<open>layout c a p cs\<close>: from \<open>a\<close> on the memory
  holds the chunks \<open>cs\<close>, followed by the header of the top; \<open>p\<close> is the in-use bit of the
  header at \<open>a\<close>.
\<close>

datatype chunk_state = Used | Freed | Stray

type_synonym chunk = "nat \<times> chunk_state"

definition csum :: "chunk list \<Rightarrow> nat" where
  "csum cs = sum_list (map fst cs)"

lemma csum_simps [simp]: "csum [] = 0" "csum (x # cs) = fst x + csum cs" "csum (cs @ ds) = csum cs + csum ds"
  by (simp_all add: csum_def)

definition sizes_ok :: "chunk list \<Rightarrow> bool" where
  "sizes_ok cs \<longleftrightarrow> (\<forall>x\<in>set cs. MINSIZE \<le> fst x \<and> 8 dvd fst x \<and> fst x \<le> MAX_ALLOC_SIZE)"

lemma sizes_ok_simps [simp]:
  "sizes_ok []" "sizes_ok (x # cs) \<longleftrightarrow> MINSIZE \<le> fst x \<and> 8 dvd fst x \<and> fst x \<le> MAX_ALLOC_SIZE \<and> sizes_ok cs"
  "sizes_ok (cs @ ds) \<longleftrightarrow> sizes_ok cs \<and> sizes_ok ds"
  by (auto simp: sizes_ok_def)

definition head_size :: "chunk list \<Rightarrow> nat" where
  "head_size cs = (case cs of [] \<Rightarrow> 0 | x # _ \<Rightarrow> fst x)"

lemma head_size_simps [simp]: "head_size [] = 0" "head_size (x # cs) = fst x"
  by (simp_all add: head_size_def)

definition last_used :: "bool \<Rightarrow> chunk list \<Rightarrow> bool" where
  "last_used p cs = (if cs = [] then p else snd (last cs) \<noteq> Freed)"

lemma last_used_simps [simp]:
  "last_used p [] = p" "last_used p (x # cs) = last_used (snd x \<noteq> Freed) cs"
  "last_used p (cs @ ds) = last_used (last_used p cs) ds"
  by (auto simp: last_used_def)

fun layout :: "cells \<Rightarrow> nat \<Rightarrow> bool \<Rightarrow> chunk list \<Rightarrow> bool" where
  "layout c a p [] = (c (a + 4) = of_bool p)"
| "layout c a p ((sz, u) # cs) =
     (c (a + 4) = sz + of_bool p \<and> (u = Freed \<longrightarrow> c (a + sz) = sz) \<and> layout c (a + sz) (u \<noteq> Freed) cs)"

text \<open>The cells a layout depends on: the headers and the ends of the free chunks.\<close>

fun meta_cells :: "nat \<Rightarrow> chunk list \<Rightarrow> nat set" where
  "meta_cells a [] = {a + 4}"
| "meta_cells a ((sz, u) # cs) = {a + 4} \<union> (if u = Freed then {a + sz} else {}) \<union> meta_cells (a + sz) cs"

lemma layout_frame:
  "(\<And>x. x \<in> meta_cells a cs \<Longrightarrow> c' x = c x) \<Longrightarrow> layout c' a p cs = layout c a p cs"
  by (induction cs arbitrary: a p) auto

lemma layout_head: "layout c a p cs \<Longrightarrow> c (a + 4) = head_size cs + of_bool p"
  by (cases cs) auto

text \<open>The chunks before a position, without the header of what follows.\<close>

fun tiles :: "cells \<Rightarrow> nat \<Rightarrow> bool \<Rightarrow> chunk list \<Rightarrow> bool" where
  "tiles c a p [] = True"
| "tiles c a p ((sz, u) # cs) =
     (c (a + 4) = sz + of_bool p \<and> (u = Freed \<longrightarrow> c (a + sz) = sz) \<and> tiles c (a + sz) (u \<noteq> Freed) cs)"

lemma layout_split:
  "layout c a p (cs @ ds) \<longleftrightarrow> tiles c a p cs \<and> layout c (a + csum cs) (last_used p cs) ds"
  by (induction cs arbitrary: a p) (auto simp: add.assoc)

lemma tiles_frame:
  assumes "sizes_ok cs" "\<And>x. a + 4 \<le> x \<Longrightarrow> x \<le> a + csum cs \<Longrightarrow> c' x = c x"
  shows "tiles c' a p cs = tiles c a p cs"
  using assms
proof (induction cs arbitrary: a p)
  case (Cons x cs)
  obtain sz u where x: "x = (sz, u)" by (cases x)
  have "24 \<le> sz" using Cons.prems(1) by (simp add: x MINSIZE_def)
  then have "c' (a + 4) = c (a + 4)" "c' (a + sz) = c (a + sz)" using Cons.prems(2) by (auto simp: x)
  moreover have "tiles c' (a + sz) (u \<noteq> Freed) cs = tiles c (a + sz) (u \<noteq> Freed) cs"
    using Cons.prems \<open>24 \<le> sz\<close> by (intro Cons.IH) (auto simp: x)
  ultimately show ?case by (simp add: x)
qed simp

lemma meta_cells_ge: "sizes_ok cs \<Longrightarrow> x \<in> meta_cells a cs \<Longrightarrow> a + 4 \<le> x"
proof (induction cs arbitrary: a)
  case (Cons y cs)
  then show ?case by (cases y) (fastforce simp: MINSIZE_def split: if_splits)
qed simp

lemma layout_after:
  assumes "sizes_ok cs" "\<And>x. a + 4 < x \<Longrightarrow> c' x = c x" "layout c a p cs"
    and "c' (a + 4) = head_size cs + of_bool p'"
  shows "layout c' a p' cs"
proof (cases cs)
  case Nil
  then show ?thesis using assms(4) by simp
next
  case (Cons x ds)
  obtain sz u where x: "x = (sz, u)" by (cases x)
  have "24 \<le> sz" using assms(1) by (simp add: Cons x MINSIZE_def)
  have "layout c' (a + sz) (u \<noteq> Freed) ds = layout c (a + sz) (u \<noteq> Freed) ds"
    by (rule layout_frame) (use assms(1,2) \<open>24 \<le> sz\<close> meta_cells_ge [of ds _ "a + sz"] in \<open>fastforce simp: Cons\<close>)
  then show ?thesis using assms(2-4) \<open>24 \<le> sz\<close> by (simp add: Cons x)
qed

text \<open>The chunks in a given state, with their addresses.\<close>

fun chunks :: "(chunk_state \<Rightarrow> bool) \<Rightarrow> nat \<Rightarrow> chunk list \<Rightarrow> (handle \<times> nat) list" where
  "chunks P a [] = []"
| "chunks P a ((sz, u) # cs) = (if P u then [(a, sz)] else []) @ chunks P (a + sz) cs"

abbreviation frees :: "nat \<Rightarrow> chunk list \<Rightarrow> (handle \<times> nat) list" where
  "frees \<equiv> chunks (\<lambda>u. u \<noteq> Used)"

abbreviation uses :: "nat \<Rightarrow> chunk list \<Rightarrow> (handle \<times> nat) list" where
  "uses \<equiv> chunks (\<lambda>u. u = Used)"

lemma chunks_append [simp]: "chunks P a (cs @ ds) = chunks P a cs @ chunks P (a + csum cs) ds"
  by (induction cs arbitrary: a) (auto simp: add.assoc)

lemma chunks_bounds:
  "sizes_ok cs \<Longrightarrow> (x, sz) \<in> set (chunks P a cs) \<Longrightarrow>
   a \<le> x \<and> x + sz \<le> a + csum cs \<and> MINSIZE \<le> sz \<and> 8 dvd sz \<and> sz \<le> MAX_ALLOC_SIZE"
proof (induction cs arbitrary: a)
  case (Cons y cs)
  obtain s u where y: "y = (s, u)" by (cases y)
  show ?case using Cons.IH [of "a + s"] Cons.prems by (auto simp: y split: if_splits)
qed simp

lemma chunks_split:
  "(x, sz) \<in> set (chunks P a cs) \<Longrightarrow> \<exists>cs1 u cs2. cs = cs1 @ (sz, u) # cs2 \<and> P u \<and> x = a + csum cs1"
proof (induction cs arbitrary: a)
  case (Cons y cs)
  obtain s u where y: "y = (s, u)" by (cases y)
  show ?case
  proof (cases "P u \<and> x = a \<and> sz = s")
    case True
    then have "y # cs = [] @ (sz, u) # cs \<and> P u \<and> x = a + csum []" by (simp add: y)
    then show ?thesis by blast
  next
    case False
    then obtain cs1 v cs2 where "cs = cs1 @ (sz, v) # cs2" "P v" "x = a + s + csum cs1"
      using Cons.IH [of "a + s"] Cons.prems by (auto simp: y split: if_splits)
    then have "y # cs = (y # cs1) @ (sz, v) # cs2 \<and> P v \<and> x = a + csum (y # cs1)" by (simp add: y)
    then show ?thesis by blast
  qed
qed simp

lemma chunks_apart:
  assumes "sizes_ok cs" "(x, sz) \<in> set (chunks P a cs)" "(y, yz) \<in> set (chunks Q a cs)"
  shows "x = y \<and> sz = yz \<or> x + sz \<le> y \<or> y + yz \<le> x"
  using assms
proof (induction cs arbitrary: a)
  case (Cons z cs)
  obtain s u where z: "z = (s, u)" by (cases z)
  show ?case
    using Cons.IH [of "a + s"] Cons.prems chunks_bounds [of cs x sz P "a + s"] chunks_bounds [of cs y yz Q "a + s"]
    by (auto simp: z split: if_splits)
qed simp

lemma chunks_disjoint:
  assumes "sizes_ok cs" "(x, sz) \<in> set (chunks P a cs)" "\<And>u. P u \<Longrightarrow> \<not> Q u"
  shows "(x, yz) \<notin> set (chunks Q a cs)"
  using assms
proof (induction cs arbitrary: a)
  case (Cons z cs)
  obtain s u where z: "z = (s, u)" by (cases z)
  show ?case
    using Cons.IH [of "a + s"] Cons.prems chunks_bounds [of cs x sz P "a + s"] chunks_bounds [of cs x yz Q "a + s"]
    by (auto simp: z MINSIZE_def split: if_splits)
qed simp

text \<open>
  The links of a free chunk and the data of a chunk in use are apart from what the layout
  depends on.
\<close>

lemma chunk_links_meta:
  assumes "sizes_ok cs" "(x, sz) \<in> set (chunks P a cs)" "y \<in> link_cells x"
  shows "y \<notin> meta_cells a cs"
  using assms
proof (induction cs arbitrary: a)
  case (Cons z cs)
  obtain s u where z: "z = (s, u)" by (cases z)
  have s: "24 \<le> s" "8 dvd s" using Cons.prems(1) by (auto simp: z MINSIZE_def)
  show ?case
  proof (cases "x = a")
    case True
    have "y < a + 24" "a + 4 < y" using Cons.prems(3) True by (auto simp: link_cells_def)
    then show ?thesis using meta_cells_ge [of cs y "a + s"] Cons.prems(1) s by (auto simp: z split: if_splits)
  next
    case False
    then have in_cs: "(x, sz) \<in> set (chunks P (a + s) cs)" using Cons.prems(2) by (auto simp: z split: if_splits)
    then have "a + s \<le> x" using chunks_bounds [OF _ in_cs] Cons.prems(1) by (simp add: z)
    then have "a + s < y" using Cons.prems(3) by (auto simp: link_cells_def)
    then show ?thesis using Cons.IH [OF _ in_cs Cons.prems(3)] Cons.prems(1) s by (auto simp: z)
  qed
qed simp

end
