(* ===== verification/PtMalloc_Step.thy ===== *)
theory PtMalloc_Step
  imports PtMalloc_Heap
begin

text \<open>
  The invariant of the allocator's memory and the elementary steps of \<open>PtMalloc\<close> that keep
  it: taking a chunk out of its bin and linking it in, merging with the neighbours, giving a
  chunk to the top or to a bin, allocating at the top and splitting a chunk.
\<close>

section \<open>The bins and the bitmap\<close>

text \<open>
  \<open>F\<close> is the set of free chunks that are linked in the bins: each is in the bin of its
  size class, and the bitmap marks every bin that is not empty.
\<close>

definition blocks_apart :: "(handle \<times> nat) set \<Rightarrow> bool" where
  "blocks_apart F \<longleftrightarrow>
     (\<forall>x a. (x, a) \<in> F \<longrightarrow>
        0 < x \<and> x < 2 ^ 64 \<and> (\<forall>y b. (y, b) \<in> F \<longrightarrow> x = y \<and> a = b \<or> apart x y))"

definition bin_of :: "(handle \<times> nat) set \<Rightarrow> nat \<Rightarrow> handle set" where
  "bin_of F i = {x. \<exists>sz. (x, sz) \<in> F \<and> bin_index sz = i}"

definition links :: "(handle \<times> nat) set \<Rightarrow> nat set" where
  "links F = (\<Union>x\<in>fst ` F. link_cells x)"

definition bin_bit :: "(nat \<Rightarrow> nat) \<Rightarrow> nat \<Rightarrow> bool" where
  "bin_bit bm i = bit (bm (i div 32)) (i mod 32)"

definition bin_holds :: "CBin \<Rightarrow> bool \<Rightarrow> cells \<Rightarrow> handle set \<Rightarrow> bool" where
  "bin_holds bin b c X \<longleftrightarrow>
     (\<exists>xs. bin_list c bin xs \<and> distinct xs \<and> set xs = X \<and> (xs \<noteq> [] \<longrightarrow> b))"

definition bins_hold :: "PtMalloc \<Rightarrow> (handle \<times> nat) set \<Rightarrow> bool" where
  "bins_hold s F \<longleftrightarrow>
     (\<forall>i<NBINS. bin_holds (m_ptBin s i) (bin_bit (m_auiBinBitMap s) i) (pt_cells s) (bin_of F i))"

lemma blocks_apart_subset: "blocks_apart F \<Longrightarrow> G \<subseteq> F \<Longrightarrow> blocks_apart G"
  unfolding blocks_apart_def by blast

lemma blocks_apartD:
  assumes "blocks_apart F" "(x, a) \<in> F"
  shows "0 < x" "x < 2 ^ 64" "(y, b) \<in> F \<Longrightarrow> x = y \<and> a = b \<or> apart x y"
  using assms unfolding blocks_apart_def by blast+

lemma bin_holds_frame:
  assumes "\<And>x a. x \<in> X \<Longrightarrow> a \<in> link_cells x \<Longrightarrow> c' a = c a"
  shows "bin_holds bin b c' X = bin_holds bin b c X"
proof -
  have "bin_list c' bin xs = bin_list c bin xs" if "set xs = X" for xs
    by (rule bin_list_cells) (use assms that in auto)
  then show ?thesis unfolding bin_holds_def by (metis (no_types, lifting))
qed

lemma bins_hold_frame:
  assumes "bins_hold s F" "m_ptBin s' = m_ptBin s" "m_auiBinBitMap s' = m_auiBinBitMap s"
    and "\<And>a. a \<in> links F \<Longrightarrow> pt_cells s' a = pt_cells s a"
  shows "bins_hold s' F"
proof -
  have "bin_holds (m_ptBin s i) b (pt_cells s') (bin_of F i) = bin_holds (m_ptBin s i) b (pt_cells s) (bin_of F i)" for i b
    by (rule bin_holds_frame) (use assms(4) in \<open>force simp: links_def bin_of_def\<close>)
  then show ?thesis using assms(1-3) by (simp add: bins_hold_def)
qed

lemma bin_bit_set: "bin_bit (m_auiBinBitMap (set_bin_bit_map i s)) j \<longleftrightarrow> j = i \<or> bin_bit (m_auiBinBitMap s) j"
proof -
  have "j div 32 = i div 32 \<and> j mod 32 = i mod 32 \<longleftrightarrow> j = i" by (metis mod_mult_div_eq)
  then show ?thesis by (auto simp: bin_bit_def set_bin_bit_map_def bit_simps)
qed

lemma bin_bit_clear:
  "bin_bit (m_auiBinBitMap (clear_bin_bit_map i s)) j \<longleftrightarrow> j \<noteq> i \<and> bin_bit (m_auiBinBitMap s) j"
proof -
  have "j div 32 = i div 32 \<and> j mod 32 = i mod 32 \<longleftrightarrow> j = i" by (metis mod_mult_div_eq)
  then show ?thesis by (auto simp: bin_bit_def clear_bin_bit_map_def bit_simps)
qed

lemma separated_bin:
  assumes "blocks_apart F" "distinct xs" "set xs \<subseteq> fst ` F"
  shows "separated xs"
  using assms(2,3)
proof (induction xs)
  case (Cons x xs)
  obtain a where x: "(x, a) \<in> F" using Cons.prems(2) by auto
  have "apart x y" if "y \<in> set xs" for y
  proof -
    have "y \<in> fst ` F" using Cons.prems(2) that by auto
    then obtain b where "(y, b) \<in> F" by auto
    then show ?thesis using blocks_apartD(3) [OF assms(1) x] Cons.prems(1) that by auto
  qed
  then show ?case using Cons by simp
qed simp

text \<open>A change to one bin leaves the others alone.\<close>

lemma bins_hold_update:
  assumes s: "bins_hold s F" and ap: "blocks_apart (F \<union> G)" and i: "i < NBINS"
    and new: "bin_holds bin' (bin_bit bm' i) c' (bin_of G i)"
    and same: "\<And>j. j \<noteq> i \<Longrightarrow> bin_of G j = bin_of F j" "\<And>j. j \<noteq> i \<Longrightarrow> bin_bit bm' j = bin_bit (m_auiBinBitMap s) j"
    and cells: "\<And>a. a \<notin> (\<Union>x\<in>bin_of (F \<union> G) i. link_cells x) \<Longrightarrow> c' a = pt_cells s a"
  shows "bins_hold (s\<lparr>pt_cells := c', m_ptBin := (m_ptBin s)(i := bin'), m_auiBinBitMap := bm'\<rparr>) G"
  unfolding bins_hold_def
proof (intro allI impI)
  fix j assume j: "j < NBINS"
  show "bin_holds (m_ptBin (s\<lparr>pt_cells := c', m_ptBin := (m_ptBin s)(i := bin'), m_auiBinBitMap := bm'\<rparr>) j)
     (bin_bit (m_auiBinBitMap (s\<lparr>pt_cells := c', m_ptBin := (m_ptBin s)(i := bin'), m_auiBinBitMap := bm'\<rparr>)) j)
     (pt_cells (s\<lparr>pt_cells := c', m_ptBin := (m_ptBin s)(i := bin'), m_auiBinBitMap := bm'\<rparr>)) (bin_of G j)"
  proof (cases "j = i")
    case True
    then show ?thesis using new by simp
  next
    case False
    have "c' a = pt_cells s a" if x: "x \<in> bin_of F j" and a: "a \<in> link_cells x" for x a
    proof (rule cells, rule ccontr)
      assume "\<not> a \<notin> (\<Union>x\<in>bin_of (F \<union> G) i. link_cells x)"
      then obtain y b where y: "(y, b) \<in> F \<union> G" "bin_index b = i" "a \<in> link_cells y" by (auto simp: bin_of_def)
      obtain d where d: "(x, d) \<in> F" "bin_index d = j" using x by (auto simp: bin_of_def)
      then have "apart x y" using blocks_apartD(3) [OF ap, of x d y b] y False by auto
      then show False using a y(3) by (auto simp: apart_def link_cells_def)
    qed
    then have "bin_holds (m_ptBin s j) (bin_bit (m_auiBinBitMap s) j) c' (bin_of F j)"
      using bin_holds_frame [of "bin_of F j" c' "pt_cells s"] s j by (simp add: bins_hold_def)
    then show ?thesis using False same by simp
  qed
qed

lemma bin_of_subset: "bin_of F i \<subseteq> fst ` F"
  by (force simp: bin_of_def)

lemma bin_links: "(\<Union>x\<in>bin_of F i. link_cells x) \<subseteq> links F"
  unfolding links_def by (intro UN_mono bin_of_subset order_refl)

lemma bin_of_mono: "F \<subseteq> G \<Longrightarrow> bin_of F i \<subseteq> bin_of G i"
  by (auto simp: bin_of_def)

lemma take_from_bin_ok:
  assumes s: "bins_hold s F" and ap: "blocks_apart F" and h: "(h, sz) \<in> F"
  shows "\<exists>c b m. take_from_bin (bin_index sz) h s = s\<lparr>pt_cells := c, m_ptBin := b, m_auiBinBitMap := m\<rparr>
    \<and> bins_hold (s\<lparr>pt_cells := c, m_ptBin := b, m_auiBinBitMap := m\<rparr>) (F - {(h, sz)})
    \<and> (\<forall>a. a \<notin> links (F - {(h, sz)}) \<longrightarrow> c a = pt_cells s a)"
proof -
  define i where "i = bin_index sz"
  have i: "i < NBINS" by (simp add: i_def bin_index_less)
  obtain xs where xs: "bin_list (pt_cells s) (m_ptBin s i) xs" "distinct xs" "set xs = bin_of F i"
    "xs \<noteq> [] \<longrightarrow> bin_bit (m_auiBinBitMap s) i"
    using s i unfolding bins_hold_def bin_holds_def by blast
  have "h \<in> set xs" using h xs(3) by (auto simp: bin_of_def i_def)
  then obtain ys zs where split: "xs = ys @ h # zs" by (meson split_list)
  have sep: "separated xs" by (rule separated_bin [OF ap xs(2)]) (simp add: xs(3) bin_of_subset)
  have pos: "\<forall>x\<in>set xs. 0 < x \<and> x < 2 ^ 64"
    using blocks_apartD(1,2) [OF ap] xs(3) by (auto simp: bin_of_def)
  obtain bin' c' where un: "unlink_bin (m_ptBin s i) h (pt_cells s) = (0, bin', c')"
    and new: "bin_list c' bin' (ys @ zs)" and cells: "\<And>a. a \<notin> (\<Union>x\<in>set (ys @ zs). link_cells x) \<Longrightarrow> c' a = pt_cells s a"
    using unlink_bin_list [of "pt_cells s" "m_ptBin s i" ys h zs] xs(1) sep pos unfolding split by blast
  have rest: "set (ys @ zs) = bin_of (F - {(h, sz)}) i"
  proof -
    have "(h, b) \<in> F \<Longrightarrow> b = sz" for b using blocks_apartD(3) [OF ap h, of h b] by (auto simp: apart_def)
    then have "bin_of (F - {(h, sz)}) i = bin_of F i - {h}" 
      using h unfolding bin_of_def i_def by blast
    then show ?thesis using xs(2,3) by (auto simp: split)
  qed
  define s1 where "s1 = s\<lparr>m_ptBin := (m_ptBin s)(i := bin'), pt_cells := c'\<rparr>"
  define bm where "bm = m_auiBinBitMap (if empty_bin i s1 then clear_bin_bit_map i s1 else s1)"
  have take: "take_from_bin i h s = s\<lparr>pt_cells := c', m_ptBin := (m_ptBin s)(i := bin'), m_auiBinBitMap := bm\<rparr>"
    by (simp add: take_from_bin_def unlink_ptBin_def un Let_def s1_def bm_def clear_bin_bit_map_def)
  have "empty_bin i s1 \<longleftrightarrow> ys @ zs = []"
    using new pos by (auto simp: empty_bin_def s1_def bin_list_def split INVALID_HANDLE_def hd_append split: if_splits)
  then have holds: "bin_holds bin' (bin_bit bm i) c' (bin_of (F - {(h, sz)}) i)"
    unfolding bin_holds_def using new rest xs(2,4)
    by (intro exI [of _ "ys @ zs"]) (auto simp: bm_def s1_def split)
  have "bins_hold (s\<lparr>pt_cells := c', m_ptBin := (m_ptBin s)(i := bin'), m_auiBinBitMap := bm\<rparr>) (F - {(h, sz)})"
  proof (rule bins_hold_update [OF s _ i holds])
    show "blocks_apart (F \<union> (F - {(h, sz)}))" using ap by (simp add: Un_absorb2 Diff_subset)
    show "bin_of (F - {(h, sz)}) j = bin_of F j" if "j \<noteq> i" for j using that by (auto simp: bin_of_def i_def)
    show "bin_bit bm j = bin_bit (m_auiBinBitMap s) j" if "j \<noteq> i" for j
      using that by (simp add: bm_def bin_bit_clear s1_def)
    show "c' a = pt_cells s a" if "a \<notin> (\<Union>x\<in>bin_of (F \<union> (F - {(h, sz)})) i. link_cells x)" for a
      by (rule cells [unfolded rest]) (use that bin_of_mono [of "F - {(h, sz)}" "F \<union> (F - {(h, sz)})" i] in blast)
  qed
  moreover have "c' a = pt_cells s a" if "a \<notin> links (F - {(h, sz)})" for a
    by (rule cells [unfolded rest]) (use that bin_links [of "F - {(h, sz)}" i] in blast)
  ultimately show ?thesis using take unfolding i_def by blast
qed

lemma link_in_bin_ok:
  assumes s: "bins_hold s F" and ap: "blocks_apart (insert (h, sz) F)" and h: "(h, sz) \<notin> F"
  shows "\<exists>c b m. set_bin_bit_map (bin_index sz) (link_ptBin (bin_index sz) h s)
      = s\<lparr>pt_cells := c, m_ptBin := b, m_auiBinBitMap := m\<rparr>
    \<and> bins_hold (s\<lparr>pt_cells := c, m_ptBin := b, m_auiBinBitMap := m\<rparr>) (insert (h, sz) F)
    \<and> (\<forall>a. a \<notin> links (insert (h, sz) F) \<longrightarrow> c a = pt_cells s a)"
proof -
  define i G where "i = bin_index sz" and "G = insert (h, sz) F"
  have i: "i < NBINS" by (simp add: i_def bin_index_less)
  obtain xs where xs: "bin_list (pt_cells s) (m_ptBin s i) xs" "distinct xs" "set xs = bin_of F i"
    using s i unfolding bins_hold_def bin_holds_def by blast
  have "(h, b) \<notin> F" for b using blocks_apartD(3) [OF ap, of h sz h b] h by (auto simp: apart_def)
  then have new: "h \<notin> set xs" unfolding xs(3) bin_of_def by blast
  have set_G: "set (h # xs) = bin_of G i" using xs(3) by (auto simp: bin_of_def G_def i_def)
  have sep: "separated (h # xs)"
    by (rule separated_bin [OF ap]) (use new xs(2) set_G bin_of_subset [of G i] G_def in auto)
  have pos: "\<forall>x\<in>set (h # xs). 0 < x \<and> x < 2 ^ 64"
    unfolding set_G using blocks_apartD(1,2) [OF ap] by (auto simp: bin_of_def G_def)
  obtain bin' c' where li: "link_bin (m_ptBin s i) h (pt_cells s) = (0, bin', c')"
    and bin': "bin_list c' bin' (h # xs)" and cells: "\<And>a. a \<notin> (\<Union>x\<in>set (h # xs). link_cells x) \<Longrightarrow> c' a = pt_cells s a"
    using link_bin_list [OF xs(1) sep pos] by blast
  define s1 where "s1 = s\<lparr>m_ptBin := (m_ptBin s)(i := bin'), pt_cells := c'\<rparr>"
  define bm where "bm = m_auiBinBitMap (set_bin_bit_map i s1)"
  have link: "set_bin_bit_map i (link_ptBin i h s) = s\<lparr>pt_cells := c', m_ptBin := (m_ptBin s)(i := bin'), m_auiBinBitMap := bm\<rparr>"
    by (simp add: link_ptBin_def li s1_def bm_def set_bin_bit_map_def)
  have holds: "bin_holds bin' (bin_bit bm i) c' (bin_of G i)"
    unfolding bin_holds_def using bin' set_G xs(2) new
    by (intro exI [of _ "h # xs"]) (simp add: bm_def bin_bit_set)
  have "bins_hold (s\<lparr>pt_cells := c', m_ptBin := (m_ptBin s)(i := bin'), m_auiBinBitMap := bm\<rparr>) G"
  proof (rule bins_hold_update [OF s _ i holds])
    have "F \<union> G = G" by (auto simp: G_def)
    then show "blocks_apart (F \<union> G)" using ap by (simp add: G_def)
    show "bin_of G j = bin_of F j" if "j \<noteq> i" for j using that by (auto simp: bin_of_def i_def G_def)
    show "bin_bit bm j = bin_bit (m_auiBinBitMap s) j" if "j \<noteq> i" for j
      using that by (simp add: bm_def bin_bit_set s1_def)
    show "c' a = pt_cells s a" if "a \<notin> (\<Union>x\<in>bin_of (F \<union> G) i. link_cells x)" for a
      using that cells [of a] \<open>F \<union> G = G\<close> set_G by auto
  qed
  moreover have "c' a = pt_cells s a" if "a \<notin> links G" for a
    by (rule cells [unfolded set_G]) (use that bin_links [of G i] in blast)
  ultimately show ?thesis using link unfolding i_def G_def by blast
qed

section \<open>The invariant of the memory\<close>

definition user_cells :: "handle \<Rightarrow> nat \<Rightarrow> nat set" where
  "user_cells x sz = {x + 8 ..< x + sz + 4}"

text \<open>The data of the chunks \<open>U\<close> is the same in both states.\<close>

definition keeps :: "PtMalloc \<Rightarrow> PtMalloc \<Rightarrow> (handle \<times> nat) set \<Rightarrow> bool" where
  "keeps s s' U \<longleftrightarrow> (\<forall>x sz y. (x, sz) \<in> U \<longrightarrow> y \<in> user_cells x sz \<longrightarrow> pt_cells s' y = pt_cells s y)"

text \<open>Only what the chunks, the bins and the top are made of differs.\<close>

definition same_rest :: "PtMalloc \<Rightarrow> PtMalloc \<Rightarrow> bool" where
  "same_rest s s' \<longleftrightarrow>
     s' = s\<lparr>pt_cells := pt_cells s', m_ptBin := m_ptBin s', m_auiBinBitMap := m_auiBinBitMap s',
       m_hTop := m_hTop s', m_tLastFreeChunkSize := m_tLastFreeChunkSize s', statMemoryTop := statMemoryTop s'\<rparr>"

definition heap_shape :: "PtMalloc \<Rightarrow> chunk list \<Rightarrow> bool" where
  "heap_shape s cs \<longleftrightarrow>
     8 dvd m_hBottom s \<and> 8 \<le> m_hBottom s \<and> m_hTop s = m_hBottom s + csum cs
     \<and> m_hTop s + MINSIZE \<le> m_tSize s \<and> m_tSize s < 2 ^ 64 \<and> sizes_ok cs
     \<and> layout (pt_cells s) (m_hBottom s) True cs \<and> last_used True cs"

definition heap :: "PtMalloc \<Rightarrow> chunk list \<Rightarrow> bool" where
  "heap s cs \<longleftrightarrow> heap_shape s cs \<and> bins_hold s (set (frees (m_hBottom s) cs))"

lemma keeps_refl [simp]: "keeps s s U"
  by (simp add: keeps_def)

lemma keeps_trans: "keeps s t U \<Longrightarrow> keeps t r V \<Longrightarrow> U \<subseteq> V \<Longrightarrow> keeps s r U"
  unfolding keeps_def by (metis (no_types, lifting) subsetD)

lemma keeps_subset: "keeps s t V \<Longrightarrow> U \<subseteq> V \<Longrightarrow> keeps s t U"
  unfolding keeps_def by (meson subsetD)

lemma same_rest_refl [simp]: "same_rest s s"
  by (simp add: same_rest_def)

lemma same_rest_trans: "same_rest s t \<Longrightarrow> same_rest t r \<Longrightarrow> same_rest s r"
  unfolding same_rest_def by (cases s, cases t, cases r) simp

lemma same_rest_cells [simp]: "same_rest s (s\<lparr>pt_cells := c\<rparr>)"
  by (simp add: same_rest_def)

lemma same_restD:
  assumes "same_rest s s'"
  shows "m_hBottom s' = m_hBottom s" "m_tSize s' = m_tSize s" "minChunkSize s' = minChunkSize s"
    "m_tUserAllocSize s' = m_tUserAllocSize s" "m_tUserAllocChunkCnt s' = m_tUserAllocChunkCnt s"
    "statChunkTotal s' = statChunkTotal s" "statDataSize s' = statDataSize s"
    "statTmpDataSizeRecently s' = statTmpDataSizeRecently s" "m_shmIntegrity s' = m_shmIntegrity s"
    "m_ptFastBin s' = m_ptFastBin s" "m_ptUnsortedBin s' = m_ptUnsortedBin s"
    "get_min_chunk_size s' = get_min_chunk_size s"
  using assms unfolding same_rest_def by (cases s, cases s', simp add: get_min_chunk_size_def)+

text \<open>Replacing some chunks by others that fill the same space.\<close>

lemma layout_retile:
  assumes "layout c a p (cs1 @ ms @ cs2)" "sizes_ok (cs1 @ ms @ cs2)" "csum ms' = csum ms"
    and "\<And>x. x < a + csum cs1 + 4 \<or> a + csum cs1 + csum ms + 4 < x \<Longrightarrow> c' x = c x"
    and "tiles c' (a + csum cs1) (last_used p cs1) ms'"
    and "c' (a + csum cs1 + csum ms + 4) = head_size cs2 + of_bool (last_used (last_used p cs1) ms')"
  shows "layout c' a p (cs1 @ ms' @ cs2)"
proof -
  have "tiles c a p cs1" "layout c (a + csum cs1 + csum ms) (last_used (last_used p cs1) ms) cs2"
    using assms(1) by (auto simp: layout_split add.assoc)
  moreover have "tiles c' a p cs1 = tiles c a p cs1" by (rule tiles_frame) (use assms(2,4) in auto)
  moreover have "layout c' (a + csum cs1 + csum ms) (last_used (last_used p cs1) ms') cs2"
    by (rule layout_after [OF _ _ calculation(2)]) (use assms(2,4,6) in auto)
  ultimately show ?thesis using assms(3,5) by (simp add: layout_split add.assoc)
qed

lemma chunks_links:
  assumes "sizes_ok cs" "y \<in> links (set (chunks P a cs))"
  shows "a + 8 \<le> y" "y < a + csum cs"
proof -
  obtain x sz where "(x, sz) \<in> set (chunks P a cs)" "y \<in> link_cells x" using assms(2) by (auto simp: links_def)
  then show "a + 8 \<le> y" "y < a + csum cs"
    using chunks_bounds [OF assms(1), of x sz P a] by (auto simp: link_cells_def MINSIZE_def)
qed

lemma chunks_user_cells:
  assumes "sizes_ok cs" "(x, sz) \<in> set (chunks P a cs)" "y \<in> user_cells x sz"
  shows "a + 8 \<le> y" "y < a + csum cs + 4"
  using chunks_bounds [OF assms(1,2)] assms(3) by (auto simp: user_cells_def)

lemma links_Un: "links (F \<union> G) = links F \<union> links G"
  by (auto simp: links_def)

lemma heap_retile:
  assumes s: "heap_shape s (cs1 @ ms @ cs2)" and F: "bins_hold s F"
    and sub: "F \<subseteq> set (frees (m_hBottom s) cs1) \<union> set (frees (m_hBottom s + csum cs1 + csum ms) cs2)"
    and ms': "sizes_ok ms'" "csum ms' = csum ms" "last_used True (cs1 @ ms' @ cs2)"
    and same: "\<And>x. x < m_hBottom s + csum cs1 + 4 \<or> m_hBottom s + csum cs1 + csum ms + 4 < x \<Longrightarrow> c' x = pt_cells s x"
    and tiles: "tiles c' (m_hBottom s + csum cs1) (last_used True cs1) ms'"
    and next_head: "c' (m_hBottom s + csum cs1 + csum ms + 4) = head_size cs2 + of_bool (last_used (last_used True cs1) ms')"
  shows "heap_shape (s\<lparr>pt_cells := c'\<rparr>) (cs1 @ ms' @ cs2) \<and> bins_hold (s\<lparr>pt_cells := c'\<rparr>) F
    \<and> keeps s (s\<lparr>pt_cells := c'\<rparr>) (set (uses (m_hBottom s) cs1) \<union> set (uses (m_hBottom s + csum cs1 + csum ms) cs2))"
proof (intro conjI)
  have ok: "sizes_ok cs1" "sizes_ok cs2" using s by (simp_all add: heap_shape_def)
  have "layout c' (m_hBottom s) True (cs1 @ ms' @ cs2)"
    by (rule layout_retile [OF _ _ ms'(2) same tiles next_head]) (use s in \<open>auto simp: heap_shape_def\<close>)
  then show "heap_shape (s\<lparr>pt_cells := c'\<rparr>) (cs1 @ ms' @ cs2)"
    using s ms' by (simp add: heap_shape_def)
  show "bins_hold (s\<lparr>pt_cells := c'\<rparr>) F"
  proof (rule bins_hold_frame [OF F])
    fix a assume "a \<in> links F"
    then have "a \<in> links (set (frees (m_hBottom s) cs1)) \<or> a \<in> links (set (frees (m_hBottom s + csum cs1 + csum ms) cs2))"
      using sub by (auto simp: links_def)
    then show "pt_cells (s\<lparr>pt_cells := c'\<rparr>) a = pt_cells s a"
      using chunks_links [OF ok(1)] chunks_links [OF ok(2)] same [of a] by fastforce
  qed simp_all
  show "keeps s (s\<lparr>pt_cells := c'\<rparr>) (set (uses (m_hBottom s) cs1) \<union> set (uses (m_hBottom s + csum cs1 + csum ms) cs2))"
    unfolding keeps_def
  proof (intro allI impI)
    fix x sz y
    assume "(x, sz) \<in> set (uses (m_hBottom s) cs1) \<union> set (uses (m_hBottom s + csum cs1 + csum ms) cs2)"
      and y: "y \<in> user_cells x sz"
    then show "pt_cells (s\<lparr>pt_cells := c'\<rparr>) y = pt_cells s y"
      using chunks_user_cells [OF ok(1) _ y] chunks_user_cells [OF ok(2) _ y] same [of y] by fastforce
  qed
qed

lemma frees_blocks_apart:
  assumes "heap_shape s cs"
  shows "blocks_apart (set (chunks P (m_hBottom s) cs))"
  unfolding blocks_apart_def
proof (intro allI impI conjI)
  fix x a assume x: "(x, a) \<in> set (chunks P (m_hBottom s) cs)"
  have ok: "sizes_ok cs" using assms by (simp add: heap_shape_def)
  show "0 < x" "x < 2 ^ 64" using chunks_bounds [OF ok x] assms by (auto simp: heap_shape_def)
  fix y b assume y: "(y, b) \<in> set (chunks P (m_hBottom s) cs)"
  show "x = y \<and> a = b \<or> apart x y"
    using chunks_apart [OF ok x y] chunks_bounds [OF ok x] chunks_bounds [OF ok y] by (auto simp: apart_def MINSIZE_def)
qed

section \<open>Reading the headers\<close>

lemma size_bits [simp]:
  assumes "8 dvd n"
  shows "REAL_SIZE n = n" "REAL_SIZE (n + of_bool p) = n" "REAL_SIZE (Suc n) = n"
    "SIZE_BITS_of (n + of_bool p) = of_bool p" "SIZE_BITS_of (Suc n) = 1" "SIZE_BITS_of n = 0"
  using assms by (auto simp: REAL_SIZE_def SIZE_BITS_of_def elim!: dvdE)

lemma u32_size [simp]:
  assumes "n \<le> MAX_ALLOC_SIZE"
  shows "u32 n = n" "u32 (n + of_bool p) = n + of_bool p" "u32 (Suc n) = Suc n"
  using assms by (auto simp: u32_def MAX_ALLOC_SIZE_def)

lemma even_size [simp]: "8 dvd n \<Longrightarrow> even (n :: nat)"
  by (auto elim!: dvdE)

lemma odd_size: "8 dvd n \<Longrightarrow> odd (n + of_bool p) \<longleftrightarrow> p"
  by (auto elim!: dvdE)

lemma heap_header:
  assumes "heap_shape s (cs1 @ (sz, u) # cs2)" "h = m_hBottom s + csum cs1"
  shows "8 dvd sz" "MINSIZE \<le> sz" "sz \<le> MAX_ALLOC_SIZE" "8 dvd h" "8 \<le> h"
    "m_hTop s = h + sz + csum cs2" "h + sz + MINSIZE \<le> m_tSize s"
    "pt_cells s (h + 4) = sz + of_bool (last_used True cs1)"
    "pt_cells s (h + sz + 4) = head_size cs2 + of_bool (u \<noteq> Freed)"
    "u = Freed \<Longrightarrow> pt_cells s (h + sz) = sz"
    "CHUNK_SIZE (pt_cells s) h = sz" "prev_inuse (pt_cells s) h = last_used True cs1"
    "inuse_bit_at_offset (pt_cells s) h sz \<longleftrightarrow> u \<noteq> Freed"
proof -
  have *: "sizes_ok (cs1 @ (sz, u) # cs2)" "m_hTop s + MINSIZE \<le> m_tSize s"
    "m_hTop s = m_hBottom s + csum (cs1 @ (sz, u) # cs2)" "8 dvd m_hBottom s" "8 \<le> m_hBottom s"
    "layout (pt_cells s) (m_hBottom s) True (cs1 @ (sz, u) # cs2)"
    using assms(1) unfolding heap_shape_def by blast+
  show sz: "8 dvd sz" "MINSIZE \<le> sz" "sz \<le> MAX_ALLOC_SIZE" using *(1) by simp_all
  have "8 dvd csum cs" if "sizes_ok cs" for cs using that by (induction cs) auto
  then show "8 dvd h" "8 \<le> h" using * assms(2) by auto
  show "m_hTop s = h + sz + csum cs2" "h + sz + MINSIZE \<le> m_tSize s" using * assms(2) by simp_all
  show hd: "pt_cells s (h + 4) = sz + of_bool (last_used True cs1)"
    and "u = Freed \<Longrightarrow> pt_cells s (h + sz) = sz"
    using *(6) assms(2) by (auto simp: layout_split)
  show nx: "pt_cells s (h + sz + 4) = head_size cs2 + of_bool (u \<noteq> Freed)"
    using *(6) assms(2) layout_head by (auto simp: layout_split)
  show "CHUNK_SIZE (pt_cells s) h = sz" using hd sz by (simp add: CHUNK_SIZE_def tSize_def)
  show "prev_inuse (pt_cells s) h = last_used True cs1" using hd sz by (simp add: prev_inuse_def tSize_def odd_size)
  have "8 dvd head_size cs2" using *(1) by (cases cs2) auto
  then show "inuse_bit_at_offset (pt_cells s) h sz \<longleftrightarrow> u \<noteq> Freed"
    using nx by (simp add: inuse_bit_at_offset_def tSize_def odd_size)
qed

lemma head_size_bits:
  assumes "sizes_ok cs"
  shows "8 dvd head_size cs" "head_size cs \<le> MAX_ALLOC_SIZE"
  using assms by (cases cs; auto)+

lemma chunks_remove:
  assumes "sizes_ok (cs1 @ (sz, u) # cs2)"
  shows "set (chunks P a (cs1 @ (sz, u) # cs2)) - {(a + csum cs1, sz)}
    = set (chunks P a cs1) \<union> set (chunks P (a + csum cs1 + sz) cs2)"
proof -
  have "(a + csum cs1, sz) \<notin> set (chunks P a cs1)" "(a + csum cs1, sz) \<notin> set (chunks P (a + csum cs1 + sz) cs2)"
    using assms chunks_bounds [of cs1 "a + csum cs1" sz P a] chunks_bounds [of cs2 "a + csum cs1" sz P "a + csum cs1 + sz"]
    by (auto simp: MINSIZE_def)
  then show ?thesis by auto
qed

section \<open>Taking a chunk out of its bin\<close>

lemma heap_links_change:
  assumes s: "heap_shape s cs" and cells: "\<And>a. a \<notin> links (set (frees (m_hBottom s) cs)) \<Longrightarrow> c a = pt_cells s a"
  shows "heap_shape (s\<lparr>pt_cells := c, m_ptBin := b, m_auiBinBitMap := m\<rparr>) cs"
    and "keeps s (s\<lparr>pt_cells := c, m_ptBin := b, m_auiBinBitMap := m\<rparr>) (set (uses (m_hBottom s) cs))"
proof -
  have ok: "sizes_ok cs" using s by (simp add: heap_shape_def)
  have "layout c (m_hBottom s) True cs = layout (pt_cells s) (m_hBottom s) True cs"
    by (rule layout_frame, rule cells) (use chunk_links_meta [OF ok] in \<open>auto simp: links_def\<close>)
  then show "heap_shape (s\<lparr>pt_cells := c, m_ptBin := b, m_auiBinBitMap := m\<rparr>) cs"
    using s by (simp add: heap_shape_def)
  show "keeps s (s\<lparr>pt_cells := c, m_ptBin := b, m_auiBinBitMap := m\<rparr>) (set (uses (m_hBottom s) cs))"
    unfolding keeps_def
  proof (intro allI impI)
    fix x xz y assume x: "(x, xz) \<in> set (uses (m_hBottom s) cs)" and y: "y \<in> user_cells x xz"
    have "y \<notin> link_cells f" if f: "(f, fz) \<in> set (frees (m_hBottom s) cs)" for f fz
      using chunks_apart [OF ok x f] chunks_disjoint [OF ok x, of "\<lambda>u. u \<noteq> Used" fz] f y chunks_bounds [OF ok f]
      by (auto simp: user_cells_def link_cells_def MINSIZE_def)
    then have "y \<notin> links (set (frees (m_hBottom s) cs))" by (auto simp: links_def)
    then show "pt_cells (s\<lparr>pt_cells := c, m_ptBin := b, m_auiBinBitMap := m\<rparr>) y = pt_cells s y" using cells by simp
  qed
qed

lemma heap_take:
  assumes s: "heap_shape s cs" "bins_hold s F" "F \<subseteq> set (frees (m_hBottom s) cs)" "(h, sz) \<in> F"
  shows "\<exists>s'. take_from_bin (bin_index sz) h s = s' \<and> heap_shape s' cs \<and> bins_hold s' (F - {(h, sz)})
    \<and> keeps s s' (set (uses (m_hBottom s) cs)) \<and> same_rest s s' \<and> m_hTop s' = m_hTop s"
proof -
  have ap: "blocks_apart F" using frees_blocks_apart [OF s(1)] s(3) by (rule blocks_apart_subset)
  obtain c b m where take: "take_from_bin (bin_index sz) h s = s\<lparr>pt_cells := c, m_ptBin := b, m_auiBinBitMap := m\<rparr>"
    and bins: "bins_hold (s\<lparr>pt_cells := c, m_ptBin := b, m_auiBinBitMap := m\<rparr>) (F - {(h, sz)})"
    and cells: "\<forall>a. a \<notin> links (F - {(h, sz)}) \<longrightarrow> c a = pt_cells s a"
    using take_from_bin_ok [OF s(2) ap s(4)] by blast
  have "c a = pt_cells s a" if "a \<notin> links (set (frees (m_hBottom s) cs))" for a
    using that cells s(3) by (auto simp: links_def)
  from heap_links_change [OF s(1) this] show ?thesis using take bins by (auto simp: same_rest_def)
qed

section \<open>Merging\<close>

lemmas cell_ops = set_inuse_bit_at_offset_def clear_inuse_bit_at_offset_def set_size_at_offset_def
  set_presize_at_offset_def set_tSize_def set_tPreSize_def tSize_def tPreSize_def

lemma heap_resize:
  assumes s: "heap_shape s (cs1 @ ms @ cs2)" and F: "bins_hold s F"
    and sub: "F \<subseteq> set (frees (m_hBottom s) cs1) \<union> set (frees (m_hBottom s + csum cs1 + csum ms) cs2)"
    and h: "h = m_hBottom s + csum cs1" and ms: "ms \<noteq> []" "csum ms = sz" "sz \<le> MAX_ALLOC_SIZE"
    and c': "c' = set_presize_at_offset h sz sz (set_size_at_offset h 0 sz (pt_cells s))"
  shows "last_used True ms \<Longrightarrow> heap_shape (s\<lparr>pt_cells := c'\<rparr>) (cs1 @ (sz, Used) # cs2) \<and> bins_hold (s\<lparr>pt_cells := c'\<rparr>) F
      \<and> keeps s (s\<lparr>pt_cells := c'\<rparr>) (set (uses (m_hBottom s) cs1) \<union> set (uses (h + sz) cs2))"
    and "heap_shape (claim h sz s) (cs1 @ (sz, Used) # cs2) \<and> bins_hold (claim h sz s) F
      \<and> keeps s (claim h sz s) (set (uses (m_hBottom s) cs1) \<union> set (uses (h + sz) cs2))"
proof -
  have ok: "sizes_ok ms" "sizes_ok cs2" using s by (simp_all add: heap_shape_def)
  obtain z u ms' where ms': "ms = (z, u) # ms'" using ms(1) by (cases ms) auto
  have "8 dvd csum cs" if "sizes_ok cs" for cs using that by (induction cs) auto
  then have sz: "8 dvd sz" "MINSIZE \<le> sz" using ok ms(2) by (auto simp: ms')
  have hd: "pt_cells s (h + 4) = z + of_bool (last_used True cs1)" "8 dvd z"
    using heap_header [of s cs1 z u "ms' @ cs2" h] s h by (simp_all add: ms')
  have nx: "pt_cells s (h + sz + 4) = head_size cs2 + of_bool (last_used (last_used True cs1) ms)"
    using s ms(2) layout_head [of "pt_cells s" "h + sz" _ cs2] by (simp add: heap_shape_def layout_split h add.assoc)
  have cells: "c' (h + 4) = sz + of_bool (last_used True cs1)" "c' (h + sz) = sz"
    "\<And>x. x \<noteq> h + 4 \<Longrightarrow> x \<noteq> h + sz \<Longrightarrow> c' x = pt_cells s x"
    using hd sz ms(3) by (auto simp: c' cell_ops MINSIZE_def)
  have last: "last_used True (cs1 @ (sz, Used) # cs2)" using s by (cases cs2) (auto simp: heap_shape_def)
  show "heap_shape (s\<lparr>pt_cells := c'\<rparr>) (cs1 @ (sz, Used) # cs2) \<and> bins_hold (s\<lparr>pt_cells := c'\<rparr>) F
      \<and> keeps s (s\<lparr>pt_cells := c'\<rparr>) (set (uses (m_hBottom s) cs1) \<union> set (uses (h + sz) cs2))" if "last_used True ms"
  proof -
    have "last_used (last_used True cs1) ms" using that by (simp add: ms')
    moreover have "c' (h + sz + 4) = pt_cells s (h + sz + 4)" using cells(3) sz(2) by (simp add: MINSIZE_def)
    moreover have "c' x = pt_cells s x" if "x < h + 4 \<or> h + sz + 4 < x" for x
      using that cells(3) [of x] sz(2) by (auto simp: MINSIZE_def)
    ultimately show ?thesis
      using heap_retile [OF s F sub, of "[(sz, Used)]" c'] cells(1) nx sz ms last by (simp add: h)
  qed
  define c'' where "c'' = set_inuse_bit_at_offset h sz c'"
  have cells'': "c'' (h + sz + 4) = Suc (head_size cs2)" "\<And>x. x \<noteq> h + sz + 4 \<Longrightarrow> c'' x = c' x"
    using head_size_bits [OF ok(2)] nx cells(3) [of "h + sz + 4"] sz
    by (auto simp: c''_def cell_ops MINSIZE_def Let_def)
  have "claim h sz s = s\<lparr>pt_cells := c''\<rparr>" by (simp add: claim_def c''_def c')
  moreover have "c'' x = pt_cells s x" if "x < h + 4 \<or> h + sz + 4 < x" for x
    using that cells(3) [of x] cells''(2) [of x] sz(2) by (auto simp: MINSIZE_def)
  moreover have "c'' (h + 4) = sz + of_bool (last_used True cs1)" using cells(1) cells''(2) sz(2) by (simp add: MINSIZE_def)
  ultimately show "heap_shape (claim h sz s) (cs1 @ (sz, Used) # cs2) \<and> bins_hold (claim h sz s) F
      \<and> keeps s (claim h sz s) (set (uses (m_hBottom s) cs1) \<union> set (uses (h + sz) cs2))"
    using heap_retile [OF s F sub, of "[(sz, Used)]" c''] cells''(1) sz ms last by (simp add: h)
qed

lemma not_last_used: "\<not> last_used True cs \<Longrightarrow> \<exists>cs' sz. cs = cs' @ [(sz, Freed)]"
  by (cases cs rule: rev_cases) auto

lemma keeps_via: "keeps s t U \<Longrightarrow> keeps t r V \<Longrightarrow> W \<subseteq> U \<Longrightarrow> W \<subseteq> V \<Longrightarrow> keeps s r W"
  using keeps_trans keeps_subset by blast

lemma heapD: "heap s cs \<Longrightarrow> heap_shape s cs" "heap s cs \<Longrightarrow> bins_hold s (set (frees (m_hBottom s) cs))"
  "heap s cs \<Longrightarrow> sizes_ok cs"
  by (simp_all add: heap_def heap_shape_def)

lemma merge_prev_ok:
  assumes s: "heap s (cs1 @ (sz, Used) # cs2)" and h: "h = m_hBottom s + csum cs1"
  shows "\<exists>h' sz' s' cs1'. merge_prev h sz s = (h', sz', s') \<and> heap s' (cs1' @ (sz', Used) # cs2)
    \<and> h' = m_hBottom s + csum cs1' \<and> h' + sz' = h + sz \<and> uses (m_hBottom s) cs1' = uses (m_hBottom s) cs1
    \<and> same_rest s s' \<and> m_hTop s' = m_hTop s \<and> keeps s s' (set (uses (m_hBottom s) cs1) \<union> set (uses (h + sz) cs2))"
proof (cases "\<not> prev_inuse (pt_cells s) h \<and> CAN_COMBILE sz (tPreSize (pt_cells s) h)")
  case False
  then have "merge_prev h sz s = (h, sz, s)" by (auto simp: merge_prev_def)
  then show ?thesis using s h by (intro exI [of _ h] exI [of _ sz] exI [of _ s] exI [of _ cs1]) simp
next
  case True
  have "\<not> last_used True cs1" using True heap_header(12) [OF heapD(1) [OF s] h] by simp
  then obtain cs0 pre where cs1: "cs1 = cs0 @ [(pre, Freed)]" using not_last_used by blast
  define p where "p = m_hBottom s + csum cs0"
  have s': "heap_shape s (cs0 @ (pre, Freed) # (sz, Used) # cs2)" using heapD(1) [OF s] by (simp add: cs1)
  note pre = heap_header [OF s' p_def]
  have hp: "h = p + pre" by (simp add: h p_def cs1)
  have c_h: "tPreSize (pt_cells s) h = pre" using pre(10) by (simp add: hp tPreSize_def)
  have small: "sz + pre \<le> MAX_ALLOC_SIZE" using True by (simp add: c_h CAN_COMBILE_def)
  let ?F = "set (frees (m_hBottom s) (cs0 @ (pre, Freed) # (sz, Used) # cs2))"
  obtain s1 where take: "take_from_bin (bin_index pre) p s = s1" and shape: "heap_shape s1 (cs0 @ (pre, Freed) # (sz, Used) # cs2)"
    and bins: "bins_hold s1 (?F - {(p, pre)})" and keep: "keeps s s1 (set (uses (m_hBottom s) (cs0 @ (pre, Freed) # (sz, Used) # cs2)))"
    and rest: "same_rest s s1" "m_hTop s1 = m_hTop s"
    using heap_take [OF s' , of ?F p pre] heapD(2) [OF s] by (auto simp: cs1 p_def)
  note b = same_restD(1) [OF rest(1)]
  have F: "?F - {(p, pre)} = set (frees (m_hBottom s) cs0) \<union> set (frees (p + pre + sz) cs2)"
    using chunks_remove [of cs0 pre Freed "(sz, Used) # cs2" "\<lambda>u. u \<noteq> Used" "m_hBottom s"] s'
    by (simp add: heap_shape_def p_def)
  define c' where "c' = set_presize_at_offset p (sz + pre) (sz + pre) (set_size_at_offset p 0 (sz + pre) (pt_cells s1))"
  have new: "heap_shape (s1\<lparr>pt_cells := c'\<rparr>) (cs0 @ (sz + pre, Used) # cs2)
      \<and> bins_hold (s1\<lparr>pt_cells := c'\<rparr>) (?F - {(p, pre)})
      \<and> keeps s1 (s1\<lparr>pt_cells := c'\<rparr>) (set (uses (m_hBottom s1) cs0) \<union> set (uses (p + (sz + pre)) cs2))"
  proof (rule heap_resize(1) [of s1 cs0 "[(pre, Freed), (sz, Used)]" cs2, OF _ bins _ _ _ _ small c'_def])
    show "?F - {(p, pre)} \<subseteq> set (frees (m_hBottom s1) cs0)
      \<union> set (frees (m_hBottom s1 + csum cs0 + csum [(pre, Freed), (sz, Used)]) cs2)"
      by (simp add: F b p_def add.assoc)
  qed (use shape b p_def in simp_all)
  have "heap (s1\<lparr>pt_cells := c'\<rparr>) (cs0 @ (sz + pre, Used) # cs2)"
    using new [unfolded F] by (simp add: heap_def b p_def add_ac)
  moreover have "merge_prev h sz s = (p, sz + pre, s1\<lparr>pt_cells := c'\<rparr>)"
    using True small c_h by (simp add: merge_prev_def hp take Let_def c'_def)
  moreover have "same_rest s (s1\<lparr>pt_cells := c'\<rparr>)" using rest(1) same_rest_cells by (rule same_rest_trans)
  moreover have "keeps s (s1\<lparr>pt_cells := c'\<rparr>) (set (uses (m_hBottom s) cs1) \<union> set (uses (h + sz) cs2))"
    by (rule keeps_via [OF keep conjunct2 [OF conjunct2 [OF new]]]) (auto simp: b cs1 hp p_def add_ac)
  ultimately show ?thesis
    by (intro exI [of _ p] exI [of _ "sz + pre"] exI [of _ "s1\<lparr>pt_cells := c'\<rparr>"] exI [of _ cs0])
      (simp add: rest p_def hp cs1)
qed

text \<open>
  Merging with the next chunk leaves the in-use bit behind the merged chunk clear; \<open>claim\<close>,
  the first part of \<open>place_free\<close>, sets it.
\<close>

lemma merge_next_ok:
  assumes s: "heap s (cs1 @ (sz, Used) # cs2)" and h: "h = m_hBottom s + csum cs1"
  shows "\<exists>sz' s' cs2'. merge_next h sz s = Some (sz', s') \<and> heap (claim h sz' s') (cs1 @ (sz', Used) # cs2')
    \<and> sz' + csum cs2' = sz + csum cs2 \<and> uses (h + sz') cs2' = uses (h + sz) cs2 \<and> sz \<le> sz'
    \<and> same_rest s (claim h sz' s') \<and> m_hTop (claim h sz' s') = m_hTop s
    \<and> keeps s (claim h sz' s') (set (uses (m_hBottom s) cs1) \<union> set (uses (h + sz) cs2))"
proof -
  note shape = heapD(1) [OF s]
  note head = heap_header [OF shape h]
  have F: "set (frees (m_hBottom s) (cs1 @ (sz, Used) # cs2)) = set (frees (m_hBottom s) cs1) \<union> set (frees (h + sz) cs2)"
    by (simp add: h)
  show ?thesis
  proof (cases "cs2 \<noteq> [] \<and> snd (hd cs2) = Freed \<and> CAN_COMBILE sz (fst (hd cs2))")
    case False
    have "merge_next h sz s = Some (sz, s)"
    proof (cases cs2)
      case Nil
      then show ?thesis using head(6) by (simp add: merge_next_def)
    next
      case (Cons y ds)
      obtain n v where y: "y = (n, v)" by (cases y)
      have "heap_shape s ((cs1 @ [(sz, Used)]) @ (n, v) # ds)" using shape by (simp add: Cons y)
      from heap_header [OF this] head(6) False show ?thesis
        by (auto simp: merge_next_def h Cons y Let_def add.assoc MINSIZE_def)
    qed
    moreover have "heap_shape (claim h sz s) (cs1 @ (sz, Used) # cs2) \<and> bins_hold (claim h sz s) (set (frees (m_hBottom s) (cs1 @ (sz, Used) # cs2)))
      \<and> keeps s (claim h sz s) (set (uses (m_hBottom s) cs1) \<union> set (uses (h + sz) cs2))"
      by (rule heap_resize(2) [of s cs1 "[(sz, Used)]" cs2]) (use shape heapD(2) [OF s] h head(3) in simp_all)
    ultimately show ?thesis
      by (intro exI [of _ sz] exI [of _ s] exI [of _ cs2]) (simp add: heap_def claim_def)
  next
    case True
    then obtain n ds where cs2: "cs2 = (n, Freed) # ds" by (cases cs2) auto
    have small: "sz + n \<le> MAX_ALLOC_SIZE" using True by (simp add: cs2 CAN_COMBILE_def)
    define x where "x = h + sz"
    have x: "x = m_hBottom s + csum (cs1 @ [(sz, Used)])" by (simp add: x_def h)
    have s': "heap_shape s ((cs1 @ [(sz, Used)]) @ (n, Freed) # ds)" using shape by (simp add: cs2)
    note nx = heap_header [OF s' x]
    let ?F = "set (frees (m_hBottom s) ((cs1 @ [(sz, Used)]) @ (n, Freed) # ds))"
    obtain s1 where take: "take_from_bin (bin_index n) x s = s1" and shape1: "heap_shape s1 ((cs1 @ [(sz, Used)]) @ (n, Freed) # ds)"
      and bins: "bins_hold s1 (?F - {(x, n)})" and keep: "keeps s s1 (set (uses (m_hBottom s) ((cs1 @ [(sz, Used)]) @ (n, Freed) # ds)))"
      and rest: "same_rest s s1" "m_hTop s1 = m_hTop s"
      using heap_take [OF s' , of ?F x n] heapD(2) [OF s] by (auto simp: cs2 x)
    note b = same_restD(1) [OF rest(1)]
    have F: "?F - {(x, n)} = set (frees (m_hBottom s) cs1) \<union> set (frees (x + n) ds)"
      using chunks_remove [of "cs1 @ [(sz, Used)]" n Freed ds "\<lambda>u. u \<noteq> Used" "m_hBottom s"] s'
      by (simp add: heap_shape_def x)
    define s2 where "s2 = s1\<lparr>pt_cells := set_presize_at_offset h (sz + n) (sz + n) (set_size_at_offset h 0 (sz + n) (pt_cells s1))\<rparr>"
    have "pt_cells s1 (h + 4) = sz + of_bool (last_used True cs1)"
      using heap_header(8) [of s1 cs1 sz Used "(n, Freed) # ds" h] shape1 h b by simp
    then have again: "claim h (sz + n) s2 = claim h (sz + n) s1"
      using head(1,2) nx(1,3) small by (simp add: s2_def claim_def cell_ops fun_eq_iff MINSIZE_def)
    have new: "heap_shape (claim h (sz + n) s1) (cs1 @ (sz + n, Used) # ds) \<and> bins_hold (claim h (sz + n) s1) (?F - {(x, n)})
      \<and> keeps s1 (claim h (sz + n) s1) (set (uses (m_hBottom s1) cs1) \<union> set (uses (h + (sz + n)) ds))"
      by (rule heap_resize(2) [of s1 cs1 "[(sz, Used), (n, Freed)]" ds, OF _ bins _ _ _ _ small])
        (use shape1 b h F x_def in \<open>simp_all add: add.assoc\<close>)
    have "heap (claim h (sz + n) s1) (cs1 @ (sz + n, Used) # ds)"
      using new [unfolded F] by (simp add: heap_def b claim_def x_def h add.assoc)
    moreover have "merge_next h sz s = Some (sz + n, s2)"
      using head(6) nx small take by (auto simp: merge_next_def x_def cs2 s2_def Let_def CAN_COMBILE_def MINSIZE_def)
    moreover have "same_rest s (claim h (sz + n) s1)" using same_rest_trans [OF rest(1)] by (simp add: claim_def)
    moreover have "keeps s (claim h (sz + n) s1) (set (uses (m_hBottom s) cs1) \<union> set (uses (h + sz) cs2))"
      by (rule keeps_via [OF keep conjunct2 [OF conjunct2 [OF new]]]) (auto simp: b cs2 h add.assoc)
    moreover have "m_hTop (claim h (sz + n) s1) = m_hTop s" by (simp add: claim_def rest)
    ultimately show ?thesis
      by (intro exI [of _ "sz + n"] exI [of _ s2] exI [of _ ds]) (simp add: again cs2 add.assoc)
  qed
qed

section \<open>Giving a chunk back\<close>

lemma claim_footer: "8 dvd sz \<Longrightarrow> sz \<le> MAX_ALLOC_SIZE \<Longrightarrow> pt_cells (claim h sz s) (h + sz) = sz"
  by (simp add: claim_def cell_ops)

lemma tiles_append: "tiles c a p (cs @ ds) \<longleftrightarrow> tiles c a p cs \<and> tiles c (a + csum cs) (last_used p cs) ds"
  by (induction cs arbitrary: a p) (auto simp: add.assoc)

text \<open>The last chunk goes to the top; a free chunk before it that was not merged is then stray.\<close>

definition drop_stray :: "chunk list \<Rightarrow> chunk list" where
  "drop_stray cs = (if last_used True cs then cs else butlast cs @ [(fst (last cs), Stray)])"

lemma drop_stray:
  shows "csum (drop_stray cs) = csum cs" "sizes_ok (drop_stray cs) = sizes_ok cs" "last_used True (drop_stray cs)"
    "uses a (drop_stray cs) = uses a cs" "frees a (drop_stray cs) = frees a cs"
    "tiles c a True cs \<Longrightarrow> tiles c a True (drop_stray cs)"
proof -
  consider "drop_stray cs = cs" "last_used True cs"
    | cs' sz where "cs = cs' @ [(sz, Freed)]" "drop_stray cs = cs' @ [(sz, Stray)]"
    using not_last_used [of cs] by (auto simp: drop_stray_def)
  note cases = this
  show "csum (drop_stray cs) = csum cs" by (rule cases) auto
  show "sizes_ok (drop_stray cs) = sizes_ok cs" by (rule cases) auto
  show "last_used True (drop_stray cs)" by (rule cases) auto
  show "uses a (drop_stray cs) = uses a cs" by (rule cases) auto
  show "frees a (drop_stray cs) = frees a cs" by (rule cases) auto
  show "tiles c a True cs \<Longrightarrow> tiles c a True (drop_stray cs)" by (rule cases) (auto simp: tiles_append)
qed

lemma heap_give_top:
  assumes s: "heap s (cs1 @ [(sz, Used)])" and h: "h = m_hBottom s + csum cs1"
    and s': "s' = s\<lparr>pt_cells := set_tSize h PREV_INUSE (pt_cells s), m_hTop := h, statMemoryTop := t, m_tLastFreeChunkSize := l\<rparr>"
  shows "heap s' (drop_stray cs1)" "same_rest s s'" "keeps s s' (set (uses (m_hBottom s) cs1))"
proof -
  have ok: "sizes_ok cs1" using heapD(3) [OF s] by simp
  have cells: "pt_cells s' x = (if x = h + 4 then 1 else pt_cells s x)" for x
    by (simp add: s' set_tSize_def PREV_INUSE_def)
  have "tiles (pt_cells s) (m_hBottom s) True cs1"
    using heapD(1) [OF s] by (simp add: heap_shape_def layout_split)
  then have "tiles (pt_cells s') (m_hBottom s) True cs1"
    using tiles_frame [of cs1 "m_hBottom s" "pt_cells s'" "pt_cells s"] ok by (simp add: cells h)
  then have "layout (pt_cells s') (m_hBottom s) True (drop_stray cs1 @ [])"
    unfolding layout_split using drop_stray cells h by simp
  then have "heap_shape s' (drop_stray cs1)"
    using heapD(1) [OF s] ok drop_stray(1-3) [of cs1] by (simp add: heap_shape_def s' h)
  moreover have "bins_hold s' (set (frees (m_hBottom s) (cs1 @ [(sz, Used)])))"
  proof (rule bins_hold_frame [OF heapD(2) [OF s]])
    fix a assume "a \<in> links (set (frees (m_hBottom s) (cs1 @ [(sz, Used)])))"
    then have "a \<in> links (set (frees (m_hBottom s) cs1))" by simp
    from chunks_links(2) [OF ok this] show "pt_cells s' a = pt_cells s a" by (simp add: cells h)
  qed (simp_all add: s')
  ultimately show "heap s' (drop_stray cs1)" by (simp add: heap_def drop_stray s')
  show "same_rest s s'" by (simp add: same_rest_def s')
  show "keeps s s' (set (uses (m_hBottom s) cs1))"
    unfolding keeps_def
  proof (intro allI impI)
    fix x xz y assume "(x, xz) \<in> set (uses (m_hBottom s) cs1)" "y \<in> user_cells x xz"
    from chunks_user_cells(2) [OF ok this] show "pt_cells s' y = pt_cells s y" by (simp add: cells h)
  qed
qed

lemma heap_give_bin:
  assumes s: "heap s (cs1 @ (sz, Used) # cs2)" and h: "h = m_hBottom s + csum cs1"
    and cs2: "cs2 \<noteq> []" and foot: "pt_cells s (h + sz) = sz"
    and s': "s' = set_bin_bit_map (bin_index sz) (link_ptBin (bin_index sz) h (on_cells (clear_inuse_bit_at_offset h sz) s))"
  shows "heap s' (cs1 @ (sz, Freed) # cs2)" "same_rest s s'" "m_hTop s' = m_hTop s"
    "keeps s s' (set (uses (m_hBottom s) cs1) \<union> set (uses (h + sz) cs2))"
proof -
  define F where "F = set (frees (m_hBottom s) cs1) \<union> set (frees (h + sz) cs2)"
  have F: "set (frees (m_hBottom s) (cs1 @ (sz, Used) # cs2)) = F" by (simp add: F_def h)
  have G: "set (frees (m_hBottom s) (cs1 @ (sz, Freed) # cs2)) = insert (h, sz) F" by (auto simp: F_def h)
  have U: "set (uses (m_hBottom s) (cs1 @ (sz, Freed) # cs2)) = set (uses (m_hBottom s) cs1) \<union> set (uses (h + sz) cs2)"
    by (simp add: h)
  have ok: "sizes_ok (cs1 @ (sz, Used) # cs2)" by (rule heapD(3) [OF s])
  note head = heap_header [OF heapD(1) [OF s] h]
  define c where "c = clear_inuse_bit_at_offset h sz (pt_cells s)"
  have cells: "c x = (if x = h + sz + 4 then head_size cs2 else pt_cells s x)" for x
    using head(9) head_size_bits [of cs2] ok by (simp add: c_def cell_ops)
  have step: "heap_shape (s\<lparr>pt_cells := c\<rparr>) (cs1 @ [(sz, Freed)] @ cs2) \<and> bins_hold (s\<lparr>pt_cells := c\<rparr>) F
      \<and> keeps s (s\<lparr>pt_cells := c\<rparr>) (set (uses (m_hBottom s) cs1) \<union> set (uses (m_hBottom s + csum cs1 + csum [(sz, Used)]) cs2))"
  proof (rule heap_retile [of s cs1 "[(sz, Used)]" cs2])
    show "last_used True (cs1 @ [(sz, Freed)] @ cs2)"
      using heapD(1) [OF s] cs2 by (cases cs2) (auto simp: heap_shape_def)
    show "tiles c (m_hBottom s + csum cs1) (last_used True cs1) [(sz, Freed)]"
      using head(2,8) foot by (simp add: cells MINSIZE_def flip: h)
    show "c x = pt_cells s x" if "x < m_hBottom s + csum cs1 + 4 \<or> m_hBottom s + csum cs1 + csum [(sz, Used)] + 4 < x" for x
      using that by (auto simp: cells h)
  qed (use heapD(1,2) [OF s] head(1-3) in \<open>simp_all add: F_def cells h\<close>)
  have shape: "heap_shape (s\<lparr>pt_cells := c\<rparr>) (cs1 @ (sz, Freed) # cs2)" using step by simp
  have "blocks_apart (insert (h, sz) F)" using frees_blocks_apart [OF shape, of "\<lambda>u. u \<noteq> Used"] G by simp
  moreover have "(h, sz) \<notin> F"
    using chunks_remove [OF ok, of "\<lambda>u. u \<noteq> Used" "m_hBottom s"] by (auto simp: F_def h)
  ultimately obtain c' b m where s'': "s' = s\<lparr>pt_cells := c\<rparr>\<lparr>pt_cells := c', m_ptBin := b, m_auiBinBitMap := m\<rparr>"
    and bins: "bins_hold s' (insert (h, sz) F)"
    and c': "\<And>a. a \<notin> links (insert (h, sz) F) \<Longrightarrow> c' a = pt_cells (s\<lparr>pt_cells := c\<rparr>) a"
    using link_in_bin_ok [of "s\<lparr>pt_cells := c\<rparr>" F h sz] step s' unfolding c_def by (metis (no_types, lifting))
  have c'': "c' a = pt_cells (s\<lparr>pt_cells := c\<rparr>) a" if "a \<notin> links (set (frees (m_hBottom (s\<lparr>pt_cells := c\<rparr>)) (cs1 @ (sz, Freed) # cs2)))" for a
    using c' that G by simp
  note ch = heap_links_change [OF shape c'', where b = b and m = m]
  show rest: "same_rest s s'" "m_hTop s' = m_hTop s" by (simp_all add: s'' same_rest_def)
  show "heap s' (cs1 @ (sz, Freed) # cs2)"
    using ch(1) bins G unfolding s'' by (simp add: heap_def)
  show "keeps s s' (set (uses (m_hBottom s) cs1) \<union> set (uses (h + sz) cs2))"
    by (rule keeps_via [OF conjunct2 [OF conjunct2 [OF step]]]) (use ch(2) U s'' h in auto)
qed

lemma heap_last_free [simp]:
  "heap (s\<lparr>m_tLastFreeChunkSize := l\<rparr>) cs = heap s cs"
  "keeps (s\<lparr>m_tLastFreeChunkSize := l\<rparr>) t U = keeps s t U"
  "same_rest (s\<lparr>m_tLastFreeChunkSize := l\<rparr>) t = same_rest s t"
  by (auto simp: heap_def heap_shape_def bins_hold_def keeps_def same_rest_def)

lemma release_ok:
  assumes s: "heap s (cs1 @ (sz, Used) # cs2)" and h: "h = m_hBottom s + csum cs1"
    and foot: "pt_cells s (h + sz) = sz"
  shows "\<exists>cs'. heap (release h sz s) cs' \<and> same_rest s (release h sz s)
    \<and> set (uses (m_hBottom s) cs') = set (uses (m_hBottom s) cs1) \<union> set (uses (h + sz) cs2)
    \<and> keeps s (release h sz s) (set (uses (m_hBottom s) cs1) \<union> set (uses (h + sz) cs2))"
proof -
  define t where "t = (if m_tLastFreeChunkSize s < sz then s\<lparr>m_tLastFreeChunkSize := sz\<rparr> else s)"
  have t: "heap t (cs1 @ (sz, Used) # cs2)" "h = m_hBottom t + csum cs1" "pt_cells t (h + sz) = sz"
    "m_hBottom t = m_hBottom s" "m_hTop t = m_hTop s" "\<And>r. same_rest t r \<Longrightarrow> same_rest s r" "\<And>r U. keeps t r U \<Longrightarrow> keeps s r U"
    using s h foot by (simp_all add: t_def split: if_splits)
  note head = heap_header [OF heapD(1) [OF s] h]
  show ?thesis
  proof (cases "h + sz = m_hTop s")
    case True
    then have "csum cs2 = 0" using head(6) by simp
    then have cs2: "cs2 = []" using heapD(3) [OF s] by (cases cs2) (auto simp: MINSIZE_def)
    have "m_hTop s - sz = h" using True by simp
    have "\<exists>l. release h sz s = t\<lparr>pt_cells := set_tSize h PREV_INUSE (pt_cells t), m_hTop := h,
        statMemoryTop := h, m_tLastFreeChunkSize := l\<rparr>"
    proof (cases "m_tSize t > h + MINSIZE \<and> m_tLastFreeChunkSize t < m_tSize t - h - MINSIZE")
      case more: True
      then show ?thesis using True t(5) \<open>m_hTop s - sz = h\<close>
        by (intro exI [of _ "m_tSize t - h - MINSIZE"]) (simp add: release_def Let_def flip: t_def)
    next
      case less: False
      then show ?thesis using True t(5) \<open>m_hTop s - sz = h\<close>
        by (intro exI [of _ "m_tLastFreeChunkSize t"]) (auto simp: release_def Let_def simp flip: t_def)
    qed
    then obtain l where rel: "release h sz s = t\<lparr>pt_cells := set_tSize h PREV_INUSE (pt_cells t), m_hTop := h,
        statMemoryTop := h, m_tLastFreeChunkSize := l\<rparr>" by blast
    show ?thesis using heap_give_top [OF t(1) [unfolded cs2] t(2) rel] drop_stray(4) t(4,6,7) by (auto simp: cs2)
  next
    case False
    then have "cs2 \<noteq> []" using head(6) by auto
    have rel: "release h sz s = set_bin_bit_map (bin_index sz)
        (link_ptBin (bin_index sz) h (on_cells (clear_inuse_bit_at_offset h sz) t))"
      using False t(5) by (simp add: release_def bin_index_def Let_def flip: t_def)
    show ?thesis using heap_give_bin [OF t(1,2) \<open>cs2 \<noteq> []\<close> t(3) rel] t(4,6,7) h by (intro exI [of _ "cs1 @ (sz, Freed) # cs2"]) simp
  qed
qed

lemma check_inuse_chunk_ok:
  assumes s: "heap_shape s (cs1 @ (sz, Used) # cs2)" and h: "h = m_hBottom s + csum cs1"
  shows "check_inuse_chunk h s = 0"
proof -
  note head = heap_header [OF s h]
  have prev: "\<not> (h < tPreSize (pt_cells s) h \<or> ptr_to_handle (h - tPreSize (pt_cells s) h) s < m_hBottom s
      \<or> CHUNK_SIZE (pt_cells s) (h - tPreSize (pt_cells s) h) \<noteq> tPreSize (pt_cells s) h)"
    if free: "\<not> prev_inuse (pt_cells s) h"
  proof -
    obtain cs0 pre where cs1: "cs1 = cs0 @ [(pre, Freed)]" using free head(12) not_last_used [of cs1] by auto
    define p where "p = m_hBottom s + csum cs0"
    have "heap_shape s (cs0 @ (pre, Freed) # (sz, Used) # cs2)" using s by (simp add: cs1)
    note pre = heap_header [OF this p_def]
    have "h = p + pre" by (simp add: h p_def cs1)
    then show ?thesis using pre(7,10,11) by (simp add: tPreSize_def ptr_to_handle_def p_def MINSIZE_def)
  qed
  have "CHUNK_SIZE (pt_cells s) (h + sz) \<ge> MINSIZE" if "\<not> AT_TOP (h + sz) 0 s"
  proof (cases cs2)
    case Nil
    then show ?thesis using that head(6) by (simp add: AT_TOP_def)
  next
    case (Cons y ds)
    have "heap_shape s ((cs1 @ [(sz, Used)]) @ (fst y, snd y) # ds)" using s by (simp add: Cons)
    from heap_header [OF this] show ?thesis by (simp add: h add.assoc)
  qed
  then show ?thesis using prev head(11,13) by (auto simp: check_inuse_chunk_def Let_def)
qed

lemma inter_free_ok:
  assumes s: "heap s cs" and h: "(h, sz) \<in> set (uses (m_hBottom s) cs)"
  shows "\<exists>s' cs'. inter_free (h + 8) s = (0, sz, s') \<and> heap s' cs' \<and> same_rest s s'
    \<and> set (uses (m_hBottom s) cs') = set (uses (m_hBottom s) cs) - {(h, sz)}
    \<and> keeps s s' (set (uses (m_hBottom s) cs) - {(h, sz)})"
proof -
  obtain cs1 cs2 where cs: "cs = cs1 @ (sz, Used) # cs2" and h_def: "h = m_hBottom s + csum cs1"
    using chunks_split [OF h] by auto
  note s1 = s [unfolded cs]
  note head = heap_header [OF heapD(1) [OF s1] h_def]
  have U: "set (uses (m_hBottom s) cs) - {(h, sz)} = set (uses (m_hBottom s) cs1) \<union> set (uses (h + sz) cs2)"
    using chunks_remove [OF heapD(3) [OF s1], of "\<lambda>u. u = Used" "m_hBottom s"] by (simp add: cs h_def)
  obtain h' sz' s' cs1' where prev: "merge_prev h sz s = (h', sz', s')" "heap s' (cs1' @ (sz', Used) # cs2)"
    "h' = m_hBottom s + csum cs1'" "h' + sz' = h + sz" "uses (m_hBottom s) cs1' = uses (m_hBottom s) cs1"
    "same_rest s s'" "keeps s s' (set (uses (m_hBottom s) cs1) \<union> set (uses (h + sz) cs2))"
    using merge_prev_ok [OF s1 h_def] by blast
  note b1 = same_restD(1) [OF prev(6)]
  obtain n s'' cs2' where nxt: "merge_next h' sz' s' = Some (n, s'')" "heap (claim h' n s'') (cs1' @ (n, Used) # cs2')"
    "uses (h' + n) cs2' = uses (h' + sz') cs2" "same_rest s' (claim h' n s'')"
    "keeps s' (claim h' n s'') (set (uses (m_hBottom s') cs1') \<union> set (uses (h' + sz') cs2))"
    using merge_next_ok [OF prev(2), of h'] prev(3) b1 by auto
  note b2 = same_restD(1) [OF nxt(4)]
  have n: "8 dvd n" "n \<le> MAX_ALLOC_SIZE" using heapD(3) [OF nxt(2)] by simp_all
  obtain cs' where rel: "heap (place_free h' n s'') cs'" "same_rest (claim h' n s'') (place_free h' n s'')"
    "set (uses (m_hBottom s) cs') = set (uses (m_hBottom s) cs1') \<union> set (uses (h' + n) cs2')"
    "keeps (claim h' n s'') (place_free h' n s'') (set (uses (m_hBottom s) cs1') \<union> set (uses (h' + n) cs2'))"
    using release_ok [OF nxt(2) _ claim_footer [OF n]] prev(3) b1 b2 by (auto simp: place_free_def)
  have "inter_free (h + 8) s = (0, sz, place_free h' n s'')"
    using head(4,7,11,13) check_inuse_chunk_ok [OF heapD(1) [OF s1] h_def] prev(1) nxt(1)
    by (auto simp: inter_free_def INVALID_HANDLE_def Let_def MINSIZE_def)
  moreover have "same_rest s (place_free h' n s'')"
    using prev(6) nxt(4) rel(2) same_rest_trans by blast
  moreover have "keeps s (place_free h' n s'') (set (uses (m_hBottom s) cs1) \<union> set (uses (h + sz) cs2))"
    using keeps_trans [OF keeps_trans [OF prev(7) nxt(5)] rel(4)] by (simp add: prev(4,5) b1 nxt(3))
  moreover have "set (uses (m_hBottom s) cs') = set (uses (m_hBottom s) cs1) \<union> set (uses (h + sz) cs2)"
    by (simp add: rel(3) prev(4,5) nxt(3))
  ultimately show ?thesis using rel(1) unfolding U by blast
qed

end
