(* ===== verification/PtMalloc_Alloc.thy ===== *)
theory PtMalloc_Alloc
  imports PtMalloc_Step
begin

text \<open>
  The allocating operations of \<open>PtMalloc\<close>: taking a chunk out of a bin, splitting it,
  allocating at the top, and the searches of \<open>inter_malloc\<close>, with the invariant of the
  memory kept by each.
\<close>

section \<open>Taking a chunk\<close>

lemma links_meta: "sizes_ok cs \<Longrightarrow> y \<in> links (set (chunks P a cs)) \<Longrightarrow> y \<notin> meta_cells a cs"
  using chunk_links_meta by (fastforce simp: links_def)

lemma links_mono: "F \<subseteq> G \<Longrightarrow> links F \<subseteq> links G"
  by (auto simp: links_def)

lemma heap_shape_relabel:
  "heap_shape s (cs1 @ (sz, Stray) # cs2) \<longleftrightarrow> heap_shape s (cs1 @ (sz, Used) # cs2)"
  by (auto simp: heap_shape_def layout_split)

text \<open>Setting the in-use bit behind a chunk.\<close>

lemma heap_mark:
  assumes s: "heap_shape s (cs1 @ (sz, u) # cs2)" "bins_hold s F" "F \<subseteq> set (frees (m_hBottom s) (cs1 @ (sz, u) # cs2))"
    and h: "h = m_hBottom s + csum cs1" and s': "s' = on_cells (set_inuse_bit_at_offset h sz) s"
  shows "heap_shape s' (cs1 @ (sz, Used) # cs2)" "bins_hold s' F"
    "keeps s s' (set (uses (m_hBottom s) (cs1 @ (sz, u) # cs2)))"
proof -
  let ?cs = "cs1 @ (sz, u) # cs2"
  note head = heap_header [OF s(1) h]
  have ok: "sizes_ok ?cs" using s(1) by (simp add: heap_shape_def)
  have cells: "pt_cells s' x = (if x = h + sz + 4 then Suc (head_size cs2) else pt_cells s x)" for x
    using head(9) head_size_bits [of cs2] ok by (simp add: s' cell_ops)
  have "h + sz + 4 \<in> meta_cells (m_hBottom s) ?cs"
  proof -
    have "a + csum cs1 + sz + 4 \<in> meta_cells a ?cs" for a
    proof (induction cs1 arbitrary: a)
      case Nil
      then show ?case by (cases cs2) auto
    next
      case (Cons y cs1)
      then show ?case using Cons.IH [of "a + fst y"] by (cases y) (simp add: add.assoc)
    qed
    then show ?thesis by (simp add: h)
  qed
  then have off: "pt_cells s' x = pt_cells s x" if "x \<in> links (set (chunks P (m_hBottom s) ?cs))" for x P
    using links_meta [OF ok that] cells [of x] by presburger
  show "bins_hold s' F"
    by (rule bins_hold_frame [OF s(2)]) (use off [of _ "\<lambda>u. u \<noteq> Used"] links_mono [OF s(3)] in \<open>simp add: s'\<close>, blast?)+
  show "keeps s s' (set (uses (m_hBottom s) ?cs))"
    unfolding keeps_def
  proof (intro allI impI)
    fix x xz y assume x: "(x, xz) \<in> set (uses (m_hBottom s) ?cs)" and y: "y \<in> user_cells x xz"
    have "(h, sz) \<in> set (chunks (\<lambda>_. True) (m_hBottom s) ?cs)" by (simp add: h)
    from chunks_apart [OF ok x this] show "pt_cells s' y = pt_cells s y"
      using y head(2) by (auto simp: cells user_cells_def MINSIZE_def)
  qed
  have "layout (pt_cells s') (m_hBottom s) True (cs1 @ [(sz, Used)] @ cs2)"
    by (rule layout_retile [where c = "pt_cells s" and ms = "[(sz, u)]"])
      (use s(1) head(8) h in \<open>auto simp: cells heap_shape_def MINSIZE_def\<close>)
  then show "heap_shape s' (cs1 @ (sz, Used) # cs2)"
    using s(1) by (cases cs2) (auto simp: heap_shape_def s')
qed

lemma frees_insert:
  assumes "sizes_ok (cs1 @ (sz, u) # cs2)" "u \<noteq> Used"
  shows "set (uses a (cs1 @ (sz, Used) # cs2)) = insert (a + csum cs1, sz) (set (uses a (cs1 @ (sz, u) # cs2)))"
    "set (frees a (cs1 @ (sz, Used) # cs2)) = set (frees a (cs1 @ (sz, u) # cs2)) - {(a + csum cs1, sz)}"
    "(a + csum cs1, x) \<notin> set (uses a (cs1 @ (sz, u) # cs2))"
proof -
  show "set (uses a (cs1 @ (sz, Used) # cs2)) = insert (a + csum cs1, sz) (set (uses a (cs1 @ (sz, u) # cs2)))"
    using assms(2) by auto
  show "set (frees a (cs1 @ (sz, Used) # cs2)) = set (frees a (cs1 @ (sz, u) # cs2)) - {(a + csum cs1, sz)}"
    unfolding chunks_remove [OF assms(1)] by simp
  have "(a + csum cs1, sz) \<in> set (frees a (cs1 @ (sz, u) # cs2))" using assms(2) by simp
  from chunks_disjoint [OF assms(1) this, of "\<lambda>u. u = Used"]
  show "(a + csum cs1, x) \<notin> set (uses a (cs1 @ (sz, u) # cs2))" by simp
qed

text \<open>\<open>grants s s' h sz\<close>: in \<open>s'\<close> the chunk \<open>h\<close> of size \<open>sz\<close> is given out, all else is as in \<open>s\<close>.\<close>

definition grants :: "PtMalloc \<Rightarrow> chunk list \<Rightarrow> PtMalloc \<Rightarrow> handle \<Rightarrow> nat \<Rightarrow> bool" where
  "grants s cs s' h sz \<longleftrightarrow>
     (\<exists>cs'. heap s' cs' \<and> set (uses (m_hBottom s) cs') = insert (h, sz) (set (uses (m_hBottom s) cs)))
     \<and> (\<forall>x. (h, x) \<notin> set (uses (m_hBottom s) cs)) \<and> same_rest s s' \<and> keeps s s' (set (uses (m_hBottom s) cs))"

lemma take_whole:
  assumes s: "heap s cs" and h: "(h, sz) \<in> set (frees (m_hBottom s) cs)"
  shows "grants s cs (on_cells (set_inuse_bit_at_offset h sz) (take_from_bin (bin_index sz) h s)) h sz"
    "grants s cs (take_from_bin (bin_index sz) h (on_cells (set_inuse_bit_at_offset h sz) s)) h sz"
proof -
  obtain cs1 u cs2 where cs: "cs = cs1 @ (sz, u) # cs2" "u \<noteq> Used" and h_def: "h = m_hBottom s + csum cs1"
    using chunks_split [OF h] by auto
  let ?F = "set (frees (m_hBottom s) cs)"
  note ok = heapD(3) [OF s, unfolded cs(1)]
  note upd = frees_insert [OF ok cs(2), of "m_hBottom s", folded cs(1) h_def]
  obtain t where t: "take_from_bin (bin_index sz) h s = t" "heap_shape t cs" "bins_hold t (?F - {(h, sz)})"
    "keeps s t (set (uses (m_hBottom s) cs))" "same_rest s t"
    using heap_take [OF heapD(1,2) [OF s] order_refl h] by blast
  note b = same_restD(1) [OF t(5)]
  note m = heap_mark [OF t(2) [unfolded cs(1)] t(3) _ _ refl, of h, folded cs(1)]
  have "heap (on_cells (set_inuse_bit_at_offset h sz) t) (cs1 @ (sz, Used) # cs2)"
    using m(1,2) b h_def upd(2) by (simp only: heap_def) auto
  then show "grants s cs (on_cells (set_inuse_bit_at_offset h sz) (take_from_bin (bin_index sz) h s)) h sz"
    unfolding grants_def t(1)
    using upd(1,3) m(3) b h_def t(4,5) same_rest_trans [OF t(5) same_rest_cells] keeps_trans [OF t(4)] by fastforce
  define r where "r = on_cells (set_inuse_bit_at_offset h sz) s"
  note r = heap_mark [OF heapD(1) [OF s, unfolded cs(1)] heapD(2) [OF s] _ h_def r_def, folded cs(1), OF order_refl]
  have rb: "m_hBottom r = m_hBottom s" "same_rest s r" by (simp_all add: r_def)
  have st: "set (frees (m_hBottom s) (cs1 @ (sz, Stray) # cs2)) = ?F" "uses (m_hBottom s) (cs1 @ (sz, Stray) # cs2) = uses (m_hBottom s) cs"
    using cs by auto
  obtain q where q: "take_from_bin (bin_index sz) h r = q" "heap_shape q (cs1 @ (sz, Used) # cs2)" "bins_hold q (?F - {(h, sz)})"
    "keeps r q (set (uses (m_hBottom s) cs))" "same_rest r q"
    using heap_take [of r "cs1 @ (sz, Stray) # cs2" ?F h sz] r(1,2) h unfolding heap_shape_relabel rb st by blast
  have "m_hBottom q = m_hBottom s" using same_restD(1) [OF q(5)] rb by simp
  then have "heap q (cs1 @ (sz, Used) # cs2)" using q(2,3) upd(2) by (simp only: heap_def)
  then show "grants s cs (take_from_bin (bin_index sz) h (on_cells (set_inuse_bit_at_offset h sz) s)) h sz"
    unfolding grants_def r_def [symmetric] q(1)
    using upd(1,3) same_rest_trans [OF rb(2) q(5)] keeps_trans [OF r(3) q(4) order_refl] by blast
qed

section \<open>Splitting a chunk\<close>

text \<open>The writes of \<open>carve\<close> that split a chunk of size \<open>sz + R\<close>.\<close>

definition split_cells :: "handle \<Rightarrow> nat \<Rightarrow> nat \<Rightarrow> cells \<Rightarrow> cells" where
  "split_cells h sz R c =
     (let c = set_tSize h (sz + SIZE_BITS_of (tSize c h)) c; n = h + sz;
          c = set_inuse_bit_at_offset n 0 (set_tPreSize n sz (set_tSize n R c))
      in set_inuse_bit_at_offset n R (set_tPreSize (h + sz + R) R c))"

lemma split_cells_apply:
  assumes "c (h + 4) = S + of_bool p" "8 dvd S" "8 dvd sz" "8 dvd R" "24 \<le> sz" "24 \<le> R"
    "sz \<le> MAX_ALLOC_SIZE" "R \<le> MAX_ALLOC_SIZE" "c (h + sz + R + 4) = N + of_bool q" "8 dvd N" "N \<le> MAX_ALLOC_SIZE"
  shows "split_cells h sz R c x =
    (if x = h + 4 then sz + of_bool p else if x = h + sz then sz else if x = h + sz + 4 then Suc R
     else if x = h + sz + R then R else if x = h + sz + R + 4 then Suc N else c x)"
  using assms by (simp add: split_cells_def Let_def cell_ops)

lemma heap_split:
  assumes s: "heap_shape s (cs1 @ (sz + R, u) # cs2)" and h: "h = m_hBottom s + csum cs1"
    and F: "bins_hold s (set (frees (m_hBottom s) cs1) \<union> set (frees (h + sz + R) cs2))"
    and sz: "8 dvd sz" "8 dvd R" "MINSIZE \<le> sz" "MINSIZE \<le> R"
    and s': "s' = on_cells (split_cells h sz R) s"
  shows "heap s' (cs1 @ (sz, Used) # (R, Used) # cs2)"
    "keeps s s' (set (uses (m_hBottom s) cs1) \<union> set (uses (h + sz + R) cs2))"
proof -
  note head = heap_header [OF s h]
  have ok: "sizes_ok cs2" using s by (simp add: heap_shape_def)
  have small: "sz \<le> MAX_ALLOC_SIZE" "R \<le> MAX_ALLOC_SIZE" using head(3) by simp_all
  have cells: "split_cells h sz R (pt_cells s) x =
    (if x = h + 4 then sz + of_bool (last_used True cs1) else if x = h + sz then sz else if x = h + sz + 4 then Suc R
     else if x = h + sz + R then R else if x = h + sz + R + 4 then Suc (head_size cs2) else pt_cells s x)" for x
    by (rule split_cells_apply [where S = "sz + R" and p = "last_used True cs1" and q = "u \<noteq> Freed"])
      (use head(1,8) sz small head(9) head_size_bits [OF ok] in \<open>auto simp: MINSIZE_def add.assoc\<close>)
  have "heap_shape s' (cs1 @ [(sz, Used), (R, Used)] @ cs2) \<and> bins_hold s' (set (frees (m_hBottom s) cs1) \<union> set (frees (h + sz + R) cs2))
      \<and> keeps s s' (set (uses (m_hBottom s) cs1) \<union> set (uses (m_hBottom s + csum cs1 + csum [(sz + R, u)]) cs2))"
    unfolding s'
  proof (rule heap_retile [where ms = "[(sz + R, u)]"])
    show "split_cells h sz R (pt_cells s) x = pt_cells s x"
      if "x < m_hBottom s + csum cs1 + 4 \<or> m_hBottom s + csum cs1 + csum [(sz + R, u)] + 4 < x" for x
      using that sz(3,4) unfolding cells by (auto simp: h MINSIZE_def)
    show "tiles (split_cells h sz R (pt_cells s)) (m_hBottom s + csum cs1) (last_used True cs1) [(sz, Used), (R, Used)]"
      using sz(3,4) by (simp add: cells MINSIZE_def flip: h)
    show "split_cells h sz R (pt_cells s) (m_hBottom s + csum cs1 + csum [(sz + R, u)] + 4)
        = head_size cs2 + of_bool (last_used (last_used True cs1) [(sz, Used), (R, Used)])"
      using sz(3,4) unfolding cells by (simp add: MINSIZE_def h add.assoc)
    show "last_used True (cs1 @ [(sz, Used), (R, Used)] @ cs2)"
      using s by (cases cs2) (auto simp: heap_shape_def)
  qed (use s F sz small h in \<open>auto simp: add.assoc\<close>)
  then show "heap s' (cs1 @ (sz, Used) # (R, Used) # cs2)"
    "keeps s s' (set (uses (m_hBottom s) cs1) \<union> set (uses (h + sz + R) cs2))"
    by (simp_all add: heap_def s' h add.assoc)
qed

lemma carve_ok:
  assumes s: "heap s cs" and h: "(h, S) \<in> set (frees (m_hBottom s) cs)"
    and sz: "sz \<le> S" "8 dvd sz" "MINSIZE \<le> sz" and min: "MINSIZE \<le> get_min_chunk_size s"
  shows "\<exists>z. sz \<le> z \<and> grants s cs (carve (bin_index S) h sz s) h z"
proof -
  obtain cs1 u cs2 where cs: "cs = cs1 @ (S, u) # cs2" "u \<noteq> Used" and h_def: "h = m_hBottom s + csum cs1"
    using chunks_split [OF h] by auto
  let ?F = "set (frees (m_hBottom s) cs)"
  note ok = heapD(3) [OF s, unfolded cs(1)]
  note head = heap_header [OF heapD(1) [OF s, unfolded cs(1)] h_def]
  obtain t where t: "take_from_bin (bin_index S) h s = t" "heap_shape t cs" "bins_hold t (?F - {(h, S)})"
    "keeps s t (set (uses (m_hBottom s) cs))" "same_rest s t"
    using heap_take [OF heapD(1,2) [OF s] order_refl h] by blast
  note b = same_restD(1) [OF t(5)] and gm = same_restD(12) [OF t(5)]
  have hb: "h = m_hBottom t + csum cs1" using h_def b by simp
  note headt = heap_header [OF t(2) [unfolded cs(1)] hb]
  show ?thesis
  proof (cases "S - sz < get_min_chunk_size s")
    case True
    then have "carve (bin_index S) h sz s = on_cells (set_inuse_bit_at_offset h S) (take_from_bin (bin_index S) h s)"
      using t(1) gm head(11) headt(11) by (simp add: carve_def Let_def)
    then show ?thesis using take_whole(1) [OF s h] sz(1) by auto
  next
    case False
    define R where "R = S - sz"
    have S: "S = sz + R" and R: "8 dvd R" "MINSIZE \<le> R"
      using sz head(1) False min by (auto simp: R_def)
    have F: "?F - {(h, S)} = set (frees (m_hBottom t) cs1) \<union> set (frees (h + sz + R) cs2)"
      unfolding cs(1) h_def b by (subst chunks_remove [OF ok]) (simp add: S add.assoc)
    define r where "r = on_cells (split_cells h sz R) t"
    note r = heap_split [OF t(2) [unfolded cs(1) S] hb t(3) [unfolded F] sz(2) R(1) sz(3) R(2) r_def]
    have rb: "m_hBottom r = m_hBottom s" "same_rest s r" using b same_rest_trans [OF t(5)] by (simp_all add: r_def)
    have n: "(h + sz, R) \<in> set (uses (m_hBottom r) (cs1 @ (sz, Used) # (R, Used) # cs2))"
      using h_def rb by simp
    have u: "set (uses (m_hBottom s) (cs1 @ (sz, Used) # (R, Used) # cs2)) - {(h + sz, R)}
      = insert (h, sz) (set (uses (m_hBottom s) cs))"
      using chunks_remove [of "cs1 @ [(sz, Used)]" R Used cs2 "\<lambda>u. u = Used" "m_hBottom s"] heapD(3) [OF r(1)] cs(2)
      by (auto simp: h_def cs(1) S add.assoc)
    obtain q cs' where q: "inter_free (h + sz + 8) r = (0, R, q)" "heap q cs'" "same_rest r q"
      "set (uses (m_hBottom s) cs') = insert (h, sz) (set (uses (m_hBottom s) cs))"
      "keeps r q (insert (h, sz) (set (uses (m_hBottom s) cs)))"
      using inter_free_ok [OF r(1) n] unfolding rb(1) u by blast
    have "set (uses (m_hBottom s) cs1) \<union> set (uses (h + sz + R) cs2) = set (uses (m_hBottom s) cs)"
      using cs(2) by (simp add: cs(1) h_def S add.assoc)
    then have "keeps t r (set (uses (m_hBottom s) cs))" using r(2) b by simp
    then have "keeps s q (set (uses (m_hBottom s) cs))"
      using keeps_trans [OF t(4) keeps_trans [OF _ q(5)]] by blast
    moreover have "carve (bin_index S) h sz s = q"
      using False t(1) gm head(11) q(1)
      by (simp add: carve_def Let_def r_def split_cells_def flip: R_def)
    ultimately have "grants s cs (carve (bin_index S) h sz s) h sz"
      unfolding grants_def using q(2,4) same_rest_trans [OF rb(2) q(3)]
        frees_insert(3) [OF ok cs(2), of "m_hBottom s", folded cs(1) h_def] by blast
    then show ?thesis by blast
  qed
qed

section \<open>The bins as the searches see them\<close>

lemma bin_listed:
  assumes "heap s cs" "i < NBINS"
  shows "\<exists>xs. bin_list (pt_cells s) (m_ptBin s i) xs \<and> (xs \<noteq> [] \<longrightarrow> bin_bit (m_auiBinBitMap s) i)
    \<and> (\<forall>x. x \<in> set xs \<longleftrightarrow> (\<exists>sz. (x, sz) \<in> set (frees (m_hBottom s) cs) \<and> bin_index sz = i))"
proof -
  have "bin_holds (m_ptBin s i) (bin_bit (m_auiBinBitMap s) i) (pt_cells s) (bin_of (set (frees (m_hBottom s) cs)) i)"
    using heapD(2) [OF assms(1)] assms(2) by (simp add: bins_hold_def)
  then show ?thesis unfolding bin_holds_def bin_of_def by blast
qed

lemma frees_size:
  assumes "heap s cs" "(h, sz) \<in> set (frees (m_hBottom s) cs)"
  shows "CHUNK_SIZE (pt_cells s) h = sz" "8 dvd sz" "MINSIZE \<le> sz" "0 < h" "REAL_SIZE (tSize (pt_cells s) h) = sz"
    "h + sz + MINSIZE \<le> m_tSize s"
proof -
  obtain cs1 u cs2 where cs: "cs = cs1 @ (sz, u) # cs2" "h = m_hBottom s + csum cs1"
    using chunks_split [OF assms(2)] by auto
  note head = heap_header [OF heapD(1) [OF assms(1), unfolded cs(1)] cs(2)]
  show "CHUNK_SIZE (pt_cells s) h = sz" "8 dvd sz" "MINSIZE \<le> sz" "0 < h" "h + sz + MINSIZE \<le> m_tSize s" using head by simp_all
  then show "REAL_SIZE (tSize (pt_cells s) h) = sz" by (simp add: CHUNK_SIZE_def)
qed

lemma empty_bin_iff:
  assumes "heap s cs" "i < NBINS"
  shows "m_hNextChunk (m_ptBin s i) = 0 \<longleftrightarrow> (\<forall>(h, sz)\<in>set (frees (m_hBottom s) cs). bin_index sz \<noteq> i)"
    "m_hNextChunk (m_ptBin s i) \<noteq> 0 \<Longrightarrow> \<exists>sz. (m_hNextChunk (m_ptBin s i), sz) \<in> set (frees (m_hBottom s) cs) \<and> bin_index sz = i"
    "m_hNextChunk (m_ptBin s i) \<noteq> 0 \<Longrightarrow> \<exists>sz. (m_hPreChunk (m_ptBin s i), sz) \<in> set (frees (m_hBottom s) cs) \<and> bin_index sz = i"
    "m_hNextChunk (m_ptBin s i) \<noteq> 0 \<Longrightarrow> bin_bit (m_auiBinBitMap s) i"
proof -
  obtain xs where xs: "bin_list (pt_cells s) (m_ptBin s i) xs" "xs \<noteq> [] \<longrightarrow> bin_bit (m_auiBinBitMap s) i"
    "\<And>x. x \<in> set xs \<longleftrightarrow> (\<exists>sz. (x, sz) \<in> set (frees (m_hBottom s) cs) \<and> bin_index sz = i)"
    using bin_listed [OF assms] by blast
  have pos: "0 \<notin> set xs" unfolding xs(3) using frees_size(4) [OF assms(1)] by blast
  have ends: "m_hNextChunk (m_ptBin s i) = (if xs = [] then 0 else hd xs)" "m_hPreChunk (m_ptBin s i) = (if xs = [] then 0 else last xs)"
    using xs(1) by (simp_all add: bin_list_def)
  have iff: "m_hNextChunk (m_ptBin s i) = 0 \<longleftrightarrow> xs = []" using pos ends by (cases xs) auto
  show "m_hNextChunk (m_ptBin s i) = 0 \<longleftrightarrow> (\<forall>(h, sz)\<in>set (frees (m_hBottom s) cs). bin_index sz \<noteq> i)"
    unfolding iff using xs(3) by (cases xs) fastforce+
  show "bin_bit (m_auiBinBitMap s) i" if "m_hNextChunk (m_ptBin s i) \<noteq> 0" using that iff xs(2) by simp
  assume "m_hNextChunk (m_ptBin s i) \<noteq> 0"
  then have "xs \<noteq> []" using iff by simp
  then show "\<exists>sz. (m_hNextChunk (m_ptBin s i), sz) \<in> set (frees (m_hBottom s) cs) \<and> bin_index sz = i"
    "\<exists>sz. (m_hPreChunk (m_ptBin s i), sz) \<in> set (frees (m_hBottom s) cs) \<and> bin_index sz = i"
    using xs(3) [of "hd xs"] xs(3) [of "last xs"] ends by simp_all
qed

section \<open>The small bins\<close>

lemma heap_clear_empty:
  assumes s: "heap s cs" and i: "i < NBINS" "m_hNextChunk (m_ptBin s i) = 0"
  shows "heap (clear_bin_bit_map i s) cs" "same_rest s (clear_bin_bit_map i s)" "pt_cells (clear_bin_bit_map i s) = pt_cells s"
proof -
  have "bin_of (set (frees (m_hBottom s) cs)) i = {}" using empty_bin_iff(1) [OF s i(1)] i(2) by (auto simp: bin_of_def)
  then have "bin_holds (m_ptBin s j) (bin_bit (m_auiBinBitMap (clear_bin_bit_map i s)) j) (pt_cells s) (bin_of (set (frees (m_hBottom s) cs)) j)"
    if "j < NBINS" for j
    using heapD(2) [OF s] that by (cases "j = i") (auto simp: bins_hold_def bin_holds_def bin_bit_clear)
  then show "heap (clear_bin_bit_map i s) cs"
    using s by (simp add: heap_def heap_shape_def bins_hold_def clear_bin_bit_map_def)
  show "same_rest s (clear_bin_bit_map i s)" "pt_cells (clear_bin_bit_map i s) = pt_cells s"
    by (simp_all add: same_rest_def clear_bin_bit_map_def)
qed

lemma small_bin_malloc_ok:
  assumes s: "heap s cs" and sz: "in_smallbin_range sz" "8 dvd sz"
  shows "small_bin_malloc sz s = (0, clear_bin_bit_map (bin_index sz) s) \<and> m_hNextChunk (m_ptBin s (bin_index sz)) = 0
    \<or> (\<exists>h s'. small_bin_malloc sz s = (h, s') \<and> h \<noteq> 0 \<and> grants s cs s' h sz)"
proof (cases "m_hNextChunk (m_ptBin s (bin_index sz)) = 0")
  case True
  then show ?thesis using sz(1) by (simp add: small_bin_malloc_def bin_malloc_def INVALID_HANDLE_def Let_def empty_bin_def bin_index_def)
next
  case False
  define i h where "i = bin_index sz" and "h = m_hNextChunk (m_ptBin s i)"
  have i: "smallbin_index sz = i" using sz(1) by (simp add: i_def bin_index_def)
  have ne: "m_hNextChunk (m_ptBin s i) \<noteq> 0" using False by (simp add: i_def)
  obtain z where z: "(h, z) \<in> set (frees (m_hBottom s) cs)" "bin_index z = i"
    using empty_bin_iff(2) [OF s _ ne] bin_index_less by (auto simp: h_def i_def)
  have "z = sz" using bin_index_small [OF sz _] frees_size(2) [OF s z(1)] z(2) by (simp add: i_def)
  note h = z(1) [unfolded this]
  have "small_bin_malloc sz s = (h, take_from_bin i h (on_cells (set_inuse_bit_at_offset h sz) s))"
    using ne frees_size(5) [OF s h]
    by (simp add: small_bin_malloc_def i bin_malloc_def INVALID_HANDLE_def Let_def take_from_bin_def unlink_ptBin_def
        split_beta flip: h_def)
  then show ?thesis using take_whole(2) [OF s h] frees_size(4) [OF s h] by (auto simp: i_def)
qed

section \<open>The searches\<close>

lemma large_search_sound:
  assumes "lseg c p xs 0" "large_search c sz (if xs = [] then 0 else hd xs) n = Some v"
  shows "v \<in> set xs \<and> sz \<le> CHUNK_SIZE c v"
  using assms
proof (induction n arbitrary: xs p)
  case (Suc n)
  show ?case
  proof (cases xs)
    case (Cons x ys)
    then show ?thesis using Suc.IH [of x ys] Suc.prems by (auto split: if_splits)
  qed (use Suc.prems in \<open>simp add: INVALID_HANDLE_def\<close>)
qed simp

lemma skip_words_props:
  "i \<le> skip_words s i \<and> (\<forall>k. i \<le> k \<and> k < skip_words s i \<longrightarrow> bitmap_word s k = 0)"
proof (induction s i rule: skip_words.induct)
  case (1 s i)
  show ?case
  proof (cases "i < 16 \<and> bitmap_word s i = 0")
    case True
    then have eq: "skip_words s i = skip_words s (i + 1)" by (subst skip_words.simps) simp
    have "bitmap_word s k = 0" if "i \<le> k" "k < skip_words s (i + 1)" for k
      using 1 [OF True] True that by (cases "k = i") auto
    then show ?thesis using 1 [OF True] unfolding eq by auto
  next
    case False
    then have "skip_words s i = i" by (subst skip_words.simps) auto
    then show ?thesis by simp
  qed
qed

lemma skip_bins_props:
  "i \<le> skip_bins s i \<and> (NBINS \<le> skip_bins s i \<or> m_hNextChunk (m_ptBin s (skip_bins s i)) \<noteq> 0)
   \<and> (\<forall>k. i \<le> k \<and> k < skip_bins s i \<longrightarrow> m_hNextChunk (m_ptBin s k) = 0)"
proof (induction s i rule: skip_bins.induct)
  case (1 s i)
  show ?case
  proof (cases "i < NBINS \<and> m_hNextChunk (m_ptBin s i) = INVALID_HANDLE")
    case True
    then have eq: "skip_bins s i = skip_bins s (i + 1)" by (subst skip_bins.simps) simp
    have "m_hNextChunk (m_ptBin s k) = 0" if "i \<le> k" "k < skip_bins s (i + 1)" for k
      using 1 [OF True] True that by (cases "k = i") (auto simp: INVALID_HANDLE_def)
    then show ?thesis using 1 [OF True] unfolding eq by auto
  next
    case False
    then have "skip_bins s i = i" by (subst skip_bins.simps) auto
    then show ?thesis using False by (auto simp: INVALID_HANDLE_def)
  qed
qed

text \<open>
  \<open>next_bin\<close> finds the first non-empty bin behind \<open>i\<close>: a word of the bitmap that is zero
  stands for 32 empty bins.
\<close>

lemma next_bin_props:
  assumes "heap s cs"
  shows "i < next_bin s i" "next_bin s i < NBINS \<Longrightarrow> m_hNextChunk (m_ptBin s (next_bin s i)) \<noteq> 0"
    "i < k \<Longrightarrow> k < next_bin s i \<Longrightarrow> k < NBINS \<Longrightarrow> m_hNextChunk (m_ptBin s k) = 0"
proof -
  define j where "j = (if bitmap_word s ((i + 1) div 32) = 0 then skip_words s ((i + 1) div 32 + 1) * 32 else i + 1)"
  have nb: "next_bin s i = skip_bins s j" by (simp add: next_bin_def j_def)
  note sw = skip_words_props [of "(i + 1) div 32 + 1" s]
  have j: "i < j"
  proof (cases "bitmap_word s ((i + 1) div 32) = 0")
    case True
    have "((i + 1) div 32 + 1) * 32 \<le> j" using sw True by (simp add: j_def)
    then show ?thesis using dividend_less_div_times [of 32 "i + 1"] by simp
  qed (simp add: j_def)
  have empty: "m_hNextChunk (m_ptBin s k) = 0" if k: "i < k" "k < j" "k < NBINS" for k
  proof -
    have zero: "bitmap_word s ((i + 1) div 32) = 0" using k by (simp add: j_def split: if_splits)
    have "(i + 1) div 32 \<le> k div 32" "k div 32 < skip_words s ((i + 1) div 32 + 1)"
      using k zero by (auto simp: j_def less_mult_imp_div_less intro: div_le_mono)
    then have "bitmap_word s (k div 32) = 0" using sw zero by (cases "k div 32 = (i + 1) div 32") auto
    then have "\<not> bin_bit (m_auiBinBitMap s) k" using k(3) by (simp add: bin_bit_def bitmap_word_def NBINS_def split: if_splits)
    then show ?thesis using empty_bin_iff(4) [OF assms k(3)] by blast
  qed
  note sb = skip_bins_props [of j s]
  show "i < next_bin s i" using sb j by (simp add: nb)
  show "next_bin s i < NBINS \<Longrightarrow> m_hNextChunk (m_ptBin s (next_bin s i)) \<noteq> 0" using sb by (simp add: nb)
  show "i < k \<Longrightarrow> k < next_bin s i \<Longrightarrow> k < NBINS \<Longrightarrow> m_hNextChunk (m_ptBin s k) = 0"
    using sb empty [of k] by (cases "k < j") (auto simp: nb)
qed

section \<open>Allocating at the top\<close>

lemma top_alloc_ok:
  assumes s: "heap s cs" and sz: "8 dvd sz" "MINSIZE \<le> sz" "sz \<le> MAX_ALLOC_SIZE"
    and room: "m_hTop s + sz + MINSIZE < m_tSize s"
  shows "\<exists>s'. top_alloc sz s = (m_hTop s + 8, s') \<and> grants s cs s' (m_hTop s) sz"
proof -
  define h where "h = m_hTop s"
  have shape: "m_hTop s = m_hBottom s + csum cs" "sizes_ok cs" "layout (pt_cells s) (m_hBottom s) True cs" "last_used True cs"
    using heapD(1) [OF s] by (simp_all add: heap_shape_def)
  have split: "tiles (pt_cells s) (m_hBottom s) True cs" "pt_cells s (h + 4) = 1"
    using shape layout_split [of "pt_cells s" "m_hBottom s" True cs "[]"] by (simp_all add: h_def)
  obtain s' where top: "top_alloc sz s = (h + 8, s')" and s': "m_hTop s' = h + sz" "same_rest s s'"
    "m_ptBin s' = m_ptBin s" "m_auiBinBitMap s' = m_auiBinBitMap s"
    and cells: "\<And>x. pt_cells s' x = (if x = h + 4 then Suc sz else if x = h + sz then sz else if x = h + sz + 4 then 1 else pt_cells s x)"
    using room sz split(2)
    by (simp add: top_alloc_def Let_def cell_ops PREV_INUSE_def SIZE_BITS_of_def same_rest_def MINSIZE_def flip: h_def)
  note b = same_restD(1,2) [OF s'(2)]
  have low: "pt_cells s' x = pt_cells s x" if "x < h + 4" for x using that sz(2) by (simp add: cells MINSIZE_def)
  have "tiles (pt_cells s') (m_hBottom s) True cs"
    using split(1) tiles_frame [OF shape(2), of "m_hBottom s" "pt_cells s'" "pt_cells s"] low by (simp add: h_def shape(1))
  then have "layout (pt_cells s') (m_hBottom s) True (cs @ [(sz, Used)])"
    unfolding layout_split using shape(4) sz(2) by (simp add: cells h_def shape(1) MINSIZE_def)
  then have "heap_shape s' (cs @ [(sz, Used)])"
    using heapD(1) [OF s] sz room b s'(1) by (simp add: heap_shape_def h_def)
  moreover have "bins_hold s' (set (frees (m_hBottom s) cs))"
  proof (rule bins_hold_frame [OF heapD(2) [OF s] s'(3,4)])
    fix a assume "a \<in> links (set (frees (m_hBottom s) cs))"
    from chunks_links(2) [OF shape(2) this] show "pt_cells s' a = pt_cells s a" using low by (simp add: h_def shape(1))
  qed
  ultimately have "heap s' (cs @ [(sz, Used)])" by (simp add: heap_def b)
  moreover have "keeps s s' (set (uses (m_hBottom s) cs))"
    unfolding keeps_def
  proof (intro allI impI)
    fix x xz y assume "(x, xz) \<in> set (uses (m_hBottom s) cs)" "y \<in> user_cells x xz"
    from chunks_user_cells(2) [OF shape(2) this] show "pt_cells s' y = pt_cells s y" using low by (simp add: h_def shape(1))
  qed
  moreover have "(h, x) \<notin> set (uses (m_hBottom s) cs)" for x
    using chunks_bounds [OF shape(2), of h x "\<lambda>u. u = Used" "m_hBottom s"] by (auto simp: h_def shape(1) MINSIZE_def)
  ultimately have "grants s cs s' h sz"
    unfolding grants_def using s'(2) by (intro conjI exI [of _ "cs @ [(sz, Used)]"]) (auto simp: h_def shape(1))
  then show ?thesis using top by (simp add: h_def)
qed

section \<open>Malloc\<close>

lemma grants_handle:
  assumes "grants s cs s' h z"
  shows "ptr_to_handle (h + 8) s' = h + 8" "CHUNK_SIZE (pt_cells s') h = z"
proof -
  obtain cs' where u: "heap s' cs'" "set (uses (m_hBottom s) cs') = insert (h, z) (set (uses (m_hBottom s) cs))" "same_rest s s'"
    using assms unfolding grants_def by blast
  have cs': "heap s' cs'" "(h, z) \<in> set (uses (m_hBottom s') cs')"
    using u(1,2) same_restD(1) [OF u(3)] by simp_all
  obtain cs1 cs2 where cs: "cs' = cs1 @ (z, Used) # cs2" "h = m_hBottom s' + csum cs1"
    using chunks_split [OF cs'(2)] by auto
  note head = heap_header [OF heapD(1) [OF cs'(1), unfolded cs(1)] cs(2)]
  show "ptr_to_handle (h + 8) s' = h + 8" "CHUNK_SIZE (pt_cells s') h = z"
    using head(2,7,11) by (simp_all add: ptr_to_handle_def MINSIZE_def)
qed

lemma grants_start:
  assumes "grants t cs s' h z" "same_rest s t" "pt_cells t = pt_cells s"
  shows "grants s cs s' h z"
  using assms(1) same_rest_trans [OF assms(2)] same_restD(1) [OF assms(2)] assms(3)
  unfolding grants_def keeps_def by simp

text \<open>No free chunk is in a bin behind that of \<open>sz\<close>, and none fits a small \<open>sz\<close>.\<close>

definition no_fit :: "PtMalloc \<Rightarrow> chunk list \<Rightarrow> nat \<Rightarrow> bool" where
  "no_fit s cs sz \<longleftrightarrow>
     (\<forall>(x, z)\<in>set (frees (m_hBottom s) cs). bin_index z \<le> bin_index sz \<and> (in_smallbin_range sz \<longrightarrow> z < sz))"

lemma scan_malloc_ok:
  assumes s: "heap s cs" and min: "MINSIZE \<le> get_min_chunk_size s"
    and sz: "8 dvd sz" "MINSIZE \<le> sz" "sz \<le> MAX_ALLOC_SIZE"
    and small: "in_smallbin_range sz \<Longrightarrow> m_hNextChunk (m_ptBin s (bin_index sz)) = 0"
  shows "\<exists>h s'. scan_malloc sz s = Some (h, s')
    \<and> (h = 0 \<and> s' = s \<and> m_tSize s \<le> m_hTop s + sz + MINSIZE \<and> no_fit s cs sz
       \<or> (\<exists>x z. h = x + 8 \<and> sz \<le> z \<and> grants s cs s' x z))"
proof (cases "next_bin s (bin_index sz) < NBINS")
  case True
  define i h where "i = next_bin s (bin_index sz)" and "h = m_hPreChunk (m_ptBin s i)"
  obtain S where S: "(h, S) \<in> set (frees (m_hBottom s) cs)" "bin_index S = i"
    using empty_bin_iff(3) [OF s True next_bin_props(2) [OF s True]] by (auto simp: h_def i_def)
  have "bin_index sz < bin_index S" using next_bin_props(1) [OF s, of "bin_index sz"] by (simp add: S(2) i_def)
  then have le: "sz \<le> S" using bin_index_strict by fastforce
  have "search_back (pt_cells s) sz h = Some h"
    using le frees_size(1,4) [OF s S(1)] by (subst search_back.simps) (simp add: INVALID_HANDLE_def)
  moreover obtain z where z: "sz \<le> z" "grants s cs (carve i h sz s) h z"
    using carve_ok [OF s S(1) le sz(1,2) min] S(2) by auto
  ultimately show ?thesis
    using True grants_handle(1) [OF z(2)] by (auto simp: scan_malloc_def Let_def simp flip: i_def h_def)
next
  case False
  have fit: "no_fit s cs sz"
    unfolding no_fit_def
  proof (clarify, intro conjI impI)
    fix x z assume x: "(x, z) \<in> set (frees (m_hBottom s) cs)"
    show le: "bin_index z \<le> bin_index sz"
    proof (rule ccontr)
      assume "\<not> bin_index z \<le> bin_index sz"
      then have "m_hNextChunk (m_ptBin s (bin_index z)) = 0"
        using next_bin_props(3) [OF s, of "bin_index sz" "bin_index z"] False bin_index_less [of z] by simp
      then show False using empty_bin_iff(1) [OF s bin_index_less] x by blast
    qed
    assume "in_smallbin_range sz"
    then have "bin_index z \<noteq> bin_index sz" using small empty_bin_iff(1) [OF s bin_index_less] x by blast
    then show "z < sz" using le bin_index_strict by simp
  qed
  show ?thesis
  proof (cases "m_hTop s + sz + MINSIZE < m_tSize s")
    case True
    obtain s' where "top_alloc sz s = (m_hTop s + 8, s')" "grants s cs s' (m_hTop s) sz"
      using top_alloc_ok [OF s sz True] by blast
    then show ?thesis using False grants_handle(1) by (auto simp: scan_malloc_def Let_def INVALID_HANDLE_def)
  next
    case full: False
    then show ?thesis using False fit by (auto simp: scan_malloc_def Let_def top_alloc_def INVALID_HANDLE_def)
  qed
qed

lemma inter_malloc_ok:
  assumes s: "heap s cs" and min: "MINSIZE \<le> get_min_chunk_size s"
  shows "\<exists>h s'. inter_malloc req s = Some (h, s')
    \<and> (h = 0 \<and> heap s' cs \<and> same_rest s s' \<and> pt_cells s' = pt_cells s
         \<and> (REQUEST_OUT_OF_RANGE req
            \<or> m_tSize s \<le> m_hTop s + request2size req + MINSIZE \<and> no_fit s cs (request2size req))
       \<or> \<not> REQUEST_OUT_OF_RANGE req \<and> (\<exists>x z. h = x + 8 \<and> request2size req \<le> z \<and> grants s cs s' x z))"
proof (cases "REQUEST_OUT_OF_RANGE req")
  case True
  then show ?thesis using s by (simp add: inter_malloc_def INVALID_HANDLE_def)
next
  case False
  define sz where "sz = request2size req"
  have sz: "8 dvd sz" "MINSIZE \<le> sz" "sz \<le> MAX_ALLOC_SIZE"
    using request2size_props [OF False] by (simp_all add: sz_def)
  show ?thesis
  proof (cases "in_smallbin_range sz")
    case small: True
    consider "small_bin_malloc sz s = (0, clear_bin_bit_map (bin_index sz) s)" "m_hNextChunk (m_ptBin s (bin_index sz)) = 0"
      | h s' where "small_bin_malloc sz s = (h, s')" "h \<noteq> 0" "grants s cs s' h sz"
      using small_bin_malloc_ok [OF s small sz(1)] by metis
    then show ?thesis
    proof cases
      case 1
      define t where "t = clear_bin_bit_map (bin_index sz) s"
      note t = heap_clear_empty [OF s bin_index_less 1(2), folded t_def]
      have tb: "m_ptBin t = m_ptBin s" "m_hTop t = m_hTop s" "m_tSize t = m_tSize s" "m_hBottom t = m_hBottom s"
        by (simp_all add: t_def clear_bin_bit_map_def)
      have "MINSIZE \<le> get_min_chunk_size t" using min same_restD(12) [OF t(2)] by simp
      from scan_malloc_ok [OF t(1) this sz] 1(2) tb(1) obtain h s' where scan: "scan_malloc sz t = Some (h, s')"
        and res: "h = 0 \<and> s' = t \<and> m_tSize t \<le> m_hTop t + sz + MINSIZE \<and> no_fit t cs sz
          \<or> (\<exists>x z. h = x + 8 \<and> sz \<le> z \<and> grants t cs s' x z)" by auto
      have "inter_malloc req s = Some (h, s')"
        using False small 1(1) scan by (simp add: inter_malloc_def INVALID_HANDLE_def flip: sz_def t_def)
      moreover have "no_fit s cs sz" if "no_fit t cs sz" using that tb by (simp add: no_fit_def)
      then have "h = 0 \<and> s' = t \<and> m_tSize s \<le> m_hTop s + sz + MINSIZE \<and> no_fit s cs sz
          \<or> (\<exists>x z. h = x + 8 \<and> sz \<le> z \<and> grants s cs s' x z)"
        using res grants_start [OF _ t(2,3)] unfolding tb by blast
      ultimately show ?thesis using False t unfolding sz_def by (intro exI [of _ h] exI [of _ s']) auto
    next
      case 2
      then show ?thesis using False small grants_handle(1) [OF 2(3)] sz_def
        by (intro exI [of _ "h + 8"] exI [of _ s']) (auto simp: inter_malloc_def Let_def INVALID_HANDLE_def)
    qed
  next
    case large: False
    define i where "i = bin_index sz"
    obtain xs where xs: "bin_list (pt_cells s) (m_ptBin s i) xs"
      "\<And>x. x \<in> set xs \<longleftrightarrow> (\<exists>sz. (x, sz) \<in> set (frees (m_hBottom s) cs) \<and> bin_index sz = i)"
      using bin_listed [OF s, of i] bin_index_less by (auto simp: i_def)
    show ?thesis
    proof (cases "large_search (pt_cells s) sz (m_hNextChunk (m_ptBin s i)) 99")
      case None
      obtain h s' where scan: "scan_malloc sz s = Some (h, s')"
        and res: "h = 0 \<and> s' = s \<and> m_tSize s \<le> m_hTop s + sz + MINSIZE \<and> no_fit s cs sz
          \<or> (\<exists>x z. h = x + 8 \<and> sz \<le> z \<and> grants s cs s' x z)"
        using scan_malloc_ok [OF s min sz] large by auto
      have "inter_malloc req s = Some (h, s')"
        using False large None scan by (simp add: inter_malloc_def i_def flip: sz_def)
      then show ?thesis using False res s unfolding sz_def by (intro exI [of _ h] exI [of _ s']) auto
    next
      case (Some h)
      have h: "h \<in> set xs" "sz \<le> CHUNK_SIZE (pt_cells s) h"
        using large_search_sound [of "pt_cells s" 0 xs sz 99 h] xs(1) Some by (simp_all add: bin_list_def)
      obtain S where S: "(h, S) \<in> set (frees (m_hBottom s) cs)" "bin_index S = i" using h(1) xs(2) by blast
      have "sz \<le> S" using h(2) frees_size(1) [OF s S(1)] by simp
      then obtain z where z: "sz \<le> z" "grants s cs (carve i h sz s) h z"
        using carve_ok [OF s S(1) _ sz(1,2) min] S(2) by auto
      have "inter_malloc req s = Some (h + 8, carve i h sz s)"
        using Some large False grants_handle(1) [OF z(2)]
        by (simp add: inter_malloc_def INVALID_HANDLE_def i_def Let_def flip: sz_def)
      then show ?thesis using z False by (intro exI [of _ "h + 8"] exI [of _ "carve i h sz s"]) (auto simp: sz_def)
    qed
  qed
qed

end
