(* ===== verification/PtMalloc_Correct.thy ===== *)
theory PtMalloc_Correct
  imports PtMalloc_Alloc
begin

text \<open>
  \<open>PtMalloc\<close> as its clients see it: the set of blocks that are allocated, with their sizes.
  \<open>Malloc\<close> adds a fresh block or fails, \<open>Free\<close> removes one, and neither touches the data of
  the other blocks; the counters in the header agree with the set. The contract
  \<open>malloc_contract\<close> of the allocator interface is interpreted on these operations.
\<close>

section \<open>The invariant with the counters\<close>

definition accounts :: "PtMalloc \<Rightarrow> (handle \<times> nat) set \<Rightarrow> bool" where
  "accounts s U \<longleftrightarrow>
     m_tUserAllocSize s = m_hBottom s + sum snd U \<and> m_tUserAllocChunkCnt s = card U
     \<and> statChunkTotal s = int (card U) \<and> statDataSize s = m_tUserAllocSize s"

text \<open>
  The smallest rest that is split off is configured, or (value 1) the average size of the
  chunks, which is kept in 32 bits.
\<close>

definition min_ok :: "PtMalloc \<Rightarrow> bool" where
  "min_ok s \<longleftrightarrow> MINSIZE \<le> minChunkSize s \<or> minChunkSize s = 1 \<and> m_tSize s < 2 ^ 32"

text \<open>The fast bins and the unsorted bin stay empty.\<close>

definition no_fast :: "PtMalloc \<Rightarrow> bool" where
  "no_fast s \<longleftrightarrow> m_ptFastBin s = (\<lambda>_. \<lparr>m_hPreChunk = 0, m_hNextChunk = 0\<rparr>)
     \<and> m_ptUnsortedBin s = \<lparr>m_hPreChunk = 0, m_hNextChunk = 0\<rparr>"

definition pt_inv :: "PtMalloc \<Rightarrow> chunk list \<Rightarrow> bool" where
  "pt_inv s cs \<longleftrightarrow> heap s cs \<and> accounts s (set (uses (m_hBottom s) cs)) \<and> min_ok s \<and> no_fast s"

lemma chunks_sum:
  "sizes_ok cs \<Longrightarrow> sum snd (set (chunks P a cs)) \<le> csum cs \<and> MINSIZE * card (set (chunks P a cs)) \<le> sum snd (set (chunks P a cs))"
proof (induction cs arbitrary: a)
  case (Cons y cs)
  obtain sz u where y: "y = (sz, u)" by (cases y)
  have "(a, sz) \<notin> set (chunks P (a + sz) cs)"
    using chunks_bounds [of cs a sz P "a + sz"] Cons.prems by (auto simp: y MINSIZE_def)
  then show ?case using Cons.IH [of "a + sz"] Cons.prems by (cases "P u") (auto simp: y)
qed simp

lemma get_min_chunk_size_ok:
  assumes "pt_inv s cs"
  shows "MINSIZE \<le> get_min_chunk_size s"
proof (cases "minChunkSize s = 1 \<and> card (set (uses (m_hBottom s) cs)) \<noteq> 0")
  case True
  define U where "U = set (uses (m_hBottom s) cs)"
  have inv: "heap s cs" "accounts s U" "m_tSize s < 2 ^ 32"
    using assms True by (auto simp: pt_inv_def min_ok_def U_def MINSIZE_def)
  have U: "sum snd U \<le> csum cs" "MINSIZE * card U \<le> sum snd U"
    using chunks_sum [OF heapD(3) [OF inv(1)]] by (simp_all add: U_def)
  have data: "statDataSize s = m_hBottom s + sum snd U" "statChunkTotal s = int (card U)" using inv(2) by (simp_all add: accounts_def)
  have "statDataSize s < 2 ^ 32"
    using heapD(1) [OF inv(1)] U(1) inv(3) data(1) by (simp add: heap_shape_def)
  then have "statDataSize s div card U < 2 ^ 32" by (meson div_le_dividend le_less_trans)
  moreover have "0 < card U" using True by (simp add: U_def del: card_0_eq)
  then have "MINSIZE \<le> statDataSize s div card U"
    using U(2) by (simp add: less_eq_div_iff_mult_less_eq data(1))
  ultimately show ?thesis using True data(2) by (simp add: get_min_chunk_size_def U_def u32_def)
next
  case False
  then show ?thesis using assms by (auto simp: pt_inv_def min_ok_def get_min_chunk_size_def accounts_def)
qed

lemma uses_finite [simp]: "finite (set (uses a cs))"
  by simp

lemma heap_accounts [simp]:
  "heap (s\<lparr>m_tUserAllocSize := a, m_tUserAllocChunkCnt := b, statChunkTotal := c, statDataSize := d\<rparr>) cs = heap s cs"
  by (auto simp: heap_def heap_shape_def bins_hold_def)

text \<open>The block of a chunk: its handle and the number of bytes its user has.\<close>

definition block_of :: "handle \<times> nat \<Rightarrow> handle \<times> nat" where
  "block_of c = (fst c + 8, snd c - 4)"

definition pt_state :: "PtMalloc \<Rightarrow> (handle \<times> nat) set \<Rightarrow> bool" where
  "pt_state s L \<longleftrightarrow> (\<exists>cs. pt_inv s cs \<and> L = block_of ` set (uses (m_hBottom s) cs))"

definition same_data :: "PtMalloc \<Rightarrow> PtMalloc \<Rightarrow> (handle \<times> nat) set \<Rightarrow> bool" where
  "same_data s s' L \<longleftrightarrow> (\<forall>h n a. (h, n) \<in> L \<longrightarrow> h \<le> a \<longrightarrow> a < h + n \<longrightarrow> pt_cells s' a = pt_cells s a)"

lemma block_of_inj:
  assumes "sizes_ok cs" "U \<subseteq> set (chunks P a cs)"
  shows "inj_on block_of U"
proof (rule inj_onI)
  fix x y assume x: "x \<in> U" "y \<in> U" "block_of x = block_of y"
  have "MINSIZE \<le> snd x" "MINSIZE \<le> snd y"
    using chunks_bounds [OF assms(1), of "fst x" "snd x" P a] chunks_bounds [OF assms(1), of "fst y" "snd y" P a] x assms(2)
    by auto
  then show "x = y" using x(3) by (auto simp: block_of_def MINSIZE_def prod_eq_iff)
qed

lemma keeps_same_data:
  assumes "keeps s s' U" "sizes_ok cs" "U \<subseteq> set (chunks P a cs)"
  shows "same_data s s' (block_of ` U)"
  unfolding same_data_def
proof (intro allI impI)
  fix h n b assume "(h, n) \<in> block_of ` U" and hb: "h \<le> b" "b < h + n"
  then obtain x sz where u: "(x, sz) \<in> U" and b: "x + 8 \<le> b" "b < x + 8 + (sz - 4)" by (auto simp: block_of_def)
  have "MINSIZE \<le> sz" using chunks_bounds [OF assms(2), of x sz P a] u assms(3) by auto
  then have "b \<in> user_cells x sz" using b by (simp add: user_cells_def MINSIZE_def)
  then show "pt_cells s' b = pt_cells s b" using assms(1) u unfolding keeps_def by blast
qed

section \<open>Freeing and allocating\<close>

lemma accounts_bound:
  assumes "heap s cs"
  shows "m_hBottom s + sum snd (set (uses (m_hBottom s) cs)) < 2 ^ 64" "card (set (uses (m_hBottom s) cs)) < 2 ^ 64"
proof -
  let ?U = "set (uses (m_hBottom s) cs)"
  have "sum snd ?U \<le> csum cs" "MINSIZE * card ?U \<le> sum snd ?U"
    using chunks_sum [OF heapD(3) [OF assms]] by simp_all
  moreover have "m_hBottom s + csum cs < 2 ^ 64" using heapD(1) [OF assms] by (simp add: heap_shape_def)
  ultimately show "m_hBottom s + sum snd ?U < 2 ^ 64" "card ?U < 2 ^ 64" by (auto simp: MINSIZE_def)
qed

lemma wrap_sub [simp]:
  "b \<le> a \<Longrightarrow> a < 2 ^ 64 \<Longrightarrow> nat ((int a - int b) mod 2 ^ 64) = a - b"
  by (simp flip: of_nat_diff)

lemma Free_inv:
  assumes s: "pt_inv s cs" and x: "(x, sz) \<in> set (uses (m_hBottom s) cs)"
  shows "\<exists>s' cs'. Free (x + 8) s = (0, s') \<and> pt_inv s' cs' \<and> m_hBottom s' = m_hBottom s \<and> m_tSize s' = m_tSize s
    \<and> set (uses (m_hBottom s) cs') = set (uses (m_hBottom s) cs) - {(x, sz)}
    \<and> keeps s s' (set (uses (m_hBottom s) cs) - {(x, sz)})"
proof -
  let ?U = "set (uses (m_hBottom s) cs)"
  have heap: "heap s cs" and acc: "accounts s ?U" and mn: "min_ok s" "no_fast s" using s by (simp_all add: pt_inv_def)
  obtain t cs' where t: "inter_free (x + 8) s = (0, sz, t)" "heap t cs'" "same_rest s t"
    "set (uses (m_hBottom s) cs') = ?U - {(x, sz)}" "keeps s t (?U - {(x, sz)})"
    using inter_free_ok [OF heap x] by blast
  note r = same_restD [OF t(3)]
  define V where "V = ?U - {(x, sz)}"
  have U: "?U = insert (x, sz) V" "(x, sz) \<notin> V" "finite V" using x by (auto simp: V_def)
  have sum: "sum snd ?U = sum snd V + sz" "card ?U = card V + 1" unfolding U(1) using U(2,3) by simp_all
  have tot: "m_tUserAllocSize t = m_hBottom s + sum snd V + sz" "m_tUserAllocChunkCnt t = card V + 1"
    "statChunkTotal t = int (card V + 1)"
    using acc sum r by (simp_all add: accounts_def)
  have bd: "m_hBottom s + sum snd V + sz < 2 ^ 64" "card V + 1 < 2 ^ 64"
    using accounts_bound [OF heap] sum by simp_all
  define s' where "s' = t\<lparr>m_tUserAllocSize := m_hBottom s + sum snd V, m_tUserAllocChunkCnt := card V,
      statChunkTotal := int (card V), statDataSize := m_hBottom s + sum snd V\<rparr>"
  have s': "Free (x + 8) s = (0, s')"
    using wrap_sub [of sz "m_hBottom s + sum snd V + sz"] wrap_sub [of 1 "card V + 1"] bd
    by (simp add: Free_def t(1) tot s'_def)
  have "pt_inv s' cs'" using t(2,4) r mn by (simp add: pt_inv_def accounts_def min_ok_def no_fast_def s'_def V_def)
  moreover have "keeps s s' (?U - {(x, sz)})" using t(5) by (simp add: keeps_def s'_def)
  moreover have "m_hBottom s' = m_hBottom s" "m_tSize s' = m_tSize s" using r by (simp_all add: s'_def)
  ultimately show ?thesis using s' t(4) by blast
qed

lemma add_alloc_size_same [simp]:
  "pt_cells (add_alloc_size_to_stat n s) = pt_cells s" "m_hBottom (add_alloc_size_to_stat n s) = m_hBottom s"
  "m_tSize (add_alloc_size_to_stat n s) = m_tSize s" "min_ok (add_alloc_size_to_stat n s) = min_ok s"
  "no_fast (add_alloc_size_to_stat n s) = no_fast s" "accounts (add_alloc_size_to_stat n s) U = accounts s U" "heap (add_alloc_size_to_stat n s) cs = heap s cs"
  by (auto simp: add_alloc_size_to_stat_def Let_def min_ok_def no_fast_def accounts_def heap_def heap_shape_def bins_hold_def)

lemma Malloc_inv:
  assumes s: "pt_inv s cs"
  shows "\<exists>h s'. Malloc req s = Some (h, s') \<and> m_hBottom s' = m_hBottom s \<and> m_tSize s' = m_tSize s
    \<and> (h = 0 \<and> pt_inv s' cs \<and> pt_cells s' = pt_cells s
         \<and> (REQUEST_OUT_OF_RANGE req
            \<or> m_tSize s \<le> m_hTop s + request2size req + MINSIZE \<and> no_fit s cs (request2size req))
       \<or> \<not> REQUEST_OUT_OF_RANGE req \<and> (\<exists>x z cs'. h = x + 8 \<and> request2size req \<le> z \<and> pt_inv s' cs'
            \<and> set (uses (m_hBottom s) cs') = insert (x, z) (set (uses (m_hBottom s) cs))
            \<and> (\<forall>y. (x, y) \<notin> set (uses (m_hBottom s) cs)) \<and> keeps s s' (set (uses (m_hBottom s) cs))))"
proof -
  let ?U = "set (uses (m_hBottom s) cs)"
  define s0 where "s0 = s\<lparr>m_tLastFreeChunkSize := 0\<rparr>"
  have heap: "heap s0 cs" and acc: "accounts s ?U" and mn: "min_ok s" "no_fast s"
    using s by (simp_all add: pt_inv_def s0_def)
  have min: "MINSIZE \<le> get_min_chunk_size s0"
  proof -
    have "get_min_chunk_size s0 = get_min_chunk_size s" by (simp add: s0_def get_min_chunk_size_def)
    then show ?thesis using get_min_chunk_size_ok [OF s] by simp
  qed
  have b0: "m_hBottom s0 = m_hBottom s" "m_tSize s0 = m_tSize s" "m_hTop s0 = m_hTop s" "pt_cells s0 = pt_cells s"
    "no_fit s0 cs z = no_fit s cs z" for z
    by (simp_all add: s0_def no_fit_def)
  obtain h t where t: "inter_malloc req s0 = Some (h, t)"
    and res: "h = 0 \<and> heap t cs \<and> same_rest s0 t \<and> pt_cells t = pt_cells s0
         \<and> (REQUEST_OUT_OF_RANGE req \<or> m_tSize s0 \<le> m_hTop s0 + request2size req + MINSIZE \<and> no_fit s0 cs (request2size req))
       \<or> \<not> REQUEST_OUT_OF_RANGE req \<and> (\<exists>x z. h = x + 8 \<and> request2size req \<le> z \<and> grants s0 cs t x z)"
    using inter_malloc_ok [OF heap min, of req] by blast
  consider (fail) "h = 0" "heap t cs" "same_rest s0 t" "pt_cells t = pt_cells s0"
      "REQUEST_OUT_OF_RANGE req \<or> m_tSize s0 \<le> m_hTop s0 + request2size req + MINSIZE \<and> no_fit s0 cs (request2size req)"
    | (ok) x z where "\<not> REQUEST_OUT_OF_RANGE req" "h = x + 8" "request2size req \<le> z" "grants s0 cs t x z"
    using res by blast
  then show ?thesis
  proof cases
    case fail
    note why = fail(5)
    note r = same_restD [OF fail(3)]
    have "Malloc req s = Some (0, t)" using t fail(1) by (simp add: Malloc_def INVALID_HANDLE_def flip: s0_def)
    moreover have "pt_inv t cs" using fail(2) acc mn r b0 by (simp add: pt_inv_def accounts_def min_ok_def no_fast_def s0_def)
    ultimately show ?thesis using why fail(4) r b0 by auto
  next
    case ok
    then obtain cs' where g: "heap t cs'" "set (uses (m_hBottom s) cs') = insert (x, z) ?U" "\<And>y. (x, y) \<notin> ?U"
      "same_rest s0 t" "keeps s t ?U"
      unfolding grants_def b0 keeps_def by auto
    note r = same_restD [OF g(4)]
    have bd: "m_hBottom s + sum snd (insert (x, z) ?U) < 2 ^ 64" "card (insert (x, z) ?U) < 2 ^ 64"
      using accounts_bound [OF g(1)] r(1) by (simp_all add: b0 g(2))
    have sum: "sum snd (insert (x, z) ?U) = z + sum snd ?U" "card (insert (x, z) ?U) = Suc (card ?U)"
      using g(3) by simp_all
    have ch: "CHUNK_SIZE (pt_cells t) x = z" using grants_handle(2) [OF ok(4)] .
    have tot: "m_tUserAllocSize t = m_hBottom s + sum snd ?U" "m_tUserAllocChunkCnt t = card ?U" "statChunkTotal t = int (card ?U)"
      using acc r by (simp_all add: accounts_def s0_def)
    define t' where "t' = t\<lparr>m_tUserAllocSize := m_hBottom s + sum snd (insert (x, z) ?U),
        m_tUserAllocChunkCnt := card (insert (x, z) ?U), statChunkTotal := int (card (insert (x, z) ?U)),
        statDataSize := m_hBottom s + sum snd (insert (x, z) ?U)\<rparr>"
    define s' where "s' = add_alloc_size_to_stat req t'"
    have s': "Malloc req s = Some (h, s')"
      using t ok(2) bd unfolding Malloc_def s0_def [symmetric] s'_def t'_def sum
      by (simp add: INVALID_HANDLE_def ch tot u64_def add_ac)
    have st: "pt_cells s' = pt_cells t" "m_hBottom s' = m_hBottom s" "m_tSize s' = m_tSize s" "min_ok s' = min_ok s" "no_fast s' = no_fast s"
      "heap s' cs'" "accounts s' (insert (x, z) ?U)"
    proof -
      have "min_ok t' = min_ok s" "no_fast t' = no_fast s" "accounts t' (insert (x, z) ?U)" "heap t' cs'" "pt_cells t' = pt_cells t"
        "m_hBottom t' = m_hBottom s" "m_tSize t' = m_tSize s"
        using r g(1) by (simp_all add: t'_def accounts_def min_ok_def no_fast_def s0_def)
      then show "pt_cells s' = pt_cells t" "m_hBottom s' = m_hBottom s" "m_tSize s' = m_tSize s" "min_ok s' = min_ok s" "no_fast s' = no_fast s"
        "heap s' cs'" "accounts s' (insert (x, z) ?U)"
        by (simp_all add: s'_def)
    qed
    have "pt_inv s' cs'" using st mn g(2) by (simp add: pt_inv_def)
    moreover have "keeps s s' ?U" using g(5) st(1) by (simp add: keeps_def)
    ultimately show ?thesis using ok(1-3) s' st(2,3) g(2,3) by auto
  qed
qed

section \<open>The allocated blocks\<close>

lemma pt_stateE:
  assumes "pt_state s L"
  obtains cs where "pt_inv s cs" "L = block_of ` set (uses (m_hBottom s) cs)" "sizes_ok cs" "heap_shape s cs"
  using assms heapD(1,3) unfolding pt_state_def pt_inv_def by blast

lemma state_block:
  assumes "pt_inv s cs" "(h, n) \<in> block_of ` set (uses (m_hBottom s) cs)"
  obtains x sz where "(x, sz) \<in> set (uses (m_hBottom s) cs)" "h = x + 8" "sz = n + 4" "MINSIZE \<le> sz"
proof -
  obtain x sz where x: "(x, sz) \<in> set (uses (m_hBottom s) cs)" "h = x + 8" "n = sz - 4"
    using assms(2) by (auto simp: block_of_def)
  have "MINSIZE \<le> sz" using chunks_bounds [OF heapD(3) [of s] x(1)] assms(1) by (simp add: pt_inv_def)
  then show ?thesis using that [OF x(1,2)] x(3) by (simp add: MINSIZE_def)
qed

lemma state_blocks:
  assumes "pt_state s L"
  shows "finite L" "(h, n) \<in> L \<Longrightarrow> 8 dvd h \<and> m_hBottom s < h \<and> 20 \<le> n \<and> h + n \<le> m_hTop s + 4"
    "(h, n) \<in> L \<Longrightarrow> (h', n') \<in> L \<Longrightarrow> h = h' \<and> n = n' \<or> h + n \<le> h' \<or> h' + n' \<le> h"
    "m_tUserAllocSize s = m_hBottom s + (\<Sum>(h, n)\<in>L. n + 4)" "m_tUserAllocChunkCnt s = card L"
proof -
  obtain cs where cs: "pt_inv s cs" "L = block_of ` set (uses (m_hBottom s) cs)" "sizes_ok cs" "heap_shape s cs"
    using assms by (rule pt_stateE)
  let ?U = "set (uses (m_hBottom s) cs)"
  show "finite L" by (simp add: cs(2))
  show "8 dvd h \<and> m_hBottom s < h \<and> 20 \<le> n \<and> h + n \<le> m_hTop s + 4" if "(h, n) \<in> L"
  proof -
    obtain x sz where x: "(x, sz) \<in> ?U" "h = x + 8" "sz = n + 4" "MINSIZE \<le> sz"
      using state_block [OF cs(1)] \<open>(h, n) \<in> L\<close> cs(2) by metis
    obtain cs1 cs2 where s: "cs = cs1 @ (sz, Used) # cs2" "x = m_hBottom s + csum cs1" using chunks_split [OF x(1)] by auto
    show ?thesis using heap_header [OF cs(4) [unfolded s(1)] s(2)] x s(2) by (auto simp: MINSIZE_def)
  qed
  show "h = h' \<and> n = n' \<or> h + n \<le> h' \<or> h' + n' \<le> h" if "(h, n) \<in> L" "(h', n') \<in> L"
  proof -
    obtain x sz where x: "(x, sz) \<in> ?U" "h = x + 8" "sz = n + 4"
      using state_block [OF cs(1)] \<open>(h, n) \<in> L\<close> cs(2) by metis
    obtain x' sz' where x': "(x', sz') \<in> ?U" "h' = x' + 8" "sz' = n' + 4"
      using state_block [OF cs(1)] \<open>(h', n') \<in> L\<close> cs(2) by metis
    show ?thesis using chunks_apart [OF cs(3) x(1) x'(1)] x x' by auto
  qed
  have inj: "inj_on block_of ?U" by (rule block_of_inj [OF cs(3) order_refl])
  have acc: "accounts s ?U" using cs(1) by (simp add: pt_inv_def)
  have "sum (\<lambda>(h, n). n + 4) L = sum snd ?U"
    unfolding cs(2) sum.reindex [OF inj]
  proof (rule sum.cong [OF refl])
    fix c assume "c \<in> ?U"
    then have "MINSIZE \<le> snd c" using chunks_bounds [OF cs(3), of "fst c" "snd c" "\<lambda>u. u = Used" "m_hBottom s"] by simp
    then show "((\<lambda>(h, n). n + 4) \<circ> block_of) c = snd c" by (simp add: block_of_def MINSIZE_def)
  qed
  then show "m_tUserAllocSize s = m_hBottom s + (\<Sum>(h, n)\<in>L. n + 4)" using acc by (simp add: accounts_def)
  show "m_tUserAllocChunkCnt s = card L" using acc card_image [OF inj] by (simp add: accounts_def cs(2))
qed

lemma state_Malloc:
  assumes "pt_state s L"
  shows "\<exists>h s'. Malloc req s = Some (h, s') \<and>
    (h = 0 \<and> pt_state s' L \<and> pt_cells s' = pt_cells s
     \<or> 0 < h \<and> h \<notin> fst ` L \<and> same_data s s' L \<and> (\<exists>n\<ge>req. pt_state s' (insert (h, n) L)))"
proof -
  obtain cs where cs: "pt_inv s cs" "L = block_of ` set (uses (m_hBottom s) cs)" "sizes_ok cs"
    using assms by (rule pt_stateE)
  let ?U = "set (uses (m_hBottom s) cs)"
  obtain h s' where m: "Malloc req s = Some (h, s')" "m_hBottom s' = m_hBottom s"
    and res: "h = 0 \<and> pt_inv s' cs \<and> pt_cells s' = pt_cells s \<or> \<not> REQUEST_OUT_OF_RANGE req \<and>
      (\<exists>x z cs'. h = x + 8 \<and> request2size req \<le> z \<and> pt_inv s' cs' \<and> set (uses (m_hBottom s) cs') = insert (x, z) ?U
        \<and> (\<forall>y. (x, y) \<notin> ?U) \<and> keeps s s' ?U)"
    using Malloc_inv [OF cs(1), of req] by blast
  from res show ?thesis
  proof
    assume "h = 0 \<and> pt_inv s' cs \<and> pt_cells s' = pt_cells s"
    then have "pt_state s' L" using cs(2) m(2) unfolding pt_state_def by auto
    then show ?thesis using m(1) \<open>h = 0 \<and> _\<close> by blast
  next
    assume "\<not> REQUEST_OUT_OF_RANGE req \<and> (\<exists>x z cs'. h = x + 8 \<and> request2size req \<le> z \<and> pt_inv s' cs'
        \<and> set (uses (m_hBottom s) cs') = insert (x, z) ?U \<and> (\<forall>y. (x, y) \<notin> ?U) \<and> keeps s s' ?U)"
    then obtain x z cs' where x: "\<not> REQUEST_OUT_OF_RANGE req" "h = x + 8" "request2size req \<le> z" "pt_inv s' cs'"
      "set (uses (m_hBottom s) cs') = insert (x, z) ?U" "\<And>y. (x, y) \<notin> ?U" "keeps s s' ?U" by blast
    have "pt_state s' (insert (h, z - 4) L)"
      unfolding pt_state_def using x(2,4,5) cs(2) m(2) by (intro exI [of _ cs']) (simp add: block_of_def)
    moreover have "req \<le> z - 4" using request2size_props(3) [OF x(1)] x(3) by (simp add: SIZE_SZ_def)
    moreover have "h \<notin> fst ` L" using x(2,6) cs(2) by (auto simp: block_of_def)
    moreover have "same_data s s' L" unfolding cs(2) by (rule keeps_same_data [OF x(7) cs(3) order_refl])
    ultimately show ?thesis using m(1) x(2) by (intro exI [of _ h] exI [of _ s']) auto
  qed
qed

lemma state_Free:
  assumes "pt_state s L" "(h, n) \<in> L"
  shows "\<exists>s'. Free h s = (0, s') \<and> pt_state s' (L - {(h, n)}) \<and> same_data s s' (L - {(h, n)})"
proof -
  obtain cs where cs: "pt_inv s cs" "L = block_of ` set (uses (m_hBottom s) cs)" "sizes_ok cs"
    using assms(1) by (rule pt_stateE)
  let ?U = "set (uses (m_hBottom s) cs)"
  obtain x sz where x: "(x, sz) \<in> ?U" "h = x + 8" "sz = n + 4"
    using state_block [OF cs(1)] assms(2) cs(2) by metis
  obtain s' cs' where f: "Free (x + 8) s = (0, s')" "pt_inv s' cs'" "m_hBottom s' = m_hBottom s"
    "set (uses (m_hBottom s) cs') = ?U - {(x, sz)}" "keeps s s' (?U - {(x, sz)})"
    using Free_inv [OF cs(1) x(1)] by blast
  have L: "block_of ` (?U - {(x, sz)}) = L - {(h, n)}"
    using inj_on_image_set_diff [OF block_of_inj [OF cs(3) order_refl [of ?U]], of ?U "{(x, sz)}"] x cs(2)
    by (simp add: block_of_def)
  have "pt_state s' (L - {(h, n)})" unfolding pt_state_def using f(2-4) L by (intro exI [of _ cs']) simp
  moreover have "same_data s s' (L - {(h, n)})"
    unfolding L [symmetric] by (rule keeps_same_data [OF f(5) cs(3)]) blast
  ultimately show ?thesis using f(1) x(2) by simp
qed

section \<open>Initialisation, writes by the users, sizes\<close>

text \<open>The constructor: no segment yet, the counters of the process at zero.\<close>

definition PtMalloc_new :: "cells \<Rightarrow> PtMalloc" where
  "PtMalloc_new c =
     \<lparr>pt_cells = c, m_auiSign = [], m_ushVer = 0, m_tSize = 0, m_tUserAllocSize = 0,
      m_tUserAllocChunkCnt = 0, m_uiFlags = 0, m_hBottom = 0, m_hReserveZone = 0, m_hTop = 0,
      m_tLastFreeChunkSize = 0, m_auiBinBitMap = (\<lambda>_. 0), m_shmIntegrity = 0,
      m_ptBin = (\<lambda>_. \<lparr>m_hPreChunk = 0, m_hNextChunk = 0\<rparr>),
      m_ptFastBin = (\<lambda>_. \<lparr>m_hPreChunk = 0, m_hNextChunk = 0\<rparr>),
      m_ptUnsortedBin = \<lparr>m_hPreChunk = 0, m_hNextChunk = 0\<rparr>,
      statChunkTotal = 0, statDataSize = 0, statMemoryTop = 0, statTmpDataSizeRecently = 0,
      statTmpDataAllocCountRecently = 0, statAverageDataSizeRecently = 0, minChunkSize = MINSIZE\<rparr>"

lemma do_init_state:
  assumes "8232 \<le> sz" "sz < 2 ^ 64" "MINSIZE \<le> minChunkSize s \<or> minChunkSize s = 1 \<and> sz < 2 ^ 32"
  shows "\<exists>s'. do_init sz s = (0, s') \<and> pt_state s' {} \<and> m_hBottom s' = 8208 \<and> m_hReserveZone s' = 4112"
proof -
  define s' where "s' = snd (do_init sz s)"
  have sizes: "sizeof_MemHead + BINS_SIZE + DTC_RESERVE_SIZE + MINSIZE = 8232" "align8 (sizeof_MemHead + BINS_SIZE) = 4112"
    "align8 (4112 + DTC_RESERVE_SIZE) = 8208"
    by (simp_all add: sizeof_MemHead_def BINS_SIZE_def DTC_RESERVE_SIZE_def MINSIZE_def sizeof_CBin_def NBINS_def NFASTBINS_def
        align8_def MALLOC_ALIGN_MASK_def)
  have init: "do_init sz s = (0, s')" and f: "m_hBottom s' = 8208" "m_hTop s' = 8208" "m_tSize s' = sz" "m_tUserAllocSize s' = 8208"
    "m_tUserAllocChunkCnt s' = 0" "statChunkTotal s' = 0" "statDataSize s' = 8208" "minChunkSize s' = minChunkSize s"
    "m_hReserveZone s' = 4112" "m_ptBin s' = (\<lambda>_. \<lparr>m_hPreChunk = 0, m_hNextChunk = 0\<rparr>)"
    "m_ptFastBin s' = (\<lambda>_. \<lparr>m_hPreChunk = 0, m_hNextChunk = 0\<rparr>)" "m_ptUnsortedBin s' = \<lparr>m_hPreChunk = 0, m_hNextChunk = 0\<rparr>"
    "pt_cells s' 8212 = 1"
    using assms(1) unfolding s'_def do_init_def Let_def sizes
    by (simp_all add: cell_ops INVALID_HANDLE_def PREV_INUSE_def)
  have "heap_shape s' []" using assms f by (simp add: heap_shape_def MINSIZE_def)
  moreover have "bins_hold s' {}"
    by (auto simp: bins_hold_def bin_holds_def bin_of_def f bin_list_def)
  ultimately have "pt_inv s' []" using assms(3) f by (simp add: pt_inv_def heap_def accounts_def min_ok_def no_fast_def)
  then have "pt_state s' {}" unfolding pt_state_def by (intro exI [of _ "[]"]) simp
  then show ?thesis using init f by simp
qed

text \<open>A user may write its block.\<close>

lemma state_write:
  assumes s: "pt_state s L" "(h, n) \<in> L" and c: "\<And>a. \<not> (h \<le> a \<and> a < h + n) \<Longrightarrow> c a = pt_cells s a"
  shows "pt_state (s\<lparr>pt_cells := c\<rparr>) L" "same_data s (s\<lparr>pt_cells := c\<rparr>) (L - {(h, n)})"
proof -
  obtain cs where cs: "pt_inv s cs" "L = block_of ` set (uses (m_hBottom s) cs)" "sizes_ok cs" "heap_shape s cs"
    using s(1) by (rule pt_stateE)
  obtain x sz where x: "(x, sz) \<in> set (uses (m_hBottom s) cs)" "h = x + 8" "sz = n + 4" "MINSIZE \<le> sz"
    using state_block [OF cs(1)] s(2) cs(2) by metis
  obtain cs1 cs2 where split: "cs = cs1 @ (sz, Used) # cs2" "x = m_hBottom s + csum cs1" using chunks_split [OF x(1)] by auto
  note head = heap_header [OF cs(4) [unfolded split(1)] split(2)]
  have ok: "sizes_ok [(sz, Used)]" using cs(3) by (simp add: split(1))
  have "heap_shape (s\<lparr>pt_cells := c\<rparr>) (cs1 @ [(sz, Used)] @ cs2)
    \<and> bins_hold (s\<lparr>pt_cells := c\<rparr>) (set (frees (m_hBottom s) cs1) \<union> set (frees (m_hBottom s + csum cs1 + csum [(sz, Used)]) cs2))
    \<and> keeps s (s\<lparr>pt_cells := c\<rparr>) (set (uses (m_hBottom s) cs1) \<union> set (uses (m_hBottom s + csum cs1 + csum [(sz, Used)]) cs2))"
  proof (rule heap_retile [of s cs1 "[(sz, Used)]" cs2])
    show "heap_shape s (cs1 @ [(sz, Used)] @ cs2)" "last_used True (cs1 @ [(sz, Used)] @ cs2)"
      using cs(4) by (simp_all add: split(1) heap_shape_def)
    show "c a = pt_cells s a" if "a < m_hBottom s + csum cs1 + 4 \<or> m_hBottom s + csum cs1 + csum [(sz, Used)] + 4 < a" for a
      using that x split(2) by (intro c) auto
    have "c (x + 4) = pt_cells s (x + 4)" "c (x + sz + 4) = pt_cells s (x + sz + 4)" using x by (auto intro: c)
    then show "tiles c (m_hBottom s + csum cs1) (last_used True cs1) [(sz, Used)]"
      "c (m_hBottom s + csum cs1 + csum [(sz, Used)] + 4) = head_size cs2 + of_bool (last_used (last_used True cs1) [(sz, Used)])"
      using head(8,9) split(2) by simp_all
  qed (use cs(1) ok in \<open>auto simp: pt_inv_def heap_def split(1)\<close>)
  then have "heap (s\<lparr>pt_cells := c\<rparr>) cs" by (simp add: heap_def split(1))
  then have "pt_inv (s\<lparr>pt_cells := c\<rparr>) cs" using cs(1) by (simp add: pt_inv_def accounts_def min_ok_def no_fast_def)
  then show "pt_state (s\<lparr>pt_cells := c\<rparr>) L" using cs(2) by (auto simp: pt_state_def)
  show "same_data s (s\<lparr>pt_cells := c\<rparr>) (L - {(h, n)})"
    unfolding same_data_def
  proof (intro allI impI)
    fix k m a assume "(k, m) \<in> L - {(h, n)}" "k \<le> a" "a < k + m"
    then show "pt_cells (s\<lparr>pt_cells := c\<rparr>) a = pt_cells s a"
      using state_blocks(3) [OF s(1) s(2), of k m] c [of a] by auto
  qed
qed

lemma state_chunk_size:
  assumes s: "pt_state s L" "(h, n) \<in> L"
  shows "chunk_size h s = n" "n < 2 ^ 32"
proof -
  obtain cs where cs: "pt_inv s cs" "L = block_of ` set (uses (m_hBottom s) cs)" "sizes_ok cs" "heap_shape s cs"
    using s(1) by (rule pt_stateE)
  obtain x sz where x: "(x, sz) \<in> set (uses (m_hBottom s) cs)" "h = x + 8" "sz = n + 4" "MINSIZE \<le> sz"
    using state_block [OF cs(1)] s(2) cs(2) by metis
  obtain cs1 cs2 where split: "cs = cs1 @ (sz, Used) # cs2" "x = m_hBottom s + csum cs1" using chunks_split [OF x(1)] by auto
  note head = heap_header [OF cs(4) [unfolded split(1)] split(2)]
  have "check_inuse_chunk x s = 0" using check_inuse_chunk_ok [OF cs(4) [unfolded split(1)] split(2)] .
  moreover have "h < m_hTop s" "m_hBottom s < h" using head(2,6) x(2) split(2) by (auto simp: MINSIZE_def)
  moreover show "n < 2 ^ 32" using head(3) x(3) by (simp add: MAX_ALLOC_SIZE_def)
  moreover have "chunksize2memsize sz = n" using x(3) \<open>n < 2 ^ 32\<close> by (simp add: chunksize2memsize_def SIZE_SZ_def)
  ultimately show "chunk_size h s = n" using head(11) x(2) by (simp add: chunk_size_def)
qed

section \<open>The contract on PtMalloc\<close>

definition returned :: "PtMalloc \<Rightarrow> (handle \<times> PtMalloc) option \<Rightarrow> PtMalloc \<times> handle" where
  "returned s r = (case r of Some (h, s') \<Rightarrow> (s', h) | None \<Rightarrow> (s, INVALID_HANDLE))"

definition pt_base :: "PtMalloc MallocBase" where
  "pt_base =
     \<lparr>Malloc_op = \<lambda>s req. returned s (Malloc req s), Calloc_op = \<lambda>s req. returned s (Calloc req s),
      ReAlloc_op = \<lambda>s h req. returned s (ReAlloc h req s),
      Free_op = \<lambda>s h. (case Free h s of (r, s') \<Rightarrow> (s', r)), chunk_size_op = \<lambda>s h. chunk_size h s,
      ask_for_destroy_size_op = \<lambda>s h. ask_for_destroy_size h s\<rparr>"

interpretation pt: malloc_contract pt_base pt_state
proof unfold_locales
  fix s s' :: PtMalloc and L h n n' req
  assume s: "pt_state s L"
  show "n = n'" if "(h, n) \<in> L" "(h, n') \<in> L"
    using state_blocks(3) [OF s that] state_blocks(2) [OF s that(1)] state_blocks(2) [OF s that(2)] by auto
  show "h = INVALID_HANDLE \<and> pt_state s' L \<or> h \<noteq> INVALID_HANDLE \<and> h \<notin> fst ` L \<and> (\<exists>n\<ge>req. pt_state s' (insert (h, n) L))"
    if "Malloc_op pt_base s req = (s', h)"
  proof -
    have "Malloc req s = Some (h, s')" using that state_Malloc [OF s, of req] by (fastforce simp: pt_base_def returned_def)
    then have "h = 0 \<and> pt_state s' L \<or> 0 < h \<and> h \<notin> fst ` L \<and> (\<exists>n\<ge>req. pt_state s' (insert (h, n) L))"
      using state_Malloc [OF s, of req] unfolding option.inject prod.inject by force
    then show ?thesis unfolding INVALID_HANDLE_def by (simp add: neq0_conv)
  qed
  show "\<exists>s'. Free_op pt_base s h = (s', 0) \<and> pt_state s' (L - {(h, n)})" if "(h, n) \<in> L"
    using state_Free [OF s that] by (auto simp: pt_base_def)
  show "chunk_size_op pt_base s h = n" if "(h, n) \<in> L"
    using state_chunk_size [OF s that] by (simp add: pt_base_def)
qed

section \<open>Reachable states\<close>

text \<open>
  What the users of the allocator do: allocate, free what they have, write what they have,
  and configure the smallest rest that is split off.
\<close>

inductive pt_reach :: "PtMalloc \<Rightarrow> (handle \<times> nat) set \<Rightarrow> bool" where
  reach_init: "do_init sz (PtMalloc_new c) = (0, s) \<Longrightarrow> sz < 2 ^ 64 \<Longrightarrow> pt_reach s {}"
| reach_malloc: "pt_reach s L \<Longrightarrow> Malloc req s = Some (h, s') \<Longrightarrow> h \<noteq> INVALID_HANDLE \<Longrightarrow>
    pt_reach s' (insert (h, chunk_size h s') L)"
| reach_calloc: "pt_reach s L \<Longrightarrow> Calloc req s = Some (h, s') \<Longrightarrow> h \<noteq> INVALID_HANDLE \<Longrightarrow>
    pt_reach s' (insert (h, chunk_size h s') L)"
| reach_full: "pt_reach s L \<Longrightarrow> Malloc req s = Some (INVALID_HANDLE, s') \<Longrightarrow> pt_reach s' L"
| reach_free: "pt_reach s L \<Longrightarrow> (h, n) \<in> L \<Longrightarrow> Free h s = (r, s') \<Longrightarrow> pt_reach s' (L - {(h, n)})"
| reach_write: "pt_reach s L \<Longrightarrow> (h, n) \<in> L \<Longrightarrow> (\<And>a. \<not> (h \<le> a \<and> a < h + n) \<Longrightarrow> c a = pt_cells s a) \<Longrightarrow>
    pt_reach (s\<lparr>pt_cells := c\<rparr>) L"
| reach_config: "pt_reach s L \<Longrightarrow> sz = 1 \<Longrightarrow> m_tSize s < 2 ^ 32 \<Longrightarrow> pt_reach (set_min_chunk_size sz s) L"
| reach_config_size: "pt_reach s L \<Longrightarrow> sz \<noteq> 1 \<Longrightarrow> pt_reach (set_min_chunk_size sz s) L"

lemma state_min_chunk_size:
  assumes "pt_state s L" "sz = 1 \<Longrightarrow> m_tSize s < 2 ^ 32"
  shows "pt_state (set_min_chunk_size sz s) L"
proof -
  obtain cs where cs: "pt_inv s cs" "L = block_of ` set (uses (m_hBottom s) cs)" using assms(1) by (rule pt_stateE)
  have "heap (set_min_chunk_size sz s) cs = heap s cs"
    by (auto simp: set_min_chunk_size_def heap_def heap_shape_def bins_hold_def)
  then have "pt_inv (set_min_chunk_size sz s) cs"
    using cs(1) assms(2) by (auto simp: pt_inv_def accounts_def min_ok_def no_fast_def set_min_chunk_size_def MINSIZE_def)
  then show ?thesis using cs(2) by (auto simp: pt_state_def set_min_chunk_size_def)
qed

lemma zero_bytes_other: "\<not> (a \<le> x \<and> x < a + n) \<Longrightarrow> zero_bytes a n c x = c x"
  by (auto simp: zero_bytes_def)

lemma state_Calloc:
  assumes s: "pt_state s L"
  shows "\<exists>h s'. Calloc req s = Some (h, s') \<and>
    (h = 0 \<and> pt_state s' L \<and> pt_cells s' = pt_cells s
     \<or> 0 < h \<and> h \<notin> fst ` L \<and> same_data s s' L \<and> (\<forall>a. h \<le> a \<and> a + 4 \<le> h + req \<longrightarrow> pt_cells s' a = 0)
       \<and> (\<exists>n\<ge>req. pt_state s' (insert (h, n) L)))"
proof -
  obtain h t where t: "Malloc req s = Some (h, t)"
    and res: "h = 0 \<and> pt_state t L \<and> pt_cells t = pt_cells s
     \<or> 0 < h \<and> h \<notin> fst ` L \<and> same_data s t L \<and> (\<exists>n\<ge>req. pt_state t (insert (h, n) L))"
    using state_Malloc [OF s, of req] by blast
  from res show ?thesis
  proof
    assume "h = 0 \<and> pt_state t L \<and> pt_cells t = pt_cells s"
    then show ?thesis using t by (intro exI [of _ h] exI [of _ t]) (simp add: Calloc_def INVALID_HANDLE_def)
  next
    assume "0 < h \<and> h \<notin> fst ` L \<and> same_data s t L \<and> (\<exists>n\<ge>req. pt_state t (insert (h, n) L))"
    then obtain n where h: "0 < h" "h \<notin> fst ` L" "same_data s t L" and n: "req \<le> n" "pt_state t (insert (h, n) L)" by blast
    define s' where "s' = t\<lparr>pt_cells := zero_bytes h req (pt_cells t)\<rparr>"
    have out: "zero_bytes h req (pt_cells t) a = pt_cells t a" if "\<not> (h \<le> a \<and> a < h + n)" for a
      using that n(1) by (intro zero_bytes_other) auto
    have "Calloc req s = Some (h, s')" using t h(1) by (simp add: Calloc_def INVALID_HANDLE_def s'_def)
    moreover have "pt_state s' (insert (h, n) L)" unfolding s'_def by (rule state_write(1) [OF n(2) insertI1 out])
    moreover have "pt_cells s' a = 0" if "h \<le> a" "a + 4 \<le> h + req" for a using that by (simp add: s'_def zero_bytes_def)
    moreover have "same_data s s' L"
    proof -
      have "insert (h, n) L - {(h, n)} = L" using h(2) by force
      then have "same_data t s' L" using state_write(2) [OF n(2) insertI1 out] by (simp add: s'_def)
      then show ?thesis using h(3) unfolding same_data_def by metis
    qed
    ultimately show ?thesis using h(1,2) n(1) by blast
  qed
qed

lemma state_total:
  assumes "pt_state s L"
  shows "Malloc req s = Some (h, s') \<Longrightarrow> m_tSize s' = m_tSize s"
    "Calloc req s = Some (h, s') \<Longrightarrow> m_tSize s' = m_tSize s"
    "(h, n) \<in> L \<Longrightarrow> m_tSize (snd (Free h s)) = m_tSize s"
    "(h, n) \<in> L \<Longrightarrow> h \<noteq> 0 \<and> h + n \<le> m_tSize s"
proof -
  obtain cs where cs: "pt_inv s cs" "L = block_of ` set (uses (m_hBottom s) cs)" "heap_shape s cs"
    using assms by (rule pt_stateE)
  obtain h' t where t: "Malloc req s = Some (h', t)" "m_tSize t = m_tSize s" using Malloc_inv [OF cs(1)] by blast
  then show "Malloc req s = Some (h, s') \<Longrightarrow> m_tSize s' = m_tSize s" by simp
  show "Calloc req s = Some (h, s') \<Longrightarrow> m_tSize s' = m_tSize s"
    using t by (cases "h' = INVALID_HANDLE") (auto simp: Calloc_def)
  show "m_tSize (snd (Free h s)) = m_tSize s" if hn: "(h, n) \<in> L"
  proof -
    obtain x sz where x: "(x, sz) \<in> set (uses (m_hBottom s) cs)" "h = x + 8"
      using hn unfolding cs(2) block_of_def by auto
    obtain t' where "Free (x + 8) s = (0, t')" "m_tSize t' = m_tSize s" using Free_inv [OF cs(1) x(1)] by blast
    then show ?thesis by (simp add: x(2))
  qed
  show "h \<noteq> 0 \<and> h + n \<le> m_tSize s" if "(h, n) \<in> L"
  proof -
    have "m_hTop s + MINSIZE \<le> m_tSize s" using cs(3) unfolding heap_shape_def by blast
    then show ?thesis using state_blocks(2) [OF assms that] unfolding MINSIZE_def by linarith
  qed
qed

interpretation pts: segment_contract pt_base pt_state m_tSize
proof unfold_locales
  fix s s' :: PtMalloc and L h n h' n' req
  assume s: "pt_state s L"
  show "h = INVALID_HANDLE \<and> pt_state s' L \<or> h \<noteq> INVALID_HANDLE \<and> h \<notin> fst ` L \<and> (\<exists>n\<ge>req. pt_state s' (insert (h, n) L))"
    if "Calloc_op pt_base s req = (s', h)"
  proof -
    obtain k t where "Calloc req s = Some (k, t)" using state_Calloc [OF s, of req] by blast
    then have "Calloc req s = Some (h, s')" using that by (simp add: pt_base_def returned_def)
    then have "h = 0 \<and> pt_state s' L \<or> 0 < h \<and> h \<notin> fst ` L \<and> (\<exists>n\<ge>req. pt_state s' (insert (h, n) L))"
      using state_Calloc [OF s, of req] unfolding option.inject prod.inject by force
    then show ?thesis unfolding INVALID_HANDLE_def by (simp add: neq0_conv)
  qed
  show "h \<noteq> INVALID_HANDLE \<and> 0 < n \<and> h + n \<le> m_tSize s" if "(h, n) \<in> L"
    using state_total(4) [OF s that] state_blocks(2) [OF s that] by (simp add: INVALID_HANDLE_def)
  show "h + n \<le> h' \<or> h' + n' \<le> h" if "(h, n) \<in> L" "(h', n') \<in> L" "h \<noteq> h'"
    using state_blocks(3) [OF s that(1,2)] that(3) by blast
  obtain k t where t: "Malloc req s = Some (k, t)" using state_Malloc [OF s, of req] by blast
  show "m_tSize (fst (Malloc_op pt_base s req)) = m_tSize s"
    using state_total(1) [OF s t] by (simp add: pt_base_def returned_def t)
  obtain k t where t: "Calloc req s = Some (k, t)" using state_Calloc [OF s, of req] by blast
  show "m_tSize (fst (Calloc_op pt_base s req)) = m_tSize s"
    using state_total(2) [OF s t] by (simp add: pt_base_def returned_def t)
  show "m_tSize (fst (Free_op pt_base s h)) = m_tSize s" if "(h, n) \<in> L"
    using state_total(3) [OF s that] by (cases "Free h s") (simp add: pt_base_def)
qed

lemma reach_state: "pt_reach s L \<Longrightarrow> pt_state s L"
proof (induction rule: pt_reach.induct)
  case (reach_init sz c s)
  have "8232 \<le> sz"
    using reach_init.hyps(1)
    by (simp add: do_init_def sizeof_MemHead_def BINS_SIZE_def DTC_RESERVE_SIZE_def MINSIZE_def sizeof_CBin_def NBINS_def
        NFASTBINS_def Let_def split: if_splits)
  then show ?case using do_init_state [of sz "PtMalloc_new c"] reach_init.hyps by (auto simp: PtMalloc_new_def)
next
  case (reach_malloc s L req h s')
  then obtain n where "pt_state s' (insert (h, n) L)"
    using state_Malloc [OF reach_malloc.IH, of req] by (auto simp: INVALID_HANDLE_def)
  then show ?case using state_chunk_size(1) by fastforce
next
  case (reach_calloc s L req h s')
  then obtain n where "pt_state s' (insert (h, n) L)"
    using state_Calloc [OF reach_calloc.IH, of req] by (auto simp: INVALID_HANDLE_def)
  then show ?case using state_chunk_size(1) by fastforce
next
  case (reach_full s L req s')
  then show ?case using state_Malloc [OF reach_full.IH, of req] by (auto simp: INVALID_HANDLE_def)
next
  case (reach_free s L h n r s')
  then show ?case using state_Free [OF reach_free.IH reach_free.hyps(2)] by auto
next
  case (reach_write s L h n c)
  then show ?case using state_write(1) by blast
next
  case (reach_config s L sz)
  then show ?case using state_min_chunk_size by blast
next
  case (reach_config_size s L sz)
  then show ?case using state_min_chunk_size by blast
qed

section \<open>When an allocation fails\<close>

lemma Malloc_failure:
  assumes s: "pt_state s L" and fail: "Malloc req s = Some (INVALID_HANDLE, s')" and r: "\<not> REQUEST_OUT_OF_RANGE req"
  shows "m_tSize s \<le> m_hTop s + request2size req + MINSIZE"
    "bin_index (request2size req) < j \<Longrightarrow> j < NBINS \<Longrightarrow> empty_bin j s"
    "in_smallbin_range (request2size req) \<Longrightarrow> empty_bin (bin_index (request2size req)) s"
proof -
  obtain cs where cs: "pt_inv s cs" using s by (rule pt_stateE)
  then have heap: "heap s cs" by (simp add: pt_inv_def)
  have res: "m_tSize s \<le> m_hTop s + request2size req + MINSIZE \<and> no_fit s cs (request2size req)"
    using Malloc_inv [OF cs, of req] fail r by (auto simp: INVALID_HANDLE_def)
  then show "m_tSize s \<le> m_hTop s + request2size req + MINSIZE" by simp
  have none: "bin_index z \<le> bin_index (request2size req) \<and> (in_smallbin_range (request2size req) \<longrightarrow> z < request2size req)"
    if "(x, z) \<in> set (frees (m_hBottom s) cs)" for x z
    using res that unfolding no_fit_def by blast
  show "empty_bin j s" if "bin_index (request2size req) < j" "j < NBINS"
    unfolding empty_bin_def INVALID_HANDLE_def empty_bin_iff(1) [OF heap that(2)] using none that(1) by fastforce
  show "empty_bin (bin_index (request2size req)) s" if small: "in_smallbin_range (request2size req)"
    unfolding empty_bin_def INVALID_HANDLE_def empty_bin_iff(1) [OF heap bin_index_less]
  proof (clarify)
    fix x z assume x: "(x, z) \<in> set (frees (m_hBottom s) cs)" "bin_index z = bin_index (request2size req)"
    have "z = request2size req"
      using bin_index_small [OF small request2size_props(2) [OF r] frees_size(2) [OF heap x(1)] x(2)] .
    then show False using none [OF x(1)] small by simp
  qed
qed

section \<open>The walk over the bins\<close>

lemma bin_tail_lseg:
  "lseg c p (x # xs) 0 \<Longrightarrow> 0 \<notin> set xs \<Longrightarrow> bin_tail c x = Some (last (x # xs))"
proof (induction xs arbitrary: p x)
  case Nil
  then show ?case by (subst bin_tail.simps) (simp add: INVALID_HANDLE_def)
next
  case (Cons y ys)
  then have "bin_tail c x = bin_tail c y" by (subst bin_tail.simps) (auto simp: INVALID_HANDLE_def)
  then show ?case using Cons.IH [of x y] Cons.prems by simp
qed

lemma bin_ok_list:
  assumes "bin_list c bin xs" "0 \<notin> set xs"
  shows "bin_ok bin c = Some True"
proof (cases xs)
  case Nil
  then show ?thesis using assms by (simp add: bin_ok_def bin_list_def INVALID_HANDLE_def)
next
  case (Cons x ys)
  then show ?thesis using assms bin_tail_lseg [of c 0 x ys] by (auto simp: bin_ok_def bin_list_def INVALID_HANDLE_def)
qed

lemma check_bins_ok:
  "(\<And>i. i \<in> set is \<Longrightarrow> bin_ok (bins i) c = Some True) \<Longrightarrow> check_bins bins c is = Some True"
  by (induction "is") auto

lemma state_check_bin:
  assumes s: "pt_state s L"
  shows "check_bin s = Some 0"
proof -
  obtain cs where cs: "pt_inv s cs" using s by (rule pt_stateE)
  then have heap: "heap s cs" and fast: "no_fast s" by (simp_all add: pt_inv_def)
  have "bin_ok (m_ptBin s i) (pt_cells s) = Some True" if i: "i < NBINS" for i
  proof -
    obtain xs where xs: "bin_list (pt_cells s) (m_ptBin s i) xs"
      "\<And>x. x \<in> set xs \<Longrightarrow> \<exists>sz. (x, sz) \<in> set (frees (m_hBottom s) cs)"
      using bin_listed [OF heap i] by blast
    have "0 \<notin> set xs" using xs(2) [of 0] frees_size(4) [OF heap, of 0] by blast
    then show ?thesis using bin_ok_list [OF xs(1)] by simp
  qed
  then have bins: "check_bins (m_ptBin s) (pt_cells s) [0..<NBINS] = Some True"
    by (intro check_bins_ok) simp
  have nobin: "bin_ok \<lparr>m_hPreChunk = 0, m_hNextChunk = 0\<rparr> c = Some True" for c
    by (simp add: bin_ok_def INVALID_HANDLE_def)
  then have "check_bins (m_ptFastBin s) (pt_cells s) [0..<NFASTBINS] = Some True"
    using fast by (intro check_bins_ok) (simp add: no_fast_def)
  then show ?thesis using bins nobin fast by (simp add: check_bin_def no_fast_def)
qed

section \<open>An example segment\<close>

definition demo_pt :: PtMalloc where
  "demo_pt = snd (do_init 20000 (PtMalloc_new (\<lambda>_. 0)))"

definition demo_pt1 :: PtMalloc where
  "demo_pt1 = snd (the (Malloc 100 demo_pt))"

lemma demo_pt_state: "pt_state demo_pt {}"
  using do_init_state [of 20000 "PtMalloc_new (\<lambda>_. 0)"] by (auto simp: PtMalloc_new_def demo_pt_def)

lemma demo_pt_reach: "pt_reach demo_pt {}"
proof -
  obtain s where "do_init 20000 (PtMalloc_new (\<lambda>_. 0)) = (0, s)"
    using do_init_state [of 20000 "PtMalloc_new (\<lambda>_. 0)"] by (auto simp: PtMalloc_new_def)
  then show ?thesis using reach_init [of 20000 "\<lambda>_. 0" s] by (simp add: demo_pt_def)
qed

lemmas demo_consts = sizeof_MemHead_def BINS_SIZE_def DTC_RESERVE_SIZE_def MINSIZE_def sizeof_CBin_def NBINS_def
  NFASTBINS_def align8_def MALLOC_ALIGN_MASK_def INVALID_HANDLE_def PREV_INUSE_def MAX_ALLOC_SIZE_def

lemma demo_pt_eq:
  "demo_pt = \<lparr>pt_cells = (\<lambda>_. 0)(8212 := 1), m_auiSign = V4Sign, m_ushVer = 4, m_tSize = 20000, m_tUserAllocSize = 8208,
      m_tUserAllocChunkCnt = 0, m_uiFlags = 0, m_hBottom = 8208, m_hReserveZone = 4112, m_hTop = 8208,
      m_tLastFreeChunkSize = 11768, m_auiBinBitMap = (\<lambda>_. 0), m_shmIntegrity = 0,
      m_ptBin = (\<lambda>_. \<lparr>m_hPreChunk = 0, m_hNextChunk = 0\<rparr>),
      m_ptFastBin = (\<lambda>_. \<lparr>m_hPreChunk = 0, m_hNextChunk = 0\<rparr>),
      m_ptUnsortedBin = \<lparr>m_hPreChunk = 0, m_hNextChunk = 0\<rparr>,
      statChunkTotal = 0, statDataSize = 8208, statMemoryTop = 8208, statTmpDataSizeRecently = 0,
      statTmpDataAllocCountRecently = 0, statAverageDataSizeRecently = 0, minChunkSize = MINSIZE\<rparr>"
  by (simp add: demo_pt_def do_init_def PtMalloc_new_def Let_def demo_consts cell_ops DTC_VER_MIN_def u32_def fun_upd_def fun_eq_iff)

lemma demo_request: "request2size 100 = 104" "\<not> REQUEST_OUT_OF_RANGE 100" "in_smallbin_range 104" "bin_index 104 = 13"
  by (simp_all add: request2size_def REQUEST_OUT_OF_RANGE_def in_smallbin_range_def bin_index_def smallbin_index_def
      MIN_LARGE_SIZE_def demo_consts SIZE_SZ_def u32_def)

lemma skip_words_zero:
  assumes "\<And>i. i < 16 \<Longrightarrow> bitmap_word s i = 0"
  shows "i \<le> 16 \<Longrightarrow> skip_words s i = 16"
proof (induction "16 - i" arbitrary: i)
  case 0
  then show ?case by (subst skip_words.simps) simp
next
  case (Suc n)
  then have "skip_words s (i + 1) = 16" "i < 16" by simp_all
  then show ?case using assms [of i] by (subst skip_words.simps) simp
qed

lemma demo_small: "small_bin_malloc 104 (demo_pt\<lparr>m_tLastFreeChunkSize := 0\<rparr>) = (0, demo_pt\<lparr>m_tLastFreeChunkSize := 0\<rparr>)"
  by (simp add: demo_pt_eq small_bin_malloc_def bin_malloc_def INVALID_HANDLE_def smallbin_index_def Let_def empty_bin_def
      clear_bin_bit_map_def fun_upd_def fun_eq_iff)

lemma demo_scan: "next_bin (demo_pt\<lparr>m_tLastFreeChunkSize := 0\<rparr>) 13 = 512"
proof -
  have "bitmap_word (demo_pt\<lparr>m_tLastFreeChunkSize := 0\<rparr>) i = 0" for i by (simp add: bitmap_word_def demo_pt_eq)
  then have "next_bin (demo_pt\<lparr>m_tLastFreeChunkSize := 0\<rparr>) 13 = skip_bins (demo_pt\<lparr>m_tLastFreeChunkSize := 0\<rparr>) 512"
    by (simp add: next_bin_def skip_words_zero)
  then show ?thesis by (simp add: skip_bins.simps NBINS_def)
qed

lemma demo_inter_malloc: "\<exists>s. inter_malloc 100 (demo_pt\<lparr>m_tLastFreeChunkSize := 0\<rparr>) = Some (8216, s)
   \<and> m_hBottom s = 8208 \<and> m_hTop s = 8312 \<and> pt_cells s 8212 = 105 \<and> pt_cells s 8316 = 1"
  by (simp add: inter_malloc_def demo_request demo_small scan_malloc_def demo_scan NBINS_def INVALID_HANDLE_def)
    (simp add: demo_pt_eq top_alloc_def ptr_to_handle_def Let_def cell_ops demo_consts SIZE_BITS_of_def REAL_SIZE_def u32_def)

lemma demo_malloc: "Malloc 100 demo_pt = Some (8216, demo_pt1)" "chunk_size 8216 demo_pt1 = 100"
  "pt_state demo_pt1 {(8216, 100)}" "pt_reach demo_pt1 {(8216, 100)}"
proof -
  obtain s where s: "inter_malloc 100 (demo_pt\<lparr>m_tLastFreeChunkSize := 0\<rparr>) = Some (8216, s)"
    "m_hBottom s = 8208" "m_hTop s = 8312" "pt_cells s 8212 = 105" "pt_cells s 8316 = 1"
    using demo_inter_malloc by blast
  show m: "Malloc 100 demo_pt = Some (8216, demo_pt1)"
    unfolding demo_pt1_def using s(1) by (simp add: Malloc_def INVALID_HANDLE_def Let_def)
  have top: "m_hTop (add_alloc_size_to_stat n t) = m_hTop t" for n t by (simp add: add_alloc_size_to_stat_def Let_def)
  have "m_hBottom demo_pt1 = 8208" "m_hTop demo_pt1 = 8312" "pt_cells demo_pt1 8212 = 105" "pt_cells demo_pt1 8316 = 1"
    using s by (simp_all add: demo_pt1_def Malloc_def INVALID_HANDLE_def Let_def top)
  then show sz: "chunk_size 8216 demo_pt1 = 100"
    by (simp add: chunk_size_def check_inuse_chunk_def CHUNK_SIZE_def tSize_def REAL_SIZE_def inuse_bit_at_offset_def
        prev_inuse_def AT_TOP_def chunksize2memsize_def SIZE_SZ_def)
  show reach: "pt_reach demo_pt1 {(8216, 100)}"
    using reach_malloc [OF demo_pt_reach m] sz by (simp add: INVALID_HANDLE_def)
  show "pt_state demo_pt1 {(8216, 100)}" by (rule reach_state [OF reach])
qed

end
