(* ===== verification/PtMalloc_Theorems.thy ===== *)
theory PtMalloc_Theorems
  imports PtMalloc_Correct
begin

text \<open>
  The properties of \<open>PtMalloc\<close>. \<open>pt_state s L\<close> says that the memory of the segment is
  consistent and that \<open>L\<close> is the set of allocated blocks, each a handle and the number of
  bytes its user has; \<open>same_data s s' L\<close> says that the bytes of the blocks \<open>L\<close> are the same
  in both states.
\<close>

text \<open>
  C17. On a consistent segment an allocation always returns. It fails, and then the blocks
  and all memory are as before, or it returns a handle that no block has, for a block of at
  least the requested size, and the data of all other blocks is untouched.
\<close>

theorem Malloc_correct:
  assumes "pt_state s L"
  shows "\<exists>h s'. Malloc req s = Some (h, s') \<and>
    (h = INVALID_HANDLE \<and> pt_state s' L \<and> pt_cells s' = pt_cells s
     \<or> h \<noteq> INVALID_HANDLE \<and> h \<notin> fst ` L \<and> same_data s s' L \<and> (\<exists>n\<ge>req. pt_state s' (insert (h, n) L)))"
  using state_Malloc [OF assms, of req] by (auto simp: INVALID_HANDLE_def)

lemma Malloc_correct_witness:
  "\<exists>h s'. Malloc 200 demo_pt1 = Some (h, s') \<and>
    (h = INVALID_HANDLE \<and> pt_state s' {(8216, 100)} \<and> pt_cells s' = pt_cells demo_pt1
     \<or> h \<noteq> INVALID_HANDLE \<and> h \<notin> {8216} \<and> same_data demo_pt1 s' {(8216, 100)}
       \<and> (\<exists>n\<ge>200. pt_state s' {(h, n), (8216, 100)}))"
  using Malloc_correct [OF demo_malloc(3), of 200] by simp

text \<open>
  C18. Freeing an allocated block succeeds, removes exactly that block and leaves the data
  of all other blocks untouched.
\<close>

theorem Free_correct:
  assumes "pt_state s L" "(h, n) \<in> L"
  shows "\<exists>s'. Free h s = (0, s') \<and> pt_state s' (L - {(h, n)}) \<and> same_data s s' (L - {(h, n)})"
  using state_Free [OF assms] .

lemma Free_correct_witness: "\<exists>s'. Free 8216 demo_pt1 = (0, s') \<and> pt_state s' {}"
  using Free_correct [OF demo_malloc(3), of 8216 100] by auto



text \<open>
  C20. An allocation of a size in range fails only when the top has no room for it, no bin
  behind that of its size holds a chunk, and, for a small size, its own bin is empty.
\<close>

theorem Malloc_fails_only_when_full:
  assumes "pt_state s L" "Malloc req s = Some (INVALID_HANDLE, s')" "\<not> REQUEST_OUT_OF_RANGE req"
  shows "m_tSize s \<le> m_hTop s + request2size req + MINSIZE
    \<and> (\<forall>j. bin_index (request2size req) < j \<and> j < NBINS \<longrightarrow> empty_bin j s)
    \<and> (in_smallbin_range (request2size req) \<longrightarrow> empty_bin (bin_index (request2size req)) s)"
  using Malloc_failure [OF assms] by blast

lemma demo_full: "Malloc 12000 demo_pt = Some (INVALID_HANDLE, demo_pt\<lparr>m_tLastFreeChunkSize := 0\<rparr>)"
proof -
  define s where "s = demo_pt\<lparr>m_tLastFreeChunkSize := 0\<rparr>"
  have req: "request2size 12000 = 12008" "\<not> REQUEST_OUT_OF_RANGE 12000" "\<not> in_smallbin_range 12008"
    by (simp_all add: request2size_def REQUEST_OUT_OF_RANGE_def in_smallbin_range_def MIN_LARGE_SIZE_def demo_consts SIZE_SZ_def u32_def)
  have idx: "bin_index 12008 = 112"
    using req(3) by (simp add: bin_index_def largebin_index_def)
  have "bitmap_word s i = 0" for i by (simp add: bitmap_word_def demo_pt_eq s_def)
  then have "next_bin s 112 = skip_bins s 512" by (simp add: next_bin_def skip_words_zero)
  then have "next_bin s 112 = 512" by (simp add: skip_bins.simps NBINS_def)
  moreover have "large_search c sz 0 n = None" for c sz n by (cases n) (simp_all add: INVALID_HANDLE_def)
  moreover have "m_hNextChunk (m_ptBin s 112) = 0" "top_alloc 12008 s = (INVALID_HANDLE, s)"
    by (simp_all add: s_def demo_pt_eq top_alloc_def MINSIZE_def)
  ultimately have "inter_malloc 12000 s = Some (INVALID_HANDLE, s)"
    by (simp add: inter_malloc_def req idx scan_malloc_def NBINS_def)
  then show ?thesis by (simp add: Malloc_def s_def)
qed

lemma Malloc_fails_witness: "m_tSize demo_pt \<le> m_hTop demo_pt + request2size 12000 + MINSIZE \<and> empty_bin 120 demo_pt"
proof -
  have "\<not> REQUEST_OUT_OF_RANGE 12000" "bin_index (request2size 12000) < 120"
    by (simp_all add: request2size_def REQUEST_OUT_OF_RANGE_def bin_index_def in_smallbin_range_def largebin_index_def
        MIN_LARGE_SIZE_def demo_consts SIZE_SZ_def u32_def)
  then show ?thesis
    using Malloc_fails_only_when_full [OF demo_pt_state demo_full] by (simp add: NBINS_def)
qed







text \<open>
  C24. \<open>Free\<close> of the null handle reports success and counts a block as freed although nothing
  was freed: on a consistent segment the counter of the header then is off by one, and wraps
  around to \<open>2^64 - 1\<close> when no block is allocated.
\<close>

theorem Free_null_counts:
  assumes "pt_state s L"
  shows "fst (Free INVALID_HANDLE s) = 0
    \<and> m_tUserAllocChunkCnt (snd (Free INVALID_HANDLE s)) = (if L = {} then 2 ^ 64 - 1 else card L - 1)"
proof -
  have cnt: "m_tUserAllocChunkCnt s = card L" "finite L" using state_blocks(1,5) [OF assms] by simp_all
  obtain cs where "pt_inv s cs" using assms by (rule pt_stateE)
  then have lt: "card L < 2 ^ 64" using accounts_bound(2) cnt(1) by (simp add: pt_inv_def accounts_def)
  show ?thesis
  proof (cases "L = {}")
    case True
    then show ?thesis using cnt by (simp add: Free_def inter_free_def)
  next
    case False
    then have "1 \<le> card L" using cnt(2) by (simp add: Suc_leI card_gt_0_iff)
    then show ?thesis using False cnt(1) lt wrap_sub [of 1 "card L"] by (simp add: Free_def inter_free_def)
  qed
qed

lemma Free_null_counts_witness: "m_tUserAllocChunkCnt (snd (Free INVALID_HANDLE demo_pt1)) = 0"
  using Free_null_counts [OF demo_malloc(3)] by simp

text \<open>
  C25. The size classes: a request in range gets a chunk size that is a multiple of 8, holds
  the request and 4 more bytes, and exceeds it by less than 12 unless it is the minimum; a
  larger chunk is never in an earlier bin, and every bin index is below 128.
\<close>

theorem size_classes:
  assumes "\<not> REQUEST_OUT_OF_RANGE req" "x \<le> y"
  shows "8 dvd request2size req \<and> req + SIZE_SZ \<le> request2size req \<and> MINSIZE \<le> request2size req
    \<and> request2size req < max (req + 12) 25 \<and> bin_index x \<le> bin_index y \<and> bin_index y < NBINS"
  using request2size_props [OF assms(1)] bin_index_mono [OF assms(2)] bin_index_less by blast

lemma size_classes_witness: "8 dvd request2size 100 \<and> 104 \<le> request2size 100 \<and> bin_index 500 \<le> bin_index 600"
  using size_classes [of 100 500 600] demo_request(2) by (simp add: SIZE_SZ_def)

end
