(* ===== verification/TTree_Alloc.thy ===== *)
theory TTree_Alloc
  imports TTree_Index PtMalloc_Theorems
begin

text \<open>
  The T-tree as a client of the allocator. The lemmas are proved once against the contract
  \<open>malloc_contract\<close> and then used for the T-tree of the program, whose nodes are allocated by
  \<open>PtMalloc\<close>.
\<close>

text \<open>The nodes of the tree are allocated blocks, all different.\<close>

definition owns :: "ttree \<Rightarrow> (handle \<times> nat) set \<Rightarrow> bool" where
  "owns t L \<longleftrightarrow> (\<forall>h. count (node_handles t) h \<le> 1) \<and> set_mset (node_handles t) \<subseteq> fst ` L"


context malloc_contract
begin

lemma insert_owned:
  assumes m: "holds m L" "owns t L"
    and res: "m' = m \<and> node_handles t' = node_handles t
      \<or> (\<exists>h. Malloc_op stMalloc m sizeof_TtreeNode = (m', h) \<and> h \<noteq> INVALID_HANDLE
           \<and> node_handles t' = add_mset h (node_handles t))"
  shows "\<exists>L'. holds m' L' \<and> owns t' L' \<and> L \<subseteq> L' \<and> fst ` L' \<subseteq> fst ` L \<union> set_mset (node_handles t')"
  using res
proof (elim disjE exE conjE)
  assume "m' = m" "node_handles t' = node_handles t"
  then show ?thesis using m by (intro exI [of _ L]) (auto simp: owns_def)
next
  fix h assume h: "Malloc_op stMalloc m sizeof_TtreeNode = (m', h)" "h \<noteq> INVALID_HANDLE"
    "node_handles t' = add_mset h (node_handles t)"
  obtain n where n: "h \<notin> fst ` L" "holds m' (insert (h, n) L)" using malloc_law [OF m(1) h(1)] h(2) by blast
  have "h \<notin># node_handles t" using n(1) m(2) by (auto simp: owns_def)
  then have "owns t' (insert (h, n) L)" using m(2) h(3) by (auto simp: owns_def not_in_iff)
  then show ?thesis using n(2) h(3) by (intro exI [of _ "insert (h, n) L"]) auto
qed

lemma delete_owned:
  assumes m: "holds m L" "owns t L"
    and res: "m' = m \<and> node_handles t' = node_handles t
      \<or> (\<exists>h. node_handles t = add_mset h (node_handles t') \<and> m' = fst (Free_op stMalloc m h))"
    and L': "L' = {b \<in> L. fst b \<in># node_handles t \<longrightarrow> fst b \<in># node_handles t'}"
  shows "holds m' L' \<and> owns t' L'"
  using res
proof (elim disjE exE conjE)
  assume "m' = m" "node_handles t' = node_handles t"
  then show ?thesis using m by (simp add: L' owns_def)
next
  fix h assume h: "node_handles t = add_mset h (node_handles t')" "m' = fst (Free_op stMalloc m h)"
  have le: "count (node_handles t) k \<le> 1" for k using m(2) by (simp add: owns_def)
  have no: "h \<notin># node_handles t'" using le [of h] h(1) by (simp add: not_in_iff)
  then have L: "L' = {b \<in> L. fst b \<noteq> h}" by (auto simp: L' h(1))
  have "h \<in> fst ` L" using m(2) h(1) by (auto simp: owns_def)
  then have "holds m' L'" using free_handle(2) [OF m(1)] h(2) L by simp
  moreover have "count (node_handles t') k \<le> 1" for k using le [of k] h(1) by (simp split: if_splits)
  moreover have "set_mset (node_handles t') \<subseteq> fst ` L'"
  proof
    fix k assume k: "k \<in># node_handles t'"
    then have "k \<in> fst ` L" using m(2) h(1) by (auto simp: owns_def)
    then show "k \<in> fst ` L'" using k no by (force simp: L)
  qed
  ultimately show ?thesis by (simp add: owns_def)
qed

lemma destroy_owned:
  assumes "holds m L" "distinct (destroy_order t)" "set (destroy_order t) \<subseteq> fst ` L"
  shows "holds (snd (Ttree_destory stMalloc t m)) {b \<in> L. fst b \<notin> set (inorder t) \<and> fst b \<notin># node_handles t}"
proof -
  have set: "set (destroy_order t) = set (inorder t) \<union> set_mset (node_handles t)"
    using arg_cong [OF mset_destroy_order [of t], of set_mset] by simp
  have "snd (Ttree_destory stMalloc t m) = fold (\<lambda>h m. fst (Free_op stMalloc m h)) (destroy_order t) m"
    by (cases t) (simp_all add: Ttree_destory_def destory_fold)
  moreover have "{b \<in> L. fst b \<notin> set (destroy_order t)} = {b \<in> L. fst b \<notin> set (inorder t) \<and> fst b \<notin># node_handles t}"
    by (auto simp: set)
  ultimately show ?thesis using free_all [OF assms] by simp
qed

end

section \<open>The T-tree over PtMalloc\<close>





text \<open>
  C28. Destroying an index frees exactly the blocks of its nodes and of its records, when these
  are allocated blocks, all different; the segment is consistent afterwards.
\<close>

theorem destory_over_PtMalloc:
  assumes "pt_state s L" "distinct (destroy_order t)" "set (destroy_order t) \<subseteq> fst ` L"
  shows "fst (Ttree_destory pt_base t s) = NIL
    \<and> pt_state (snd (Ttree_destory pt_base t s)) {b \<in> L. fst b \<notin> set (inorder t) \<and> fst b \<notin># node_handles t}"
  using pt.destroy_owned [OF assms] by (cases t) (simp_all add: Ttree_destory_def)

section \<open>Examples\<close>






lemma destory_over_PtMalloc_witness: "pt_state (snd (Ttree_destory pt_base (TtreeNode 8216 NIL NIL 0 []) demo_pt1)) {}"
  using destory_over_PtMalloc [OF demo_malloc(3), of "TtreeNode 8216 NIL NIL 0 []"] by (simp cong: conj_cong)

end
