(* ===== verification/Spec2Isabelle.thy ===== *)
theory Spec2Isabelle
  imports TTree_Alloc
begin

text \<open>
  A verification of the storage engine of DTC, a distributed table cache. The cache server
  (\<open>src/src/core\<close>) keeps its rows in one shared memory segment. An allocator divides the segment
  into chunks, and the rows of a key are chunks of it, or hang in T-trees whose nodes are chunks.

  \<^bold>\<open>Prelude\<close> holds the machine integers of the code (\<open>u32\<close>, \<open>to_int32\<close>) and lemmas on lists and
  options. \<^bold>\<open>Mallocator\<close> models the interface \<open>MallocBase\<close> (\<open>core/mem/mallocator.h\<close>) as a record of
  operations on a memory state, with a locale for what its clients rely on.

  \<^bold>\<open>T-tree.\<close> \<open>TTree\<close> models \<open>core/tree/t_tree.cc\<close>: a tree is the unfolding of the node links, every
  method is one function, reference parameters are results, a null dereference is \<open>None\<close>, and the
  recursive insertion and deletion are partial functions. \<open>TTree_Order\<close> states the invariant
  (AVL balance, order, node sizes). \<open>TTree_Insert\<close>, \<open>TTree_Delete\<close> and \<open>TTree_Traverse\<close> prove the
  operations against a comparator that is consistent with a linear order, \<open>TTree_Map\<close> gives the
  abstract map they implement. \<open>TTree_Keys\<close> models \<open>KeyCompare\<close> and \<open>convert_cvalue\<close> on the bytes of
  the records, for all field types, and shows in which range of keys the comparator is an order:
  the code keeps the 64-bit difference in an \<open>int\<close>. \<open>TTree_Index\<close> states the theorems of the index.

  \<^bold>\<open>PtMalloc.\<close> \<open>PtMalloc\<close> models \<open>core/mem/pt_malloc.cc\<close>: the segment is a map from addresses to
  32-bit cells, chunk headers and free lists are read from and written to it. \<open>PtMalloc_Heap\<close> states
  the layout invariant, \<open>PtMalloc_Step\<close>, \<open>PtMalloc_Alloc\<close> and \<open>PtMalloc_Correct\<close> prove that every
  operation keeps it, \<open>PtMalloc_Theorems\<close> states the theorems. \<open>TTree_Alloc\<close> puts the T-tree on top of
  the allocator: the contract that the tree needs is interpreted on \<open>PtMalloc\<close>.

  \<^bold>\<open>Bounds.\<close> Handles are natural numbers; the segment is at most 64 GiB. The search of a large bin
  looks at 99 chunks as the code does. Loops that the code bounds by a structure are recursive on a
  measure, the others are partial functions for which the theorems show that they return.

  \<^bold>\<open>Not modelled\<close>: message buffers, statistics output and \<open>dump_*\<close>; requests, table definitions and
  the network (\<open>libs/common\<close>, \<open>core/chain\<close>); the other servers of the repository, which are I/O.
\<close>

end
